(* ===== verification/Prelude.thy ===== *)
theory Prelude
  imports Main "HOL-Library.Word"
begin

text \<open>
  Shared vocabulary of the development: the C integer types as words, and generic lemmas on
  words, lists and bit operations that several components use.
  Lemmas that turn word arithmetic without overflow into arithmetic on natural numbers are
  collected under \<open>no_overflow\<close>; lemmas that compare words bit by bit under \<open>bitwise\<close>.
\<close>

unbundle bit_operations_syntax

section \<open>C integer types\<close>

type_synonym u8 = "8 word"
type_synonym u16 = "16 word"
type_synonym u32 = "32 word"
type_synonym u64 = "64 word"

section \<open>Lemma collections\<close>

named_theorems no_overflow
named_theorems bitwise

section \<open>Words without overflow\<close>

lemma unat_add_small [no_overflow]:
  fixes a b :: "'a::len word"
  assumes "unat a + unat b < 2 ^ LENGTH('a)"
  shows "unat (a + b) = unat a + unat b"
  using assms by (simp add: unat_word_ariths)

lemma unat_mult_small [no_overflow]:
  fixes a b :: "'a::len word"
  assumes "unat a * unat b < 2 ^ LENGTH('a)"
  shows "unat (a * b) = unat a * unat b"
  using assms by (simp add: unat_word_ariths)

lemma unat_sub_small [no_overflow]:
  fixes a b :: "'a::len word"
  assumes "unat b \<le> unat a"
  shows "unat (a - b) = unat a - unat b"
  using assms by (metis unat_sub word_le_nat_alt)

lemma unat_of_nat_small [no_overflow]:
  assumes "n < 2 ^ LENGTH('a::len)"
  shows "unat (of_nat n :: 'a word) = n"
  using assms by (simp add: unat_of_nat)

lemma unat_numeral_small [no_overflow]:
  assumes "(numeral n :: nat) < 2 ^ LENGTH('a::len)"
  shows "unat (numeral n :: 'a word) = numeral n"
  using assms by (metis unat_of_nat_small of_nat_numeral)

lemma unat_2_power: "k < LENGTH('a) \<Longrightarrow> unat ((2::'a::len word) ^ k) = 2 ^ k"
  using unat_of_nat_small [of "2 ^ k", where 'a = 'a] by simp

lemma power_len_ge:
  assumes "n \<le> LENGTH('a::len)"
  shows "(2::nat) ^ n \<le> 2 ^ LENGTH('a)"
  using assms by (simp add: power_increasing)

lemma unat_lt_len: "unat (x :: 'a::len word) < 2 ^ LENGTH('a)"
  by (rule unsigned_less)

lemma unat_u8_le: "unat (x :: u8) \<le> 255"
  using unat_lt_len [of x] by simp

lemma unat_mod_word: "unat (a mod b) = unat a mod unat (b :: 'a::len word)"
  by (rule unat_mod)

lemma unat_and_mask: "unat (a AND mask n) = unat (a :: 'a::len word) mod 2 ^ n"
  by (simp flip: take_bit_eq_mask add: unsigned_take_bit_eq take_bit_eq_mod [where 'a = nat])

lemma unat_drop_bit: "unat (drop_bit n a) = unat (a :: 'a::len word) div 2 ^ n"
  by (simp only: unat_drop_bit_eq drop_bit_eq_div [where 'a = nat])

lemma unat_push_bit_small:
  fixes a :: "'a::len word"
  assumes "unat a * 2 ^ n < 2 ^ LENGTH('a)"
  shows "unat (push_bit n a) = unat a * 2 ^ n"
  using assms
  by (simp only: unsigned_push_bit_eq push_bit_eq_mult [where 'a = nat] take_bit_nat_eq_self)

lemma take_bit_self:
  fixes a :: "'a::len word"
  assumes "unat a < 2 ^ n"
  shows "take_bit n a = a"
  using assms by (simp add: word_unat_eq_iff unsigned_take_bit_eq take_bit_nat_eq_self)

lemma unat_less_exp:
  fixes a :: "'a::len word"
  assumes "take_bit n a = a"
  shows "unat a < 2 ^ n"
proof -
  have "unat a = take_bit n (unat a)"
    using arg_cong [OF assms, of unat] by (simp add: unsigned_take_bit_eq)
  then show ?thesis by (metis take_bit_nat_less_exp)
qed

lemma bit_less_imp_less:
  fixes a :: "'a::len word"
  assumes "unat a < 2 ^ n" and "bit a i"
  shows "i < n"
  using take_bit_self [OF assms(1)] assms(2) by (metis bit_take_bit_iff)

section \<open>Linear functions over GF(2)\<close>

text \<open>
  A table of the values of a linear function is spanned by the values at the powers of two:
  each of them doubles the part of the table that is known.
\<close>

definition xor_linear :: "('a::len word \<Rightarrow> 'b::len word) \<Rightarrow> bool" where
  "xor_linear f \<longleftrightarrow> f 0 = 0 \<and> (\<forall>a b. f (a XOR b) = f a XOR f b)"

definition span :: "'b::len word list \<Rightarrow> 'b word list" where
  "span bs = foldl (\<lambda>t b. t @ map (\<lambda>x. x XOR b) t) [0] bs"

lemma span_linear:
  fixes f :: "'a::len word \<Rightarrow> 'b::len word"
  assumes "xor_linear f"
  shows "k \<le> LENGTH('a) \<Longrightarrow> span (map (\<lambda>i. f (push_bit i 1)) [0..<k]) = map (\<lambda>n. f (of_nat n)) [0..<2 ^ k]"
proof (induction k)
  case 0
  then show ?case using assms by (simp add: span_def xor_linear_def)
next
  case (Suc k)
  have up: "[0..<2 ^ Suc k] = [0..<2 ^ k] @ map (\<lambda>n. n + 2 ^ k) [0..<2 ^ k]"
    by (simp add: map_add_upt mult_2 upt_add_eq_append [of 0 "2 ^ k" "2 ^ k", symmetric])
  have f: "f (of_nat (n + 2 ^ k)) = f (of_nat n) XOR f (push_bit k 1)" if "n < 2 ^ k" for n
  proof -
    have n: "unat (of_nat n :: 'a word) < 2 ^ k"
      using that less_le_trans [OF that power_len_ge [where 'a = 'a]] Suc.prems
      by (simp add: unat_of_nat_small)
    have "(of_nat n :: 'a word) + push_bit k 1 = of_nat n XOR push_bit k 1"
      by (rule disjunctive_add_eq_xor, rule bit_word_eqI)
        (use bit_less_imp_less [OF n] in \<open>auto simp: bit_and_iff bit_exp_iff\<close>)
    then have "(of_nat (n + 2 ^ k) :: 'a word) = of_nat n XOR push_bit k 1"
      by (simp add: push_bit_eq_mult)
    then show ?thesis using assms by (simp add: xor_linear_def)
  qed
  have "span (map (\<lambda>i. f (push_bit i 1)) [0..<Suc k])
      = map (\<lambda>n. f (of_nat n)) [0..<2 ^ k] @ map (\<lambda>x. x XOR f (push_bit k 1)) (map (\<lambda>n. f (of_nat n)) [0..<2 ^ k])"
    using Suc by (simp add: span_def)
  also have "map (\<lambda>x. x XOR f (push_bit k 1)) (map (\<lambda>n. f (of_nat n)) [0..<2 ^ k])
      = map (\<lambda>n. f (of_nat n)) (map (\<lambda>n. n + 2 ^ k) [0..<2 ^ k])"
    unfolding map_map o_def by (rule map_cong [OF refl]) (simp only: f set_upt atLeastLessThan_iff)
  finally show ?case unfolding up map_append .
qed

lemma table_span:
  fixes f :: "'a::len word \<Rightarrow> 'b::len word"
  assumes "xor_linear f" and "8 \<le> LENGTH('a)"
  shows "map (\<lambda>n. f (of_nat n)) [0..<256] = span [f 1, f 2, f 4, f 8, f 16, f 32, f 64, f 128]"
proof -
  have "[0..<8] = [0, 1, 2, 3, 4, 5, 6, 7]" by (simp add: upt_rec)
  then show ?thesis using span_linear [OF assms(1), of 8] assms(2) by (simp add: push_bit_eq_mult)
qed

lemma funpow_8: "(f ^^ 8) x = f (f (f (f (f (f (f (f x)))))))"
  by (simp add: numeral_eq_Suc)

section \<open>Pairs\<close>

lemma map_prod_conv: "map_prod f g p = (f (fst p), g (snd p))"
  by (cases p) simp

end
