(* ===== verification/Tr_Bits.thy ===== *)
theory Tr_Bits
  imports Prelude
begin

text \<open>
  The bit buffer of \<open>zlib_archive/trees.c\<close>: \<open>send_bits\<close>, \<open>put_short\<close>, \<open>bi_flush\<close>, \<open>bi_windup\<close> and
  \<open>bi_reverse\<close>, on the fields of \<open>deflate_state\<close> that they use.

  The bytes of \<open>pending_buf\<close> below \<open>pending\<close> are a list. The buffers of the tokens lie in the same
  memory, as \<open>deflate.c\<close> lays it out: of the \<open>4 * lit_bufsize\<close> bytes of \<open>pending_buf\<close>, the 16-bit
  entries of \<open>d_buf\<close> begin at byte \<open>d_start\<close> and the bytes of \<open>l_buf\<close> at byte \<open>l_start\<close>. A byte that is put
  behind these changes the entry it falls on (the low half of an entry of \<open>d_buf\<close> comes first). That
  \<open>pending\<close> stays below the size of \<open>pending_buf\<close> is an assumption of the code.
\<close>

section \<open>The code\<close>

record bit_sink =
  pending :: "u8 list"
  lit_bufsize :: u32
  d_buf :: "u16 list"
  l_buf :: "u8 list"
  bi_buf :: u16
  bi_valid :: int

definition Buf_size :: int where "Buf_size = 16"

text \<open>\<open>overlay + lit_bufsize/sizeof(ush)\<close> counts entries of two bytes.\<close>

definition d_start :: "'s bit_sink_scheme \<Rightarrow> nat" where
  "d_start s = 2 * (unat (lit_bufsize s) div 2)"

definition l_start :: "'s bit_sink_scheme \<Rightarrow> nat" where
  "l_start s = (1 + 2) * unat (lit_bufsize s)"

definition set_half :: "u16 \<Rightarrow> bool \<Rightarrow> u8 \<Rightarrow> u16" where
  "set_half w high c = (if high then (w AND 0x00ff) OR push_bit 8 (ucast c) else (w AND 0xff00) OR ucast c)"

text \<open>An index behind the end of \<open>d_buf\<close> or \<open>l_buf\<close> changes nothing there.\<close>

definition put_byte :: "'s bit_sink_scheme \<Rightarrow> u8 \<Rightarrow> 's bit_sink_scheme" where
  "put_byte s c =
     (let p = length (pending s); d = d_start s; l = l_start s;
          s = s\<lparr>pending := pending s @ [c]\<rparr>;
          i = (p - d) div 2;
          s = (if d \<le> p then s\<lparr>d_buf := (d_buf s)[i := set_half (d_buf s ! i) (odd (p - d)) c]\<rparr> else s)
      in if l \<le> p then s\<lparr>l_buf := (l_buf s)[p - l := c]\<rparr> else s)"

definition put_short :: "'s bit_sink_scheme \<Rightarrow> u16 \<Rightarrow> 's bit_sink_scheme" where
  "put_short s w = put_byte (put_byte s (ucast (w AND 0xff))) (ucast (drop_bit 8 w))"

text \<open>\<open>(ush)value << n\<close> is computed in an \<open>int\<close> and truncated when it is stored.\<close>

definition send_bits :: "'s bit_sink_scheme \<Rightarrow> u32 \<Rightarrow> int \<Rightarrow> 's bit_sink_scheme" where
  "send_bits s value len =
     (let v = ucast (ucast value :: u16) :: u32 in
      if bi_valid s > Buf_size - len
      then
        let s = s\<lparr>bi_buf := bi_buf s OR ucast (push_bit (nat (bi_valid s)) v)\<rparr>;
            s = put_short s (bi_buf s);
            s = s\<lparr>bi_buf := ucast (drop_bit (nat (Buf_size - bi_valid s)) v)\<rparr>
        in s\<lparr>bi_valid := bi_valid s + (len - Buf_size)\<rparr>
      else
        let s = s\<lparr>bi_buf := bi_buf s OR ucast (push_bit (nat (bi_valid s)) v)\<rparr>
        in s\<lparr>bi_valid := bi_valid s + len\<rparr>)"

definition bi_flush :: "'s bit_sink_scheme \<Rightarrow> 's bit_sink_scheme" where
  "bi_flush s =
     (if bi_valid s = 16 then (put_short s (bi_buf s))\<lparr>bi_buf := 0, bi_valid := 0\<rparr>
      else if bi_valid s \<ge> 8
      then (put_byte s (ucast (bi_buf s)))\<lparr>bi_buf := drop_bit 8 (bi_buf s), bi_valid := bi_valid s - 8\<rparr>
      else s)"

definition bi_windup :: "'s bit_sink_scheme \<Rightarrow> 's bit_sink_scheme" where
  "bi_windup s =
     (let s = (if bi_valid s > 8 then put_short s (bi_buf s)
               else if bi_valid s > 0 then put_byte s (ucast (bi_buf s))
               else s)
      in s\<lparr>bi_buf := 0, bi_valid := 0\<rparr>)"

text \<open>The loop of \<open>bi_reverse\<close>, for \<open>len \<ge> 1\<close>.\<close>

fun reverse_loop :: "u32 \<Rightarrow> nat \<Rightarrow> u32 \<Rightarrow> u32" where
  "reverse_loop code len res =
     (let res = push_bit 1 (res OR (code AND 1)); code = drop_bit 1 code in
      if len - 1 > 0 then reverse_loop code (len - 1) res else res)"

declare reverse_loop.simps [simp del]

definition bi_reverse :: "u32 \<Rightarrow> nat \<Rightarrow> u32" where
  "bi_reverse code len = drop_bit 1 (reverse_loop code len 0)"

section \<open>The bits that have been sent\<close>

definition bits_of :: "'a::len word \<Rightarrow> nat \<Rightarrow> bool list" where
  "bits_of v n = map (bit v) [0..<n]"

definition byte_stream :: "u8 list \<Rightarrow> bool list" where
  "byte_stream bs = concat (map (\<lambda>b. bits_of b 8) bs)"

definition sent :: "'s bit_sink_scheme \<Rightarrow> bool list" where
  "sent s = byte_stream (pending s) @ bits_of (bi_buf s) (nat (bi_valid s))"

definition sink_ok :: "'s bit_sink_scheme \<Rightarrow> bool" where
  "sink_ok s \<longleftrightarrow> 0 \<le> bi_valid s \<and> bi_valid s \<le> 16 \<and> (\<forall>i. bit (bi_buf s) i \<longrightarrow> int i < bi_valid s)"

lemma put_byte_fields [simp]:
  "pending (put_byte s c) = pending s @ [c]" "lit_bufsize (put_byte s c) = lit_bufsize s"
  "bi_buf (put_byte s c) = bi_buf s" "bi_valid (put_byte s c) = bi_valid s"
  by (simp_all add: put_byte_def Let_def)

lemma byte_stream_simps [simp]:
  "byte_stream [] = []" "byte_stream (b # bs) = bits_of b 8 @ byte_stream bs"
  "byte_stream (bs @ cs) = byte_stream bs @ byte_stream cs"
  by (simp_all add: byte_stream_def)

lemma length_byte_stream: "length (byte_stream bs) = 8 * length bs"
  by (induction bs) (simp_all add: bits_of_def)

lemma length_bits_of [simp]: "length (bits_of v n) = n"
  by (simp add: bits_of_def)

lemma bits_of_split: "n \<le> m \<Longrightarrow> bits_of v m = bits_of v n @ bits_of (drop_bit n v) (m - n)"
  by (rule nth_equalityI) (auto simp: bits_of_def nth_append bit_simps)

lemma bits_of_cong: "(\<And>i. i < n \<Longrightarrow> bit v i = bit w i) \<Longrightarrow> bits_of v n = bits_of w n"
  by (simp add: bits_of_def)

lemma put_short_stream:
  "byte_stream (pending (put_short s w)) = byte_stream (pending s) @ bits_of w 16"
  "bi_buf (put_short s w) = bi_buf s" "bi_valid (put_short s w) = bi_valid s"
proof -
  have m: "0xff = (mask 8 :: u16)" by (simp add: mask_numeral mask_eq_exp_minus_1)
  have "bits_of (ucast (w AND 0xff) :: u8) 8 = bits_of w 8"
    unfolding m by (rule bits_of_cong) (simp add: bit_simps)
  moreover have "bits_of (ucast (drop_bit 8 w) :: u8) 8 = bits_of (drop_bit 8 w) 8"
    by (rule bits_of_cong) (simp add: bit_simps)
  ultimately show "byte_stream (pending (put_short s w)) = byte_stream (pending s) @ bits_of w 16"
    using bits_of_split [of 8 16 w] by (simp add: put_short_def)
qed (simp_all add: put_short_def)

lemma bits_of_shift:
  assumes "\<And>i. bit w i \<longleftrightarrow> bit v (k + i)" and "k + m = l"
  shows "bits_of v l = bits_of v k @ bits_of w m"
proof -
  have "bits_of v l = bits_of v k @ bits_of (drop_bit k v) m"
    using bits_of_split [of k l v] assms(2) by force
  also have "bits_of (drop_bit k v) m = bits_of w m"
    by (rule bits_of_cong) (simp add: assms(1) bit_drop_bit_eq)
  finally show ?thesis .
qed

text \<open>The buffer after \<open>l\<close> bits of \<open>v\<close> have been or-ed into it above the first \<open>n\<close>.\<close>

lemma bits_of_or:
  fixes b :: u16
  assumes "\<And>i. bit b i \<Longrightarrow> i < n" and "n + m \<le> 16"
  shows "bits_of (b OR ucast (push_bit n (v :: u32))) (n + m) = bits_of b n @ bits_of v m"
proof -
  let ?c = "b OR ucast (push_bit n v) :: u16"
  have c: "bit ?c i \<longleftrightarrow> i < 16 \<and> (bit b i \<or> n \<le> i \<and> bit v (i - n))" for i
    using assms(1) by (auto simp: bit_simps dest: bit_imp_le_length)
  have "bits_of ?c (n + m) = bits_of ?c n @ bits_of (drop_bit n ?c) m"
    using bits_of_split [of n "n + m" ?c] by simp
  also have "bits_of ?c n = bits_of b n"
    using assms(2) by (intro bits_of_cong) (simp only: c, auto)
  also have "bits_of (drop_bit n ?c) m = bits_of v m"
    using assms by (intro bits_of_cong) (simp only: bit_drop_bit_eq o_def c, auto)
  finally show ?thesis .
qed

lemma unat_less_bit: "unat (v :: 'a::len word) < 2 ^ l \<Longrightarrow> bit v i \<Longrightarrow> i < l"
  by (rule bit_less_imp_less)

lemma ucast_value:
  assumes "unat (value :: u32) < 2 ^ l" "l \<le> 16"
  shows "ucast (ucast value :: u16) = value"
proof (rule bit_word_eqI)
  fix i assume "i < LENGTH(32)"
  show "bit (ucast (ucast value :: u16) :: u32) i = bit value i"
    using unat_less_bit [OF assms(1), of i] assms(2) \<open>i < LENGTH(32)\<close> by (auto simp: bit_simps)
qed

lemma send_bits_fits:
  assumes s: "sink_ok s" and n: "bi_valid s = int n" "n + l \<le> 16" and v: "unat value < 2 ^ l"
  shows "sink_ok (send_bits s value (int l))" (is "?ok")
    and "sent (send_bits s value (int l)) = sent s @ bits_of value l" (is "?sent")
proof -
  have b: "i < n" if "bit (bi_buf s) i" for i
    using s that unfolding sink_ok_def n(1) by auto
  have u: "ucast (ucast value :: u16) = value"
    using v n(2) by (intro ucast_value [of _ l]) auto
  let ?b = "bi_buf s OR ucast (push_bit n value)"
  have x: "bi_buf (send_bits s value (int l)) = ?b"
    "bi_valid (send_bits s value (int l)) = int (n + l)" "pending (send_bits s value (int l)) = pending s"
    using n by (simp_all add: send_bits_def Let_def Buf_size_def u)
  have "i < n + l" if "bit ?b i" for i
    using b [of i] unat_less_bit [OF v, of "i - n"] that by (auto simp: bit_simps)
  then show ?ok unfolding sink_ok_def x using n(2) by (simp del: of_nat_add)
  have "bits_of ?b (n + l) = bits_of (bi_buf s) n @ bits_of value l"
    by (rule bits_of_or [OF b n(2)])
  then show ?sent
    unfolding sent_def x n(1) nat_int by simp
qed

lemma send_bits_overflows:
  assumes s: "sink_ok s" and n: "bi_valid s = int n" "l \<le> 16" "16 < n + l" and v: "unat value < 2 ^ l"
  shows "sink_ok (send_bits s value (int l))" (is "?ok")
    and "sent (send_bits s value (int l)) = sent s @ bits_of value l" (is "?sent")
proof -
  have b: "i < n" if "bit (bi_buf s) i" for i
    using s that unfolding sink_ok_def n(1) by auto
  have n16: "n \<le> 16" using s unfolding sink_ok_def n(1) by auto
  define m where "m = n + l - 16"
  have m: "16 - n + m = l" "int n + (int l - 16) = int m" "m \<le> 16" using n(2,3) n16 by (auto simp: m_def)
  have e: "nat (16 - int n) = 16 - n" using n16 by simp
  have u: "ucast (ucast value :: u16) = value"
    using v n(2) by (intro ucast_value [of _ l]) auto
  let ?b = "bi_buf s OR ucast (push_bit n value)"
  let ?r = "ucast (drop_bit (16 - n) value) :: u16"
  have r: "bit ?r i \<longleftrightarrow> bit value (16 - n + i)" for i
    using unat_less_bit [OF v, of "16 - n + i"] n(2,3) by (auto simp: bit_simps)
  have x: "bi_buf (send_bits s value (int l)) = ?r" "bi_valid (send_bits s value (int l)) = int m"
    "byte_stream (pending (send_bits s value (int l))) = byte_stream (pending s) @ bits_of ?b 16"
    using n(3) by (simp_all add: send_bits_def Let_def Buf_size_def n(1) put_short_stream u e m(2))
  have "i < m" if "bit ?r i" for i
    using unat_less_bit [OF v, of "16 - n + i"] that m(1) unfolding r by linarith
  then show ?ok unfolding sink_ok_def x using m(3) by simp
  have "bits_of ?b 16 = bits_of (bi_buf s) n @ bits_of value (16 - n)"
    using bits_of_or [where m = "16 - n", OF b] n16 by simp
  moreover have "bits_of value l = bits_of value (16 - n) @ bits_of ?r m"
    by (rule bits_of_shift) (simp_all add: r m(1))
  ultimately show ?sent unfolding sent_def x n(1) nat_int by simp
qed

lemma send_bits_ok:
  assumes "sink_ok s" "l \<le> 16" "unat value < 2 ^ l"
  shows "sink_ok (send_bits s value (int l))" "sent (send_bits s value (int l)) = sent s @ bits_of value l"
proof -
  obtain n where n: "bi_valid s = int n"
    using assms(1) unfolding sink_ok_def by (metis nonneg_int_cases)
  note f = send_bits_fits [OF assms(1) n _ assms(3)] and o = send_bits_overflows [OF assms(1) n assms(2) _ assms(3)]
  show "sink_ok (send_bits s value (int l))" using f(1) o(1) by linarith
  show "sent (send_bits s value (int l)) = sent s @ bits_of value l" using f(2) o(2) by linarith
qed

section \<open>The interface of a bit writer\<close>

text \<open>
  What the senders of blocks and trees rely on: a value sent appends its low bits to the stream.
\<close>

locale bit_writer =
  fixes put :: "'s \<Rightarrow> u32 \<Rightarrow> int \<Rightarrow> 's"
    and stream :: "'s \<Rightarrow> bool list"
    and ok :: "'s \<Rightarrow> bool"
  assumes ok_put: "ok s \<Longrightarrow> l \<le> 16 \<Longrightarrow> unat v < 2 ^ l \<Longrightarrow> ok (put s v (int l))"
    and stream_put: "ok s \<Longrightarrow> l \<le> 16 \<Longrightarrow> unat v < 2 ^ l \<Longrightarrow> stream (put s v (int l)) = stream s @ bits_of v l"
begin

definition put_all :: "'s \<Rightarrow> (u32 \<times> nat) list \<Rightarrow> 's" where
  "put_all s vs = foldl (\<lambda>s (v, l). put s v (int l)) s vs"

definition fits :: "(u32 \<times> nat) list \<Rightarrow> bool" where
  "fits vs \<longleftrightarrow> (\<forall>(v, l) \<in> set vs. l \<le> 16 \<and> unat v < 2 ^ l)"

lemma put_all_ok:
  "ok s \<Longrightarrow> fits vs \<Longrightarrow> ok (put_all s vs) \<and> stream (put_all s vs) = stream s @ concat (map (\<lambda>(v, l). bits_of v l) vs)"
proof (induction vs arbitrary: s)
  case Nil
  then show ?case by (simp add: put_all_def)
next
  case (Cons x vs)
  obtain v l where x: "x = (v, l)" by (cases x)
  have "l \<le> 16" "unat v < 2 ^ l" "fits vs" using Cons.prems(2) by (auto simp: fits_def x)
  then show ?case
    using Cons.IH [of "put s v (int l)"] Cons.prems(1) by (simp add: put_all_def x ok_put stream_put)
qed

end

interpretation tr: bit_writer send_bits sent sink_ok
  by unfold_locales (rule send_bits_ok; assumption)+

section \<open>Flushing and alignment\<close>

lemma put_byte_stream:
  "byte_stream (pending (put_byte s c)) = byte_stream (pending s) @ bits_of c 8"
  "bi_buf (put_byte s c) = bi_buf s" "bi_valid (put_byte s c) = bi_valid s"
  by simp_all

lemma bits_of_ucast: "n \<le> 8 \<Longrightarrow> bits_of (ucast (w :: u16) :: u8) n = bits_of w n"
  by (rule bits_of_cong) (simp add: bit_simps)

lemma bi_flush_ok:
  assumes "sink_ok s"
  shows "sink_ok (bi_flush s)" "sent (bi_flush s) = sent s" "bi_valid (bi_flush s) < 8"
proof -
  obtain n where n: "bi_valid s = int n" "n \<le> 16" "\<And>i. bit (bi_buf s) i \<Longrightarrow> i < n"
    using assms unfolding sink_ok_def by (metis nonneg_int_cases of_nat_le_iff of_nat_less_iff of_nat_numeral)
  consider "n = 16" | "8 \<le> n" "n < 16" | "n < 8" using n(2) by linarith
  note c = this
  show "sink_ok (bi_flush s)"
    using c assms n(2) n(3) [of "8 + i" for i]
    by cases (auto simp: bi_flush_def sink_ok_def n(1) bit_drop_bit_eq put_byte_stream put_short_stream
        dest!: n(3))
  show "bi_valid (bi_flush s) < 8"
    using c by cases (auto simp: bi_flush_def n(1))
  show "sent (bi_flush s) = sent s"
    using c
  proof cases
    case 1
    then show ?thesis by (simp add: bi_flush_def sent_def n(1) put_short_stream) (simp add: bits_of_def)
  next
    case 2
    then have "bits_of (bi_buf s) n = bits_of (bi_buf s) 8 @ bits_of (drop_bit 8 (bi_buf s)) (n - 8)"
      by (intro bits_of_split) simp
    moreover have "nat (int n - 8) = n - 8" by simp
    ultimately show ?thesis using 2
      by (simp add: bi_flush_def sent_def n(1) put_byte_stream bits_of_ucast)
  next
    case 3
    then show ?thesis by (simp add: bi_flush_def n(1))
  qed
qed

lemma bits_of_high:
  assumes "\<And>i. bit w i \<Longrightarrow> i < n" "n \<le> m"
  shows "bits_of w m = bits_of w n @ replicate (m - n) False"
  using assms(2) by (intro nth_equalityI) (auto simp: bits_of_def nth_append dest: assms(1))

lemma bi_windup_ok:
  assumes "sink_ok s"
  shows "sink_ok (bi_windup s)" "bi_valid (bi_windup s) = 0"
    "\<exists>k < 8. sent (bi_windup s) = sent s @ replicate k False"
    "sent (bi_windup s) = byte_stream (pending (bi_windup s))"
proof -
  obtain n where n: "bi_valid s = int n" "n \<le> 16" "\<And>i. bit (bi_buf s) i \<Longrightarrow> i < n"
    using assms unfolding sink_ok_def by (metis nonneg_int_cases of_nat_le_iff of_nat_less_iff of_nat_numeral)
  show "sink_ok (bi_windup s)" "bi_valid (bi_windup s) = 0"
    by (simp_all add: bi_windup_def sink_ok_def Let_def)
  then show "sent (bi_windup s) = byte_stream (pending (bi_windup s))"
    by (simp add: sent_def bits_of_def)
  consider "8 < n" | "0 < n" "n \<le> 8" | "n = 0" by linarith
  then show "\<exists>k < 8. sent (bi_windup s) = sent s @ replicate k False"
  proof cases
    case 1
    then have "sent (bi_windup s) = sent s @ replicate (16 - n) False"
      using bits_of_high [OF n(3) n(2)]
      by (simp add: bi_windup_def sent_def n(1) put_short_stream) (simp add: bits_of_def)
    then show ?thesis using 1 by (intro exI [of _ "16 - n"]) auto
  next
    case 2
    then have "sent (bi_windup s) = sent s @ replicate (8 - n) False"
      using bits_of_high [OF n(3) 2(2)]
      by (simp add: bi_windup_def sent_def n(1) put_byte_stream bits_of_ucast) (simp add: bits_of_def)
    then show ?thesis using 2 by (intro exI [of _ "8 - n"]) auto
  next
    case 3
    then show ?thesis by (intro exI [of _ 0]) (simp add: bi_windup_def sent_def n(1) bits_of_def)
  qed
qed

section \<open>The overlay\<close>

text \<open>
  The entries of \<open>d_buf\<close> and \<open>l_buf\<close> that begin at or behind the last byte written are unchanged.
\<close>

definition overlay_kept :: "'s bit_sink_scheme \<Rightarrow> 's bit_sink_scheme \<Rightarrow> bool" where
  "overlay_kept s r \<longleftrightarrow> lit_bufsize r = lit_bufsize s \<and> length (pending s) \<le> length (pending r) \<and>
     length (d_buf r) = length (d_buf s) \<and> length (l_buf r) = length (l_buf s) \<and>
     (\<forall>i. length (pending r) \<le> d_start s + 2 * i \<longrightarrow> d_buf r ! i = d_buf s ! i) \<and>
     (\<forall>i. length (pending r) \<le> l_start s + i \<longrightarrow> l_buf r ! i = l_buf s ! i)"

lemma overlay_kept_refl [simp]: "overlay_kept s s"
  by (simp add: overlay_kept_def)

lemma overlay_kept_trans:
  assumes "overlay_kept s r" "overlay_kept r q"
  shows "overlay_kept s q"
proof -
  note a = assms(1) [unfolded overlay_kept_def] and b = assms(2) [unfolded overlay_kept_def]
  have "lit_bufsize r = lit_bufsize s" using a by blast
  then have e: "d_start r = d_start s" "l_start r = l_start s" unfolding d_start_def l_start_def by (rule arg_cong)+
  show ?thesis
    unfolding overlay_kept_def
  proof (intro conjI allI impI)
    fix i assume i: "length (pending q) \<le> d_start s + 2 * i"
    then have "length (pending r) \<le> d_start s + 2 * i" using b by (meson le_trans)
    then show "d_buf q ! i = d_buf s ! i" using a b i unfolding e by metis
  next
    fix i assume i: "length (pending q) \<le> l_start s + i"
    then have "length (pending r) \<le> l_start s + i" using b by (meson le_trans)
    then show "l_buf q ! i = l_buf s ! i" using a b i unfolding e by metis
  qed (use a b in \<open>metis le_trans\<close>)+
qed

lemma overlay_kept_fields:
  "overlay_kept s (r\<lparr>bi_buf := b\<rparr>) = overlay_kept s r" "overlay_kept s (r\<lparr>bi_valid := v\<rparr>) = overlay_kept s r"
  by (simp_all add: overlay_kept_def)

lemma overlay_kept_byte: "overlay_kept s (put_byte s c)"
proof -
  let ?p = "length (pending s)" and ?r = "put_byte s c"
  have d: "d_buf ?r = (if d_start s \<le> ?p then (d_buf s)[(?p - d_start s) div 2 :=
      set_half (d_buf s ! ((?p - d_start s) div 2)) (odd (?p - d_start s)) c] else d_buf s)"
    unfolding put_byte_def Let_def
    by (cases "d_start s \<le> ?p"; cases "l_start s \<le> ?p"; simp only: if_True if_False bit_sink.select_convs bit_sink.update_convs) simp_all
  have l: "l_buf ?r = (if l_start s \<le> ?p then (l_buf s)[?p - l_start s := c] else l_buf s)"
    unfolding put_byte_def Let_def
    by (cases "d_start s \<le> ?p"; cases "l_start s \<le> ?p"; simp only: if_True if_False) simp_all
  have "(p - k) div 2 \<noteq> i" if "Suc p \<le> k + 2 * i" "k \<le> p" for p k i :: nat using that by linarith
  then have "d_buf ?r ! i = d_buf s ! i" if "length (pending ?r) \<le> d_start s + 2 * i" for i
    using that by (simp add: d)
  moreover have "l_buf ?r ! i = l_buf s ! i" if "length (pending ?r) \<le> l_start s + i" for i
    using that by (simp add: l)
  moreover have "length (d_buf ?r) = length (d_buf s)" "length (l_buf ?r) = length (l_buf s)" by (simp_all add: d l)
  ultimately show ?thesis by (simp add: overlay_kept_def)
qed

lemma overlay_kept_short: "overlay_kept s (put_short s w)"
  unfolding put_short_def by (rule overlay_kept_trans [OF overlay_kept_byte overlay_kept_byte])

lemma overlay_kept_put: "overlay_kept s (put_byte (s\<lparr>bi_buf := b\<rparr>) c)" "overlay_kept s (put_short (s\<lparr>bi_buf := b\<rparr>) w)"
proof -
  have "overlay_kept s (s\<lparr>bi_buf := b\<rparr>)" by (simp only: overlay_kept_fields overlay_kept_refl)
  then show "overlay_kept s (put_byte (s\<lparr>bi_buf := b\<rparr>) c)" "overlay_kept s (put_short (s\<lparr>bi_buf := b\<rparr>) w)"
    using overlay_kept_trans overlay_kept_byte overlay_kept_short by blast+
qed

lemmas overlay_kept_steps = overlay_kept_fields overlay_kept_put overlay_kept_byte overlay_kept_short overlay_kept_refl

lemma overlay_kept_send [simp]: "overlay_kept s (send_bits s v l)"
  by (simp only: send_bits_def Let_def overlay_kept_steps if_split simp_thms)

lemma overlay_kept_flush [simp]: "overlay_kept s (bi_flush s)" "overlay_kept s (bi_windup s)"
  by (simp_all only: bi_flush_def bi_windup_def Let_def overlay_kept_steps if_split simp_thms)

section \<open>Reversal of a code\<close>

lemma reverse_loop_step:
  assumes "\<not> bit res 0"
  shows "\<not> bit (push_bit 1 (res OR (code AND 1)) :: u32) 0"
    and "bit (push_bit 1 (res OR (code AND 1)) :: u32) (Suc i) \<longleftrightarrow> Suc i < 32 \<and> (bit res i \<or> i = 0 \<and> bit code 0)"
  unfolding bit_push_bit_iff by (auto simp: bit_or_iff bit_and_iff bit_1_iff)

lemma reverse_loop_bit:
  "0 < len \<Longrightarrow> \<not> bit res 0 \<Longrightarrow> bit (reverse_loop code len res) i \<longleftrightarrow>
    i < 32 \<and> (0 < i \<and> i \<le> len \<and> bit code (len - i) \<or> len < i \<and> bit res (i - len))"
proof (induction code len res rule: reverse_loop.induct)
  case (1 code len res)
  note step = reverse_loop_step [OF 1(3), of code]
  show ?case
  proof (cases "len - 1 > 0")
    case True
    have d: "bit (drop_bit 1 code) n \<longleftrightarrow> bit code (Suc n)" for n by (simp add: bit_drop_bit_eq)
    have r: "bit (reverse_loop code len res) i \<longleftrightarrow> i < 32 \<and> (0 < i \<and> i \<le> len - 1 \<and> bit code (Suc (len - 1 - i))
        \<or> len - 1 < i \<and> bit (push_bit 1 (res OR (code AND 1))) (i - (len - 1)))"
      unfolding reverse_loop.simps [of code len] Let_def using 1(1) [OF refl refl True True step(1)] True
      by (simp only: d if_True)
    show ?thesis
    proof (cases "i \<le> len - 1")
      case True
      then have "Suc (len - 1 - i) = len - i" "i \<le> len" "\<not> len - 1 < i" "\<not> len < i"
        using 1(2) by linarith+
      with True show ?thesis unfolding r by (simp only: simp_thms)
    next
      case False
      then have i: "i - (len - 1) = Suc (i - len)" "len - 1 < i" "0 < i" "len < i \<or> len = i" "i \<le> len \<longleftrightarrow> len = i"
        using 1(2) by linarith+
      with False show ?thesis
        unfolding r i(1) step(2) using 1(2,3) by (cases "len = i") auto
    qed
  next
    case False
    then have "len = 1" using 1(2) by simp
    then show ?thesis
      using step(1) step(2) [of "i - 1"] 1(3) unfolding reverse_loop.simps [of code len] Let_def
      by (cases i) auto
  qed
qed

lemma bi_reverse_bit: "0 < len \<Longrightarrow> len \<le> 16 \<Longrightarrow> bit (bi_reverse code len) i \<longleftrightarrow> i < len \<and> bit code (len - 1 - i)"
  by (auto simp: bi_reverse_def bit_drop_bit_eq reverse_loop_bit)

lemma bi_reverse_ok:
  assumes "0 < len" "len \<le> 16"
  shows "unat (bi_reverse code len) < 2 ^ len" "bits_of (bi_reverse code len) len = rev (bits_of code len)"
proof -
  have "take_bit len (bi_reverse code len) = bi_reverse code len"
    by (rule bit_word_eqI) (auto simp: bit_take_bit_iff bi_reverse_bit assms)
  then show "unat (bi_reverse code len) < 2 ^ len" by (rule unat_less_exp)
  show "bits_of (bi_reverse code len) len = rev (bits_of code len)"
    by (rule nth_equalityI) (use assms in \<open>auto simp: bits_of_def rev_nth bi_reverse_bit\<close>)
qed

section \<open>Properties\<close>

text \<open>
  C9: the bit buffer loses nothing and adds nothing. After any sequence of values sent with lengths
  up to 16, the bytes written and the bits still in the buffer are the bits sent before, followed by
  the low bits of each value, the least significant first. Flushing changes only where the bits are
  and leaves fewer than 8 in the buffer; winding up adds fewer than 8 zero bits and ends at a byte.
\<close>
theorem bit_buffer_correct:
  assumes "sink_ok s" "\<forall>(v, l) \<in> set vs. l \<le> 16 \<and> unat v < 2 ^ l"
  shows "let r = foldl (\<lambda>s (v, l). send_bits s v (int l)) s vs in
    sink_ok r \<and> sent r = sent s @ concat (map (\<lambda>(v, l). bits_of v l) vs) \<and>
    sink_ok (bi_flush r) \<and> sent (bi_flush r) = sent r \<and> bi_valid (bi_flush r) < 8 \<and>
    sink_ok (bi_windup r) \<and> (\<exists>k < 8. sent (bi_windup r) = sent r @ replicate k False) \<and>
    sent (bi_windup r) = byte_stream (pending (bi_windup r))"
proof -
  have "tr.fits vs" using assms(2) by (simp add: tr.fits_def)
  then have p: "sink_ok (tr.put_all s vs)" "sent (tr.put_all s vs) = sent s @ concat (map (\<lambda>(v, l). bits_of v l) vs)"
    using tr.put_all_ok [OF assms(1)] by blast+
  show ?thesis
    unfolding Let_def tr.put_all_def [symmetric]
    using p bi_flush_ok [OF p(1)] bi_windup_ok [OF p(1)] by (intro conjI)
qed

definition empty_sink :: bit_sink where "empty_sink = \<lparr>pending = [], lit_bufsize = 0, d_buf = [], l_buf = [], bi_buf = 0, bi_valid = 0\<rparr>"

lemma bit_buffer_correct_witness:
  "sent (foldl (\<lambda>s (v, l). send_bits s v (int l)) empty_sink [(5, 3), (300, 10), (60000, 16)]) =
     bits_of (5 :: u32) 3 @ bits_of (300 :: u32) 10 @ bits_of (60000 :: u32) 16"
proof -
  have "sink_ok empty_sink" "sent empty_sink = []" by (simp_all add: sink_ok_def sent_def empty_sink_def bits_of_def)
  then show ?thesis
    using bit_buffer_correct [of empty_sink "[(5, 3), (300, 10), (60000, 16)]"] by (simp add: Let_def)
qed

text \<open>C10: \<open>bi_reverse\<close> reverses the low bits of a code and returns nothing above them.\<close>
theorem bi_reverse_correct:
  assumes "0 < len" "len \<le> 16"
  shows "bits_of (bi_reverse code len) len = rev (bits_of code len) \<and> unat (bi_reverse code len) < 2 ^ len"
  using bi_reverse_ok [OF assms] by simp

lemma bi_reverse_correct_witness: "bits_of (bi_reverse 6 4) 4 = rev (bits_of (6 :: u32) 4)"
  using bi_reverse_correct [of 4 6] by simp

end
