(* ===== verification/Canonical.thy ===== *)
theory Canonical
  imports Prelude "HOL-Library.Sublist"
begin

text \<open>
  Prefix codes as the DEFLATE format uses them (RFC 1951, 3.2.2), stated without reference to the
  program: the canonical code of a list of code lengths, the condition under which it is free of
  prefixes, and decoding with any prefix code.
\<close>

section \<open>Decoding with a prefix code\<close>

locale prefix_code =
  fixes codeword :: "nat \<Rightarrow> bool list option"
    and syms :: nat
  assumes prefix_free: "codeword m = Some c \<Longrightarrow> codeword n = Some d \<Longrightarrow> prefix c d \<Longrightarrow> m = n"
    and in_range: "codeword m = Some c \<Longrightarrow> m < syms"
begin

lemma candidates:
  assumes "codeword n = Some c" "prefix c bs"
  shows "filter (\<lambda>m. case codeword m of None \<Rightarrow> False | Some d \<Rightarrow> prefix d bs) [0..<syms] = [n]"
proof -
  have eq: "(case codeword m of None \<Rightarrow> False | Some d \<Rightarrow> prefix d bs) \<longleftrightarrow> m = n" for m
  proof (cases "codeword m")
    case None
    then show ?thesis using assms(1) by auto
  next
    case (Some d)
    have "m = n" if "prefix d bs"
      using prefix_same_cases [OF that assms(2)] prefix_free [OF Some assms(1)] prefix_free [OF assms(1) Some] by blast
    then show ?thesis using Some assms by auto
  qed
  have "n < syms" using in_range assms(1) .
  moreover have "filter (\<lambda>m. m = n) [0..<k] = (if n < k then [n] else [])" for k
    by (induction k) auto
  ultimately show ?thesis unfolding eq by simp
qed

end

section \<open>The canonical code of a list of lengths\<close>

definition count_len :: "nat list \<Rightarrow> nat \<Rightarrow> nat" where
  "count_len lens l = length (filter (\<lambda>k. k = l) lens)"

text \<open>The smallest code of each length; length 0 marks a symbol that does not occur.\<close>

fun first_code :: "nat list \<Rightarrow> nat \<Rightarrow> nat" where
  "first_code lens 0 = 0"
| "first_code lens (Suc l) = 2 * (first_code lens l + (if l = 0 then 0 else count_len lens l))"

definition canonical :: "nat list \<Rightarrow> nat \<Rightarrow> nat" where
  "canonical lens n = first_code lens (lens ! n) + count_len (take n lens) (lens ! n)"

text \<open>The bits of a code, the most significant one first.\<close>

definition msb_first :: "nat \<Rightarrow> nat \<Rightarrow> bool list" where
  "msb_first c l = map (\<lambda>i. bit c (l - 1 - i)) [0..<l]"

definition MAX_LEN :: nat where "MAX_LEN = 15"

definition weight :: "nat \<Rightarrow> nat" where
  "weight l = (if l = 0 then 0 else 2 ^ (MAX_LEN - l))"

definition kraft :: "nat list \<Rightarrow> bool" where
  "kraft lens \<longleftrightarrow> (\<forall>l \<in> set lens. l \<le> MAX_LEN) \<and> sum_list (map weight lens) \<le> 2 ^ MAX_LEN"

definition canonical_word :: "nat list \<Rightarrow> nat \<Rightarrow> bool list option" where
  "canonical_word lens n =
     (if kraft lens \<and> n < length lens \<and> lens ! n \<noteq> 0
      then Some (msb_first (canonical lens n) (lens ! n)) else None)"

section \<open>The canonical code is free of prefixes\<close>

lemma count_len_simps [simp]:
  "count_len [] l = 0" "count_len (k # lens) l = (if k = l then 1 else 0) + count_len lens l"
  "count_len (lens @ lens') l = count_len lens l + count_len lens' l"
  by (simp_all add: count_len_def)

lemma count_len_take_less:
  assumes "n < length lens"
  shows "count_len (take n lens) (lens ! n) < count_len lens (lens ! n)"
proof -
  have "lens = take n lens @ lens ! n # drop (Suc n) lens" using assms by (rule id_take_nth_drop)
  then have "count_len lens (lens ! n) = count_len (take n lens) (lens ! n) + (1 + count_len (drop (Suc n) lens) (lens ! n))"
    by (metis count_len_simps(2,3))
  then show ?thesis by simp
qed

lemma count_len_take_mono:
  assumes "m < n" "n < length lens" "lens ! m = lens ! n"
  shows "count_len (take m lens) (lens ! n) < count_len (take n lens) (lens ! n)"
  using count_len_take_less [of m "take n lens"] assms by (simp add: min_absorb1)

lemma weight_sum:
  assumes "\<forall>l \<in> set lens. l \<le> b"
  shows "sum_list (map weight lens) = (\<Sum>l \<le> b. count_len lens l * weight l)"
  using assms
proof (induction lens)
  case Nil
  then show ?case by simp
next
  case (Cons k lens)
  have "(\<Sum>l \<le> b. count_len (k # lens) l * weight l)
      = (\<Sum>l \<le> b. (if k = l then weight l else 0)) + (\<Sum>l \<le> b. count_len lens l * weight l)"
    unfolding sum.distrib [symmetric] by (rule sum.cong) auto
  then show ?case using Cons by simp
qed

lemma first_code_weight:
  "b \<le> MAX_LEN \<Longrightarrow> first_code lens b * 2 ^ (MAX_LEN - b) = (\<Sum>l < b. count_len lens l * weight l)"
proof (induction b)
  case 0
  then show ?case by simp
next
  case (Suc b)
  let ?c = "if b = 0 then 0 else count_len lens b"
  have e: "MAX_LEN - b = Suc (MAX_LEN - Suc b)" using Suc.prems by simp
  have "first_code lens (Suc b) * 2 ^ (MAX_LEN - Suc b) = (first_code lens b + ?c) * 2 ^ (MAX_LEN - b)"
    unfolding e by simp
  also have "\<dots> = first_code lens b * 2 ^ (MAX_LEN - b) + count_len lens b * weight b"
    by (simp add: weight_def add_mult_distrib)
  finally show ?case using Suc by simp
qed

text \<open>Seen as an interval of the numbers below 2 ^ MAX_LEN, every code starts where the ones before it end.\<close>

lemma canonical_end:
  assumes k: "kraft lens" and n: "n < length lens" "lens ! n \<noteq> 0" and b: "lens ! n < b" "b \<le> MAX_LEN"
  shows "(canonical lens n + 1) * weight (lens ! n) \<le> (\<Sum>l < b. count_len lens l * weight l)"
proof -
  let ?l = "lens ! n"
  have l: "?l \<le> MAX_LEN" using b by simp
  have "(canonical lens n + 1) * weight ?l
      \<le> first_code lens ?l * weight ?l + count_len lens ?l * weight ?l"
    using count_len_take_less [OF n(1)] unfolding canonical_def add_mult_distrib [symmetric]
    by (intro mult_right_mono) simp_all
  also have "\<dots> = (\<Sum>l < ?l. count_len lens l * weight l) + count_len lens ?l * weight ?l"
    using first_code_weight [OF l] n(2) by (simp add: weight_def)
  also have "\<dots> = (\<Sum>l < Suc ?l. count_len lens l * weight l)" by simp
  also have "\<dots> \<le> (\<Sum>l < b. count_len lens l * weight l)"
    using b by (intro sum_mono2) auto
  finally show ?thesis .
qed

lemma canonical_less:
  assumes k: "kraft lens" and n: "n < length lens" "lens ! n \<noteq> 0"
  shows "canonical lens n < 2 ^ (lens ! n)"
proof -
  let ?l = "lens ! n"
  have l: "?l \<le> MAX_LEN" using k n(1) by (simp add: kraft_def)
  have "first_code lens ?l * 2 ^ (MAX_LEN - ?l) + count_len lens ?l * 2 ^ (MAX_LEN - ?l)
      = (\<Sum>l < Suc ?l. count_len lens l * weight l)"
    using first_code_weight [OF l] n(2) by (simp add: weight_def)
  also have "\<dots> \<le> (\<Sum>l \<le> MAX_LEN. count_len lens l * weight l)"
    using l by (intro sum_mono2) auto
  also have "\<dots> \<le> 2 ^ MAX_LEN" using k weight_sum [of lens MAX_LEN] by (simp add: kraft_def)
  also have "(2::nat) ^ MAX_LEN = 2 ^ ?l * 2 ^ (MAX_LEN - ?l)"
    using l by (simp flip: power_add)
  finally have "(first_code lens ?l + count_len lens ?l) * 2 ^ (MAX_LEN - ?l) \<le> 2 ^ ?l * 2 ^ (MAX_LEN - ?l)"
    by (simp add: add_mult_distrib)
  then have "first_code lens ?l + count_len lens ?l \<le> 2 ^ ?l" by simp
  then show ?thesis using count_len_take_less [OF n(1)] by (simp add: canonical_def)
qed

lemma length_msb_first [simp]: "length (msb_first c l) = l"
  by (simp add: msb_first_def)

lemma msb_first_prefix:
  assumes p: "prefix (msb_first c l) (msb_first d k)" and c: "c < 2 ^ l" and d: "d < 2 ^ k"
  shows "l \<le> k" "c = d div 2 ^ (k - l)"
proof -
  show l: "l \<le> k" using prefix_length_le [OF p] by simp
  have "msb_first c l ! i = msb_first d k ! i" if "i < l" for i
    using p that unfolding prefix_def by (auto simp: nth_append)
  then have e: "bit c (l - 1 - i) = bit d (k - 1 - i)" if "i < l" for i
    using that l by (simp add: msb_first_def)
  show "c = d div 2 ^ (k - l)"
  proof (rule bit_eqI)
    fix i
    have "bit (d div 2 ^ (k - l)) i = bit d (k - l + i)"
      by (simp add: bit_iff_odd div_mult2_eq power_add)
    moreover have "bit c i = bit d (k - l + i)"
    proof (cases "i < l")
      case True
      then show ?thesis using e [of "l - 1 - i"] l by (simp add: add.commute)
    next
      case False
      then have "c < 2 ^ i" "d < 2 ^ (k - l + i)"
        using l by (auto intro: less_le_trans [OF c] less_le_trans [OF d] power_increasing)
      then show ?thesis by (simp add: bit_iff_odd)
    qed
    ultimately show "bit c i = bit (d div 2 ^ (k - l)) i" by simp
  qed
qed

lemma canonical_prefix_free:
  assumes k: "kraft lens" and m: "m < length lens" "lens ! m \<noteq> 0" and n: "n < length lens" "lens ! n \<noteq> 0"
    and p: "prefix (msb_first (canonical lens m) (lens ! m)) (msb_first (canonical lens n) (lens ! n))"
  shows "m = n"
proof -
  note q = msb_first_prefix [OF p canonical_less [OF k m] canonical_less [OF k n]]
  let ?b = "lens ! n"
  have b: "?b \<le> MAX_LEN" using k n(1) by (simp add: kraft_def)
  have "lens ! m = ?b"
  proof (rule ccontr)
    assume "lens ! m \<noteq> ?b"
    then have l: "lens ! m < ?b" using q(1) by simp
    have "(canonical lens m + 1) * weight (lens ! m) \<le> first_code lens ?b * 2 ^ (MAX_LEN - ?b)"
      unfolding first_code_weight [OF b] by (rule canonical_end [OF k m l b])
    also have "\<dots> \<le> canonical lens n * 2 ^ (MAX_LEN - ?b)" by (simp add: canonical_def)
    also have "weight (lens ! m) = 2 ^ (?b - lens ! m) * 2 ^ (MAX_LEN - ?b)"
      using m(2) l b by (simp add: weight_def flip: power_add)
    finally have "(canonical lens m + 1) * 2 ^ (?b - lens ! m) * 2 ^ (MAX_LEN - ?b) \<le> canonical lens n * 2 ^ (MAX_LEN - ?b)"
      by (simp only: mult.assoc)
    then have "(canonical lens m + 1) * 2 ^ (?b - lens ! m) \<le> canonical lens n"
      by (simp only: mult_le_cancel2) simp
    then have "canonical lens m + 1 \<le> canonical lens n div 2 ^ (?b - lens ! m)"
      by (simp add: less_eq_div_iff_mult_less_eq)
    then show False using q(2) by simp
  qed
  then have "canonical lens m = canonical lens n" using q(2) by simp
  then have "count_len (take m lens) ?b = count_len (take n lens) ?b"
    using \<open>lens ! m = ?b\<close> by (simp add: canonical_def)
  then show ?thesis
    using count_len_take_mono [of m n lens] count_len_take_mono [of n m lens] m n \<open>lens ! m = ?b\<close>
    by (metis less_irrefl linorder_neqE_nat)
qed

interpretation huff: prefix_code "canonical_word lens" "length lens" for lens
  by unfold_locales (auto simp: canonical_word_def intro: canonical_prefix_free split: if_splits)

section \<open>The decoder of a receiver that knows the lengths\<close>

definition decode_sym :: "nat list \<Rightarrow> bool list \<Rightarrow> (nat \<times> bool list) option" where
  "decode_sym lens bs =
     (case filter (\<lambda>m. case canonical_word lens m of None \<Rightarrow> False | Some d \<Rightarrow> prefix d bs) [0..<length lens] of
        [] \<Rightarrow> None
      | n # _ \<Rightarrow> Some (n, drop (lens ! n) bs))"

lemma canonical_word_length: "canonical_word lens n = Some c \<Longrightarrow> length c = lens ! n"
  by (auto simp: canonical_word_def split: if_splits)

lemma decode_sym_word:
  assumes "canonical_word lens n = Some c"
  shows "decode_sym lens (c @ bs) = Some (n, bs)"
  using huff.candidates [OF assms, of "c @ bs"] canonical_word_length [OF assms]
  by (simp add: decode_sym_def)

lemma decode_sym_shorter:
  assumes "decode_sym lens bs = Some (n, cs)"
  shows "length cs < length bs"
proof -
  let ?P = "\<lambda>m. case canonical_word lens m of None \<Rightarrow> False | Some d \<Rightarrow> prefix d bs"
  obtain ns where ns: "filter ?P [0..<length lens] = n # ns" and cs: "cs = drop (lens ! n) bs"
    using assms by (auto simp: decode_sym_def split: list.splits)
  have "n \<in> set (filter ?P [0..<length lens])" unfolding ns by simp
  then have "?P n" by (simp only: set_filter mem_Collect_eq)
  then obtain d where d: "canonical_word lens n = Some d" "prefix d bs" by (auto split: option.splits)
  then have "0 < lens ! n" "lens ! n \<le> length bs"
    using canonical_word_length [OF d(1)] prefix_length_le [OF d(2)]
    by (auto simp: canonical_word_def split: if_splits)
  then show ?thesis by (simp add: cs)
qed

end
