(* ===== verification/Tr_Codes.thy ===== *)
theory Tr_Codes
  imports Tr_Bits Canonical
begin

text \<open>
  Codes from code lengths: \<open>gen_codes\<close> of \<open>zlib_archive/trees.c\<close>. It assigns the canonical code
  of RFC 1951 with its bits reversed, so that \<open>send_bits\<close>, which sends the lowest bit first,
  sends the codes from their most significant bit on.
\<close>

section \<open>The code\<close>

definition MAX_BITS :: nat where "MAX_BITS = 15"

text \<open>The two unions of \<open>struct ct_data_s\<close> are two fields: \<open>Freq\<close> and \<open>Code\<close> are the first, \<open>Dad\<close>
  and \<open>Len\<close> the second.\<close>

record ct_data =
  fc :: u16
  dl :: u16

abbreviation Freq :: "ct_data \<Rightarrow> u16" where "Freq \<equiv> fc"
abbreviation Code :: "ct_data \<Rightarrow> u16" where "Code \<equiv> fc"
abbreviation Dad :: "ct_data \<Rightarrow> u16" where "Dad \<equiv> dl"
abbreviation Len :: "ct_data \<Rightarrow> u16" where "Len \<equiv> dl"

definition next_code_step :: "u16 list \<Rightarrow> u32 \<times> u16 list \<Rightarrow> nat \<Rightarrow> u32 \<times> u16 list" where
  "next_code_step bl_count st bits =
     (let (code, next_code) = st; code = push_bit 1 (code + ucast (bl_count ! (bits - 1)))
      in (code, next_code[bits := ucast code]))"

definition next_codes :: "u16 list \<Rightarrow> u16 list" where
  "next_codes bl_count =
     snd (foldl (next_code_step bl_count) (0, replicate (MAX_BITS + 1) 0) [1..<MAX_BITS + 1])"

definition assign_code :: "ct_data list \<times> u16 list \<Rightarrow> nat \<Rightarrow> ct_data list \<times> u16 list" where
  "assign_code st n =
     (let (tree, next_code) = st; len = unat (Len (tree ! n)) in
      if len = 0 then (tree, next_code)
      else (tree[n := (tree ! n)\<lparr>fc := ucast (bi_reverse (ucast (next_code ! len)) len)\<rparr>],
            next_code[len := next_code ! len + 1]))"

definition gen_codes :: "ct_data list \<Rightarrow> int \<Rightarrow> u16 list \<Rightarrow> ct_data list" where
  "gen_codes tree max_code bl_count =
     fst (foldl assign_code (tree, next_codes bl_count) [0..<nat (max_code + 1)])"

section \<open>What is required of the lengths\<close>

definition lens_of :: "ct_data list \<Rightarrow> int \<Rightarrow> nat list" where
  "lens_of tree max_code = map (\<lambda>d. unat (Len d)) (take (nat (max_code + 1)) tree)"

definition counts_lens :: "u16 list \<Rightarrow> nat list \<Rightarrow> bool" where
  "counts_lens bl_count lens \<longleftrightarrow> length bl_count = MAX_BITS + 1 \<and> bl_count ! 0 = 0 \<and>
     (\<forall>b. 0 < b \<and> b \<le> MAX_BITS \<longrightarrow> unat (bl_count ! b) = count_len lens b)"

text \<open>A code of the tree, as \<open>send_code\<close> sends it.\<close>

definition tree_word :: "ct_data list \<Rightarrow> nat \<Rightarrow> bool list" where
  "tree_word tree n = bits_of (Code (tree ! n)) (unat (Len (tree ! n)))"

text \<open>A tree is coded when its codes are the canonical code of its lengths.\<close>

definition coded :: "ct_data list \<Rightarrow> nat list \<Rightarrow> bool" where
  "coded tree lens \<longleftrightarrow> kraft lens \<and> length lens \<le> length tree \<and>
     (\<forall>n < length lens. unat (Len (tree ! n)) = lens ! n \<and>
        (lens ! n \<noteq> 0 \<longrightarrow> canonical_word lens n = Some (tree_word tree n) \<and>
           unat (Code (tree ! n)) < 2 ^ (lens ! n)))"

lemma first_code_le:
  assumes "kraft lens" "b \<le> MAX_LEN"
  shows "first_code lens b \<le> 2 ^ b"
proof -
  have "first_code lens b * 2 ^ (MAX_LEN - b) \<le> (\<Sum>l \<le> MAX_LEN. count_len lens l * weight l)"
    unfolding first_code_weight [OF assms(2)] using assms(2) by (intro sum_mono2) auto
  also have "\<dots> \<le> 2 ^ MAX_LEN" using assms(1) weight_sum [of lens MAX_LEN] by (simp add: kraft_def)
  also have "(2::nat) ^ MAX_LEN = 2 ^ b * 2 ^ (MAX_LEN - b)" using assms(2) by (simp flip: power_add)
  finally show ?thesis by simp
qed

lemma next_code_step_ok:
  assumes k: "kraft lens" and c: "counts_lens bl_count lens" and m: "Suc m \<le> MAX_BITS"
    and code: "unat code = first_code lens m"
  shows "\<exists>code'. next_code_step bl_count (code, nc) (Suc m) = (code', nc[Suc m := ucast code']) \<and>
    unat code' = first_code lens (Suc m) \<and> unat (ucast code' :: u16) = first_code lens (Suc m)"
proof -
  define code' :: u32 where "code' = push_bit 1 (code + ucast (bl_count ! m))"
  have f: "first_code lens (Suc m) \<le> 2 ^ 15"
    using first_code_le [OF k, of "Suc m"] m power_increasing [of "Suc m" 15 "2 :: nat"]
    by (simp add: MAX_BITS_def MAX_LEN_def)
  have bl: "unat (bl_count ! m) = (if m = 0 then 0 else count_len lens m)"
    using c m by (cases m) (auto simp: counts_lens_def)
  have add: "unat (code + ucast (bl_count ! m)) = first_code lens m + (if m = 0 then 0 else count_len lens m)"
    using f by (subst unat_add_small) (simp_all add: code bl unsigned_ucast_eq take_bit_nat_eq_self split: if_splits)
  have c': "unat code' = first_code lens (Suc m)"
    using f unfolding code'_def by (subst unat_push_bit_small) (simp_all add: add)
  then have "unat (ucast code' :: u16) = first_code lens (Suc m)"
    using f by (simp add: unsigned_ucast_eq take_bit_nat_eq_self)
  with c' show ?thesis by (intro exI [of _ code']) (simp add: next_code_step_def code'_def Let_def)
qed

lemma next_codes_ok:
  assumes k: "kraft lens" and c: "counts_lens bl_count lens"
  shows "length (next_codes bl_count) = MAX_BITS + 1"
    "0 < b \<Longrightarrow> b \<le> MAX_BITS \<Longrightarrow> unat (next_codes bl_count ! b) = first_code lens b"
proof -
  let ?s = "(0, replicate (MAX_BITS + 1) 0)"
  have inv: "m \<le> MAX_BITS \<Longrightarrow> \<exists>code nc. foldl (next_code_step bl_count) ?s [1..<Suc m] = (code, nc) \<and>
      unat code = first_code lens m \<and> length nc = MAX_BITS + 1 \<and>
      (\<forall>b. 0 < b \<and> b \<le> m \<longrightarrow> unat (nc ! b) = first_code lens b)" for m
  proof (induction m)
    case 0
    then show ?case by simp
  next
    case (Suc m)
    then obtain code nc where s: "foldl (next_code_step bl_count) ?s [1..<Suc m] = (code, nc)"
      and IH: "unat code = first_code lens m" "length nc = MAX_BITS + 1"
        "\<forall>b. 0 < b \<and> b \<le> m \<longrightarrow> unat (nc ! b) = first_code lens b"
      by auto
    obtain code' where c': "next_code_step bl_count (code, nc) (Suc m) = (code', nc[Suc m := ucast code'])"
        "unat code' = first_code lens (Suc m)" "unat (ucast code' :: u16) = first_code lens (Suc m)"
      using next_code_step_ok [OF k c Suc.prems IH(1)] by blast
    have "[1..<Suc (Suc m)] = [1..<Suc m] @ [Suc m]" by simp
    then have "foldl (next_code_step bl_count) ?s [1..<Suc (Suc m)] = (code', nc[Suc m := ucast code'])"
      by (simp only: foldl_append s foldl.simps c'(1))
    moreover have "unat (nc[Suc m := ucast code'] ! b) = first_code lens b" if "0 < b" "b \<le> Suc m" for b
      using that IH(2,3) Suc.prems c'(3) by (cases "b = Suc m") auto
    ultimately show ?case
      using c'(2) IH(2) by (intro exI [of _ code'] exI [of _ "nc[Suc m := ucast code']"] conjI)
        (simp_all only: length_list_update simp_thms, blast)
  qed
  obtain code nc where s: "foldl (next_code_step bl_count) ?s [1..<Suc MAX_BITS] = (code, nc)"
      and IH: "length nc = MAX_BITS + 1" "\<forall>b. 0 < b \<and> b \<le> MAX_BITS \<longrightarrow> unat (nc ! b) = first_code lens b"
    using inv [of MAX_BITS] by blast
  have n: "next_codes bl_count = nc" using s by (simp only: next_codes_def Suc_eq_plus1 snd_conv)
  show "length (next_codes bl_count) = MAX_BITS + 1" using IH(1) by (simp only: n)
  show "0 < b \<Longrightarrow> b \<le> MAX_BITS \<Longrightarrow> unat (next_codes bl_count ! b) = first_code lens b"
    using IH(2) by (simp only: n simp_thms)
qed

text \<open>The loop over the symbols: \<open>next_code[l]\<close> is the code of the next symbol of length \<open>l\<close>.\<close>

definition assigned :: "ct_data list \<Rightarrow> nat list \<Rightarrow> nat \<Rightarrow> ct_data list \<times> u16 list \<Rightarrow> bool" where
  "assigned tree lens n st \<longleftrightarrow>
     length (fst st) = length tree \<and> length (snd st) = MAX_BITS + 1 \<and>
     (\<forall>i < length tree. Len (fst st ! i) = Len (tree ! i)) \<and>
     (\<forall>i. n \<le> i \<or> i < length tree \<and> Len (tree ! i) = 0 \<longrightarrow> fst st ! i = tree ! i) \<and>
     (\<forall>i < n. lens ! i \<noteq> 0 \<longrightarrow> unat (Code (fst st ! i)) < 2 ^ (lens ! i) \<and>
        bits_of (Code (fst st ! i)) (lens ! i) = msb_first (canonical lens i) (lens ! i)) \<and>
     (\<forall>b. 0 < b \<and> b \<le> MAX_BITS \<longrightarrow>
        unat (snd st ! b) = first_code lens b + count_len (take n lens) b)"

lemma msb_first_rev: "l \<le> LENGTH('a::len) \<Longrightarrow> msb_first (unat (c :: 'a word)) l = rev (bits_of c l)"
  by (rule nth_equalityI) (auto simp: msb_first_def bits_of_def rev_nth bit_unsigned_iff)

lemma reversed_code:
  fixes nc :: u16
  assumes "0 < l" "l \<le> 15" "unat nc < 2 ^ l"
  shows "unat (ucast (bi_reverse (ucast nc) l) :: u16) < 2 ^ l"
    "bits_of (ucast (bi_reverse (ucast nc) l) :: u16) l = msb_first (unat nc) l"
proof -
  let ?r = "bi_reverse (ucast nc) l"
  have l: "l \<le> 16" using assms(2) by simp
  note r = bi_reverse_ok [OF assms(1) l, of "ucast nc"]
  have "bits_of (ucast ?r :: u16) l = bits_of ?r l"
    using assms(2) by (intro bits_of_cong) (simp add: bit_simps)
  also have "\<dots> = rev (bits_of nc l)"
    unfolding r(2) using assms(2) by (intro arg_cong [where f = rev] bits_of_cong) (simp add: bit_simps)
  also have "\<dots> = msb_first (unat nc) l" using l by (simp add: msb_first_rev)
  finally show "bits_of (ucast ?r :: u16) l = msb_first (unat nc) l" .
  show "unat (ucast ?r :: u16) < 2 ^ l"
    using r(1) by (simp add: unsigned_ucast_eq) (metis le_less_trans take_bit_nat_less_eq_self)
qed

lemma assign_code_ok:
  assumes k: "kraft lens" and l: "n < length lens" "length lens \<le> length tree"
    and lens: "\<And>i. i < length lens \<Longrightarrow> unat (Len (tree ! i)) = lens ! i"
    and a: "assigned tree lens n st"
  shows "assigned tree lens (Suc n) (assign_code st n)"
proof -
  obtain t nc where st: "st = (t, nc)" by (cases st)
  have take: "take (Suc n) lens = take n lens @ [lens ! n]" using l(1) by (rule take_Suc_conv_app_nth)
  have len: "unat (Len (t ! n)) = lens ! n"
    using a lens [OF l(1)] l by (simp add: assigned_def st)
  show ?thesis
  proof (cases "lens ! n = 0")
    case True
    then have "assign_code st n = st" by (simp add: assign_code_def st len)
    moreover have "Len (tree ! n) = 0" using lens [OF l(1)] True by (simp add: unat_eq_0)
    ultimately show ?thesis using a True by (auto simp: assigned_def take less_Suc_eq)
  next
    case False
    let ?l = "lens ! n"
    have l15: "0 < ?l" "?l \<le> MAX_BITS" "?l \<le> 15"
      using False k l(1) by (auto simp: kraft_def MAX_LEN_def MAX_BITS_def)
    have c: "unat (nc ! ?l) = canonical lens n"
      using a l15 by (simp add: assigned_def st canonical_def)
    have lt: "unat (nc ! ?l) < 2 ^ ?l" unfolding c by (rule canonical_less [OF k l(1) False])
    also have "(2::nat) ^ ?l \<le> 2 ^ 15" using l15 by (intro power_increasing) auto
    finally have lt16: "unat (nc ! ?l) < 2 ^ 15" .
    let ?c = "ucast (bi_reverse (ucast (nc ! ?l)) ?l) :: u16"
    note r = reversed_code [OF l15(1,3) lt]
    have st': "assign_code st n = (t[n := (t ! n)\<lparr>fc := ?c\<rparr>], nc[?l := nc ! ?l + 1])"
      using False by (simp add: assign_code_def st len Let_def)
    have inc: "unat (nc ! ?l + 1) = unat (nc ! ?l) + 1"
      using lt16 by (subst unat_add_small) simp_all
    have L: "length t = length tree" "length nc = MAX_BITS + 1"
      "\<And>i. i < length tree \<Longrightarrow> Len (t ! i) = Len (tree ! i)"
      "\<And>i. n \<le> i \<or> i < length tree \<and> Len (tree ! i) = 0 \<Longrightarrow> t ! i = tree ! i"
      "\<And>i. i < n \<Longrightarrow> lens ! i \<noteq> 0 \<Longrightarrow> unat (Code (t ! i)) < 2 ^ (lens ! i) \<and>
        bits_of (Code (t ! i)) (lens ! i) = msb_first (canonical lens i) (lens ! i)"
      "\<And>b. 0 < b \<Longrightarrow> b \<le> MAX_BITS \<Longrightarrow> unat (nc ! b) = first_code lens b + count_len (take n lens) b"
      using a unfolding assigned_def st fst_conv snd_conv by blast+
    have ne: "i \<noteq> n" if "i < length tree" "Len (tree ! i) = 0" for i
      using that False lens [OF l(1)] by auto
    have n: "n < length tree" using l by simp
    show ?thesis
      unfolding assigned_def st' fst_conv snd_conv
    proof (intro conjI allI impI)
      fix i
      assume "Suc n \<le> i \<or> i < length tree \<and> Len (tree ! i) = 0"
      then show "t[n := (t ! n)\<lparr>fc := ?c\<rparr>] ! i = tree ! i" using L(4) [of i] ne [of i] by auto
    next
      fix b
      assume "0 < b \<and> b \<le> MAX_BITS"
      then show "unat (nc[?l := nc ! ?l + 1] ! b) = first_code lens b + count_len (take (Suc n) lens) b"
        using L(2) L(6) [of b] inc by (cases "b = ?l") (simp_all add: take)
    next
      fix i
      assume i: "i < Suc n" "lens ! i \<noteq> 0"
      show "unat (Code (t[n := (t ! n)\<lparr>fc := ?c\<rparr>] ! i)) < 2 ^ (lens ! i)"
        using L(1) L(5) [of i] i r(1) n by (cases "i = n") simp_all
      show "bits_of (Code (t[n := (t ! n)\<lparr>fc := ?c\<rparr>] ! i)) (lens ! i) = msb_first (canonical lens i) (lens ! i)"
        using L(1) L(5) [of i] i r(2) n c by (cases "i = n") simp_all
    next
      fix i
      assume "i < length tree"
      then show "Len (t[n := (t ! n)\<lparr>fc := ?c\<rparr>] ! i) = Len (tree ! i)"
        using L(1) L(3) by (cases "i = n") simp_all
    qed (use L(1,2) in simp_all)
  qed
qed

lemma gen_codes_ok:
  assumes m: "0 \<le> max_code + 1" "nat (max_code + 1) \<le> length tree"
    and k: "kraft (lens_of tree max_code)" and c: "counts_lens bl_count (lens_of tree max_code)"
  shows "coded (gen_codes tree max_code bl_count) (lens_of tree max_code)"
    "length (gen_codes tree max_code bl_count) = length tree"
    "\<And>i. i < length tree \<Longrightarrow> Len (gen_codes tree max_code bl_count ! i) = Len (tree ! i)"
    "\<And>i. nat (max_code + 1) \<le> i \<or> i < length tree \<and> Len (tree ! i) = 0 \<Longrightarrow>
      gen_codes tree max_code bl_count ! i = tree ! i"
proof -
  let ?lens = "lens_of tree max_code" and ?s = "(tree, next_codes bl_count)"
  have len: "length ?lens = nat (max_code + 1)" using m by (simp add: lens_of_def)
  have lens: "unat (Len (tree ! i)) = ?lens ! i" if "i < length ?lens" for i
    using that by (simp add: lens_of_def)
  have inv: "n \<le> length ?lens \<Longrightarrow> assigned tree ?lens n (foldl assign_code ?s [0..<n])" for n
  proof (induction n)
    case 0
    show ?case using next_codes_ok [OF k c] by (simp add: assigned_def)
  next
    case (Suc n)
    then show ?case
      using assign_code_ok [OF k _ _ lens, of n "foldl assign_code ?s [0..<n]"] m(2) len by simp
  qed
  have a: "assigned tree ?lens (length ?lens) (foldl assign_code ?s [0..<length ?lens])" by (rule inv) simp
  have g: "fst (foldl assign_code ?s [0..<length ?lens]) = gen_codes tree max_code bl_count"
    by (simp add: gen_codes_def len)
  note A = a [unfolded assigned_def g]
  show L: "length (gen_codes tree max_code bl_count) = length tree" using A by blast
  show 1: "Len (gen_codes tree max_code bl_count ! i) = Len (tree ! i)" if "i < length tree" for i
    using A that by blast
  show "gen_codes tree max_code bl_count ! i = tree ! i"
    if "nat (max_code + 1) \<le> i \<or> i < length tree \<and> Len (tree ! i) = 0" for i
    using A that unfolding len by blast
  have "canonical_word ?lens n = Some (tree_word (gen_codes tree max_code bl_count) n) \<and>
      unat (Code (gen_codes tree max_code bl_count ! n)) < 2 ^ (?lens ! n)"
    if n: "n < length ?lens" "?lens ! n \<noteq> 0" for n
  proof -
    have "unat (Len (gen_codes tree max_code bl_count ! n)) = ?lens ! n"
      using 1 [of n] lens [OF n(1)] n(1) m(2) len by simp
    then show ?thesis using A n k by (simp add: canonical_word_def tree_word_def)
  qed
  then show "coded (gen_codes tree max_code bl_count) ?lens"
    using k 1 lens m(2) len L unfolding coded_def by auto
qed

section \<open>Properties\<close>

text \<open>
  C6: from code lengths that satisfy the Kraft inequality and their counts, \<open>gen_codes\<close> makes the
  canonical code of RFC 1951: every symbol of non-zero length gets a code of that length, as it is
  sent from its lowest stored bit on, the lengths and the symbols above \<open>max_code\<close> are left alone, and
  no code is a prefix of another. No intermediate value overflows its 16 bits.
\<close>
theorem gen_codes_correct:
  assumes "0 \<le> max_code + 1" "nat (max_code + 1) \<le> length tree"
    and "kraft (lens_of tree max_code)" "counts_lens bl_count (lens_of tree max_code)"
  shows "let t = gen_codes tree max_code bl_count; lens = lens_of tree max_code in
    length t = length tree \<and> (\<forall>i < length tree. Len (t ! i) = Len (tree ! i)) \<and>
    (\<forall>n < length lens. lens ! n \<noteq> 0 \<longrightarrow> tree_word t n = msb_first (canonical lens n) (lens ! n)) \<and>
    (\<forall>m < length lens. \<forall>n < length lens. lens ! m \<noteq> 0 \<and> lens ! n \<noteq> 0 \<and> prefix (tree_word t m) (tree_word t n) \<longrightarrow> m = n)"
proof -
  note g = gen_codes_ok [OF assms]
  then have c: "canonical_word (lens_of tree max_code) n = Some (tree_word (gen_codes tree max_code bl_count) n)"
    if "n < length (lens_of tree max_code)" "lens_of tree max_code ! n \<noteq> 0" for n
    using that by (simp add: coded_def)
  have w: "tree_word (gen_codes tree max_code bl_count) n = msb_first (canonical (lens_of tree max_code) n) (lens_of tree max_code ! n)"
    if "n < length (lens_of tree max_code)" "lens_of tree max_code ! n \<noteq> 0" for n
    using c [OF that] that assms(3) by (simp add: canonical_word_def)
  have "m = n" if "m < length (lens_of tree max_code)" "n < length (lens_of tree max_code)" "lens_of tree max_code ! m \<noteq> 0"
      "lens_of tree max_code ! n \<noteq> 0" "prefix (tree_word (gen_codes tree max_code bl_count) m) (tree_word (gen_codes tree max_code bl_count) n)" for m n
    using huff.prefix_free [OF c c] that by blast
  then show ?thesis using g(2,3) w unfolding Let_def by blast
qed

lemma gen_codes_correct_witness:
  "let tree = [\<lparr>fc = 0, dl = 1\<rparr>, \<lparr>fc = 0, dl = 3\<rparr>, \<lparr>fc = 0, dl = 3\<rparr>, \<lparr>fc = 0, dl = 2\<rparr>]; t = gen_codes tree 3 ((replicate 16 0)[1 := 1, 2 := 1, 3 := 2])
   in tree_word t 0 = [False] \<and> tree_word t 2 = [True, True, True]"
proof -
  let ?tree = "[\<lparr>fc = 0, dl = 1\<rparr>, \<lparr>fc = 0, dl = 3\<rparr>, \<lparr>fc = 0, dl = 3\<rparr>, \<lparr>fc = 0, dl = 2\<rparr>]" and ?bc = "(replicate 16 0)[1 := 1, 2 := 1, 3 := 2] :: u16 list"
  have l: "lens_of ?tree 3 = [1, 3, 3, 2]" by (simp add: lens_of_def)
  have k: "kraft (lens_of ?tree 3)" unfolding l by (simp add: kraft_def weight_def MAX_LEN_def)
  have "unat (?bc ! b) = count_len [1, 3, 3, 2] b" if "0 < b" "b \<le> MAX_BITS" for b
  proof -
    have "b = 1 \<or> b = 2 \<or> b = 3 \<or> 3 < b" using that by linarith
    then show ?thesis using that by (auto simp: MAX_BITS_def)
  qed
  then have c: "counts_lens ?bc (lens_of ?tree 3)"
    unfolding l by (simp add: counts_lens_def MAX_BITS_def)
  have "msb_first (canonical [1, 3, 3, 2] 0) 1 = [False]" "msb_first (canonical [1, 3, 3, 2] 2) 3 = [True, True, True]"
    by (simp_all add: msb_first_def canonical_def numeral_eq_Suc) (simp_all add: bit_iff_odd)
  then show ?thesis
    using gen_codes_correct [OF _ _ k c] unfolding l by (simp add: Let_def)
qed

end
