(* ===== verification/Tr_Tables.thy ===== *)
theory Tr_Tables
  imports Tr_Codes
begin

text \<open>
  The constant tables of \<open>zlib_archive/trees.c\<close> and \<open>trees.h\<close>: extra bits, base values, the maps from
  lengths and distances to their codes, and the static trees; and \<open>tr_static_init\<close>, which
  computes what \<open>trees.h\<close> contains. They are compared with the tables of RFC 1951, 3.2.5 and 3.2.6.
\<close>

section \<open>Constants\<close>

definition LENGTH_CODES :: nat where "LENGTH_CODES = 29"
definition LITERALS :: nat where "LITERALS = 256"
definition L_CODES :: nat where "L_CODES = LITERALS + 1 + LENGTH_CODES"
definition D_CODES :: nat where "D_CODES = 30"
definition BL_CODES :: nat where "BL_CODES = 19"
definition DIST_CODE_LEN :: nat where "DIST_CODE_LEN = 512"
definition END_BLOCK :: nat where "END_BLOCK = 256"
definition REP_3_6 :: nat where "REP_3_6 = 16"
definition REPZ_3_10 :: nat where "REPZ_3_10 = 17"
definition REPZ_11_138 :: nat where "REPZ_11_138 = 18"

definition extra_lbits :: "int list" where
  "extra_lbits = [0,0,0,0,0,0,0,0,1,1,1,1,2,2,2,2,3,3,3,3,4,4,4,4,5,5,5,5,0]"

definition extra_dbits :: "int list" where
  "extra_dbits = [0,0,0,0,1,1,2,2,3,3,4,4,5,5,6,6,7,7,8,8,9,9,10,10,11,11,12,12,13,13]"

definition extra_blbits :: "int list" where
  "extra_blbits = [0,0,0,0,0,0,0,0,0,0,0,0,0,0,0,0,2,3,7]"

definition bl_order :: "u8 list" where
  "bl_order = [16,17,18,0,8,7,9,6,10,5,11,4,12,3,13,2,14,1,15]"

section \<open>trees.h\<close>

definition static_ltree :: "ct_data list" where
  "static_ltree = map (\<lambda>(c, l). \<lparr>fc = of_int c, dl = of_int l\<rparr>) [
   (12, 8), (140, 8), (76, 8), (204, 8), (44, 8), (172, 8), (108, 8), (236, 8), (28, 8), (156, 8),
   (92, 8), (220, 8), (60, 8), (188, 8), (124, 8), (252, 8), (2, 8), (130, 8), (66, 8), (194, 8),
   (34, 8), (162, 8), (98, 8), (226, 8), (18, 8), (146, 8), (82, 8), (210, 8), (50, 8), (178, 8),
   (114, 8), (242, 8), (10, 8), (138, 8), (74, 8), (202, 8), (42, 8), (170, 8), (106, 8),
   (234, 8), (26, 8), (154, 8), (90, 8), (218, 8), (58, 8), (186, 8), (122, 8), (250, 8), (6, 8),
   (134, 8), (70, 8), (198, 8), (38, 8), (166, 8), (102, 8), (230, 8), (22, 8), (150, 8), (86, 8),
   (214, 8), (54, 8), (182, 8), (118, 8), (246, 8), (14, 8), (142, 8), (78, 8), (206, 8), (46, 8),
   (174, 8), (110, 8), (238, 8), (30, 8), (158, 8), (94, 8), (222, 8), (62, 8), (190, 8),
   (126, 8), (254, 8), (1, 8), (129, 8), (65, 8), (193, 8), (33, 8), (161, 8), (97, 8), (225, 8),
   (17, 8), (145, 8), (81, 8), (209, 8), (49, 8), (177, 8), (113, 8), (241, 8), (9, 8), (137, 8),
   (73, 8), (201, 8), (41, 8), (169, 8), (105, 8), (233, 8), (25, 8), (153, 8), (89, 8), (217, 8),
   (57, 8), (185, 8), (121, 8), (249, 8), (5, 8), (133, 8), (69, 8), (197, 8), (37, 8), (165, 8),
   (101, 8), (229, 8), (21, 8), (149, 8), (85, 8), (213, 8), (53, 8), (181, 8), (117, 8),
   (245, 8), (13, 8), (141, 8), (77, 8), (205, 8), (45, 8), (173, 8), (109, 8), (237, 8), (29, 8),
   (157, 8), (93, 8), (221, 8), (61, 8), (189, 8), (125, 8), (253, 8), (19, 9), (275, 9),
   (147, 9), (403, 9), (83, 9), (339, 9), (211, 9), (467, 9), (51, 9), (307, 9), (179, 9),
   (435, 9), (115, 9), (371, 9), (243, 9), (499, 9), (11, 9), (267, 9), (139, 9), (395, 9),
   (75, 9), (331, 9), (203, 9), (459, 9), (43, 9), (299, 9), (171, 9), (427, 9), (107, 9),
   (363, 9), (235, 9), (491, 9), (27, 9), (283, 9), (155, 9), (411, 9), (91, 9), (347, 9),
   (219, 9), (475, 9), (59, 9), (315, 9), (187, 9), (443, 9), (123, 9), (379, 9), (251, 9),
   (507, 9), (7, 9), (263, 9), (135, 9), (391, 9), (71, 9), (327, 9), (199, 9), (455, 9), (39, 9),
   (295, 9), (167, 9), (423, 9), (103, 9), (359, 9), (231, 9), (487, 9), (23, 9), (279, 9),
   (151, 9), (407, 9), (87, 9), (343, 9), (215, 9), (471, 9), (55, 9), (311, 9), (183, 9),
   (439, 9), (119, 9), (375, 9), (247, 9), (503, 9), (15, 9), (271, 9), (143, 9), (399, 9),
   (79, 9), (335, 9), (207, 9), (463, 9), (47, 9), (303, 9), (175, 9), (431, 9), (111, 9),
   (367, 9), (239, 9), (495, 9), (31, 9), (287, 9), (159, 9), (415, 9), (95, 9), (351, 9),
   (223, 9), (479, 9), (63, 9), (319, 9), (191, 9), (447, 9), (127, 9), (383, 9), (255, 9),
   (511, 9), (0, 7), (64, 7), (32, 7), (96, 7), (16, 7), (80, 7), (48, 7), (112, 7), (8, 7),
   (72, 7), (40, 7), (104, 7), (24, 7), (88, 7), (56, 7), (120, 7), (4, 7), (68, 7), (36, 7),
   (100, 7), (20, 7), (84, 7), (52, 7), (116, 7), (3, 8), (131, 8), (67, 8), (195, 8), (35, 8),
   (163, 8), (99, 8), (227, 8)]"

definition static_dtree :: "ct_data list" where
  "static_dtree = map (\<lambda>(c, l). \<lparr>fc = of_int c, dl = of_int l\<rparr>) [
   (0, 5), (16, 5), (8, 5), (24, 5), (4, 5), (20, 5), (12, 5), (28, 5), (2, 5), (18, 5), (10, 5),
   (26, 5), (6, 5), (22, 5), (14, 5), (30, 5), (1, 5), (17, 5), (9, 5), (25, 5), (5, 5), (21, 5),
   (13, 5), (29, 5), (3, 5), (19, 5), (11, 5), (27, 5), (7, 5), (23, 5)]"

definition dist_code :: "u8 list" where
  "dist_code = [
   0, 1, 2, 3, 4, 4, 5, 5, 6, 6, 6, 6, 7, 7, 7, 7, 8, 8, 8, 8, 8, 8, 8, 8, 9, 9, 9, 9, 9, 9, 9, 9,
   10, 10, 10, 10, 10, 10, 10, 10, 10, 10, 10, 10, 10, 10, 10, 10, 11, 11, 11, 11, 11, 11, 11, 11,
   11, 11, 11, 11, 11, 11, 11, 11, 12, 12, 12, 12, 12, 12, 12, 12, 12, 12, 12, 12, 12, 12, 12, 12,
   12, 12, 12, 12, 12, 12, 12, 12, 12, 12, 12, 12, 12, 12, 12, 12, 13, 13, 13, 13, 13, 13, 13, 13,
   13, 13, 13, 13, 13, 13, 13, 13, 13, 13, 13, 13, 13, 13, 13, 13, 13, 13, 13, 13, 13, 13, 13, 13,
   14, 14, 14, 14, 14, 14, 14, 14, 14, 14, 14, 14, 14, 14, 14, 14, 14, 14, 14, 14, 14, 14, 14, 14,
   14, 14, 14, 14, 14, 14, 14, 14, 14, 14, 14, 14, 14, 14, 14, 14, 14, 14, 14, 14, 14, 14, 14, 14,
   14, 14, 14, 14, 14, 14, 14, 14, 14, 14, 14, 14, 14, 14, 14, 14, 15, 15, 15, 15, 15, 15, 15, 15,
   15, 15, 15, 15, 15, 15, 15, 15, 15, 15, 15, 15, 15, 15, 15, 15, 15, 15, 15, 15, 15, 15, 15, 15,
   15, 15, 15, 15, 15, 15, 15, 15, 15, 15, 15, 15, 15, 15, 15, 15, 15, 15, 15, 15, 15, 15, 15, 15,
   15, 15, 15, 15, 15, 15, 15, 15, 0, 0, 16, 17, 18, 18, 19, 19, 20, 20, 20, 20, 21, 21, 21, 21,
   22, 22, 22, 22, 22, 22, 22, 22, 23, 23, 23, 23, 23, 23, 23, 23, 24, 24, 24, 24, 24, 24, 24, 24,
   24, 24, 24, 24, 24, 24, 24, 24, 25, 25, 25, 25, 25, 25, 25, 25, 25, 25, 25, 25, 25, 25, 25, 25,
   26, 26, 26, 26, 26, 26, 26, 26, 26, 26, 26, 26, 26, 26, 26, 26, 26, 26, 26, 26, 26, 26, 26, 26,
   26, 26, 26, 26, 26, 26, 26, 26, 27, 27, 27, 27, 27, 27, 27, 27, 27, 27, 27, 27, 27, 27, 27, 27,
   27, 27, 27, 27, 27, 27, 27, 27, 27, 27, 27, 27, 27, 27, 27, 27, 28, 28, 28, 28, 28, 28, 28, 28,
   28, 28, 28, 28, 28, 28, 28, 28, 28, 28, 28, 28, 28, 28, 28, 28, 28, 28, 28, 28, 28, 28, 28, 28,
   28, 28, 28, 28, 28, 28, 28, 28, 28, 28, 28, 28, 28, 28, 28, 28, 28, 28, 28, 28, 28, 28, 28, 28,
   28, 28, 28, 28, 28, 28, 28, 28, 29, 29, 29, 29, 29, 29, 29, 29, 29, 29, 29, 29, 29, 29, 29, 29,
   29, 29, 29, 29, 29, 29, 29, 29, 29, 29, 29, 29, 29, 29, 29, 29, 29, 29, 29, 29, 29, 29, 29, 29,
   29, 29, 29, 29, 29, 29, 29, 29, 29, 29, 29, 29, 29, 29, 29, 29, 29, 29, 29, 29, 29, 29, 29, 29]"

definition length_code :: "u8 list" where
  "length_code = [
   0, 1, 2, 3, 4, 5, 6, 7, 8, 8, 9, 9, 10, 10, 11, 11, 12, 12, 12, 12, 13, 13, 13, 13, 14, 14, 14,
   14, 15, 15, 15, 15, 16, 16, 16, 16, 16, 16, 16, 16, 17, 17, 17, 17, 17, 17, 17, 17, 18, 18, 18,
   18, 18, 18, 18, 18, 19, 19, 19, 19, 19, 19, 19, 19, 20, 20, 20, 20, 20, 20, 20, 20, 20, 20, 20,
   20, 20, 20, 20, 20, 21, 21, 21, 21, 21, 21, 21, 21, 21, 21, 21, 21, 21, 21, 21, 21, 22, 22, 22,
   22, 22, 22, 22, 22, 22, 22, 22, 22, 22, 22, 22, 22, 23, 23, 23, 23, 23, 23, 23, 23, 23, 23, 23,
   23, 23, 23, 23, 23, 24, 24, 24, 24, 24, 24, 24, 24, 24, 24, 24, 24, 24, 24, 24, 24, 24, 24, 24,
   24, 24, 24, 24, 24, 24, 24, 24, 24, 24, 24, 24, 24, 25, 25, 25, 25, 25, 25, 25, 25, 25, 25, 25,
   25, 25, 25, 25, 25, 25, 25, 25, 25, 25, 25, 25, 25, 25, 25, 25, 25, 25, 25, 25, 25, 26, 26, 26,
   26, 26, 26, 26, 26, 26, 26, 26, 26, 26, 26, 26, 26, 26, 26, 26, 26, 26, 26, 26, 26, 26, 26, 26,
   26, 26, 26, 26, 26, 27, 27, 27, 27, 27, 27, 27, 27, 27, 27, 27, 27, 27, 27, 27, 27, 27, 27, 27,
   27, 27, 27, 27, 27, 27, 27, 27, 27, 27, 27, 27, 28]"

definition base_length :: "int list" where
  "base_length = [
   0, 1, 2, 3, 4, 5, 6, 7, 8, 10, 12, 14, 16, 20, 24, 28, 32, 40, 48, 56, 64, 80, 96, 112, 128,
   160, 192, 224, 0]"

definition base_dist :: "int list" where
  "base_dist = [
   0, 1, 2, 3, 4, 6, 8, 12, 16, 24, 32, 48, 64, 96, 128, 192, 256, 384, 512, 768, 1024, 1536,
   2048, 3072, 4096, 6144, 8192, 12288, 16384, 24576]"

text \<open>The macro \<open>d_code\<close> of \<open>deflate.h\<close>.\<close>

definition d_code :: "u32 \<Rightarrow> u8" where
  "d_code dist = (if dist < 256 then dist_code ! unat dist else dist_code ! (256 + unat (drop_bit 7 dist)))"

section \<open>tr_static_init\<close>

text \<open>The inner loops write one code to a run of entries; \<open>off\<close> is 256 for the second half of \<open>_dist_code\<close>.\<close>

definition fill :: "nat \<Rightarrow> u8 \<Rightarrow> nat \<Rightarrow> u8 list \<times> nat \<Rightarrow> u8 list \<times> nat" where
  "fill off code k st = foldl (\<lambda>(tbl, i) n. (tbl[off + i := code], i + 1)) st [0..<k]"

definition init_lengths :: "int list \<times> u8 list" where
  "init_lengths =
     (let (base, tbl, len) = foldl (\<lambda>(base, tbl, len) code.
            (base[code := int len], fill 0 (of_nat code) (2 ^ nat (extra_lbits ! code)) (tbl, len)))
          (replicate LENGTH_CODES 0, replicate 256 0, 0) [0..<LENGTH_CODES - 1]
      in (base, tbl[len - 1 := of_nat (LENGTH_CODES - 1)]))"

definition init_dists :: "int list \<times> u8 list" where
  "init_dists =
     (let (base, tbl, dist) = foldl (\<lambda>(base, tbl, dist) code.
            (base[code := int dist], fill 0 (of_nat code) (2 ^ nat (extra_dbits ! code)) (tbl, dist)))
          (replicate D_CODES 0, replicate DIST_CODE_LEN 0, 0) [0..<16];
          (base, tbl, dist) = foldl (\<lambda>(base, tbl, dist) code.
            (base[code := int dist * 2 ^ 7],
             fill 256 (of_nat code) (2 ^ nat (extra_dbits ! code - 7)) (tbl, dist)))
          (base, tbl, dist div 2 ^ 7) [16..<D_CODES]
      in (base, tbl))"

text \<open>The loops \<open>while (n <= k) static_ltree[n++].Len = len, bl_count[len]++\<close>.\<close>

definition set_lens :: "u16 \<Rightarrow> nat \<Rightarrow> nat \<Rightarrow> ct_data list \<times> u16 list \<Rightarrow> ct_data list \<times> u16 list" where
  "set_lens len n k st =
     foldl (\<lambda>(tree, bl_count) n. (tree[n := (tree ! n)\<lparr>dl := len\<rparr>], bl_count[unat len := bl_count ! unat len + 1]))
       st [n..<Suc k]"

definition init_static_ltree :: "ct_data list" where
  "init_static_ltree =
     (let st = (replicate (L_CODES + 2) \<lparr>fc = 0, dl = 0\<rparr>, replicate (MAX_BITS + 1) 0);
          (tree, bl_count) = set_lens 8 280 287 (set_lens 7 256 279 (set_lens 9 144 255 (set_lens 8 0 143 st)))
      in gen_codes tree (int L_CODES + 1) bl_count)"

definition init_static_dtree :: "ct_data list" where
  "init_static_dtree = map (\<lambda>n. \<lparr>fc = ucast (bi_reverse (of_nat n) 5), dl = 5\<rparr>) [0..<D_CODES]"

record static_tables =
  st_ltree :: "ct_data list"
  st_dtree :: "ct_data list"
  st_dist_code :: "u8 list"
  st_length_code :: "u8 list"
  st_base_length :: "int list"
  st_base_dist :: "int list"

definition tr_static_init :: static_tables where
  "tr_static_init =
     (let (base_length, length_code) = init_lengths; (base_dist, dist_code) = init_dists
      in \<lparr>st_ltree = init_static_ltree, st_dtree = init_static_dtree, st_dist_code = dist_code,
          st_length_code = length_code, st_base_length = base_length, st_base_dist = base_dist\<rparr>)"

section \<open>The generated tables\<close>

lemma fill_Suc: "fill off c (Suc k) st = (let (tbl, i) = fill off c k st in (tbl[off + i := c], i + 1))"
  by (simp add: fill_def Let_def case_prod_beta)

lemma fill_run:
  "length pre = off + i \<Longrightarrow> k \<le> r \<Longrightarrow>
    fill off c k (pre @ replicate r 0, i) = (pre @ replicate k c @ replicate (r - k) 0, i + k)"
proof (induction k)
  case 0
  then show ?case by (simp add: fill_def)
next
  case (Suc k)
  obtain r' where r': "r - k = Suc r'" using Suc.prems(2) by (metis Suc_diff_Suc Suc_le_lessD)
  then have "(pre @ replicate k c @ replicate (r - k) 0)[off + (i + k) := c]
      = pre @ replicate (Suc k) c @ replicate (r - Suc k) 0"
    using Suc.prems(1) by (simp add: list_update_append replicate_app_Cons_same)
  then show ?case using Suc by (simp add: fill_Suc)
qed

lemma fill_runs:
  fixes K :: "nat \<Rightarrow> nat" and U :: "'a \<Rightarrow> nat \<Rightarrow> nat \<Rightarrow> 'a"
  shows "length pre = off + i \<Longrightarrow> sum_list (map K cs) \<le> r \<Longrightarrow>
    foldl (\<lambda>(base, tbl, len) c. (U base c len, fill off (of_nat c) (K c) (tbl, len)))
      (base, pre @ replicate r 0, i) cs
    = (fst (foldl (\<lambda>(base, len) c. (U base c len, len + K c)) (base, i) cs),
       pre @ concat (map (\<lambda>c. replicate (K c) (of_nat c)) cs) @ replicate (r - sum_list (map K cs)) 0,
       i + sum_list (map K cs))"
proof (induction cs arbitrary: pre i r base)
  case Nil
  then show ?case by simp
next
  case (Cons c cs)
  have f: "fill off (of_nat c) (K c) (pre @ replicate r 0, i) = ((pre @ replicate (K c) (of_nat c)) @ replicate (r - K c) 0, i + K c)"
    using Cons.prems by (subst fill_run) simp_all
  show ?case
    using Cons.IH [of "pre @ replicate (K c) (of_nat c)" "i + K c" "r - K c"] Cons.prems
    by (simp add: f)
qed
lemma runs_256: "sum_list (map (\<lambda>c. 2 ^ nat (extra_lbits ! c)) [0..<LENGTH_CODES - 1]) = (256::nat)" by code_simp
lemma runs_dist_256: "sum_list (map (\<lambda>c. 2 ^ nat (extra_dbits ! c)) [0..<16]) = (256::nat)" by code_simp
lemma runs_dist_254: "sum_list (map (\<lambda>c. 2 ^ nat (extra_dbits ! c - 7)) [16..<D_CODES]) = (254::nat)" by code_simp
lemma init_lengths_eq: "init_lengths = (base_length, length_code)"
proof -
  have e: "init_lengths = (fst (foldl (\<lambda>(base, len) code. (base[code := int len], len + 2 ^ nat (extra_lbits ! code)))
      (replicate LENGTH_CODES 0, 0) [0..<LENGTH_CODES - 1]),
      (concat (map (\<lambda>c. replicate (2 ^ nat (extra_lbits ! c)) (of_nat c)) [0..<LENGTH_CODES - 1]))[255 := 28])"
  using fill_runs [where pre = "[]" and off = 0 and i = 0 and r = 256 and U = "\<lambda>base code len. base[code := int len]" and base = "replicate LENGTH_CODES 0" and K = "\<lambda>c. 2 ^ nat (extra_lbits ! c)" and cs = "[0..<LENGTH_CODES - 1]"]
   unfolding runs_256 unfolding init_lengths_def Let_def by (simp add: LENGTH_CODES_def)
  show ?thesis unfolding e by code_simp
qed
lemma init_dists_eq: "init_dists = (base_dist, dist_code)"
proof -
  let ?S1 = "\<lambda>(base, tbl, dist) code.
    (base[code := int dist], fill 0 (of_nat code) (2 ^ nat (extra_dbits ! code)) (tbl, dist))"
  let ?S2 = "\<lambda>(base, tbl, dist) code.
    (base[code := int dist * 2 ^ 7], fill 256 (of_nat code) (2 ^ nat (extra_dbits ! code - 7)) (tbl, dist))"
  let ?U1 = "\<lambda>(base, len) code. (base[code := int len], len + 2 ^ nat (extra_dbits ! code))"
  let ?U2 = "\<lambda>(base, len) code. (base[code := int len * 2 ^ 7], len + 2 ^ nat (extra_dbits ! code - 7))"
  let ?B1 = "fst (foldl ?U1 (replicate D_CODES 0, 0) [0..<16])"
  let ?T1 = "concat (map (\<lambda>c. replicate (2 ^ nat (extra_dbits ! c)) (of_nat c)) [0..<16]) @ [0, 0 :: u8]"
  let ?T2 = "concat (map (\<lambda>c. replicate (2 ^ nat (extra_dbits ! c - 7)) (of_nat c)) [16..<D_CODES])"
  have split: "replicate 256 (0 :: u8) = [0, 0] @ replicate 254 0" by (simp add: eval_nat_numeral)
  have len: "length ?T1 = 258" using runs_dist_256 by (simp add: length_concat o_def)
  have "foldl ?S1 (replicate D_CODES 0, [] @ replicate 512 0, 0) [0..<16] = (?B1, ?T1 @ replicate 254 0, 256)"
    by (subst fill_runs) (simp_all add: runs_dist_256 split)
  then have f1: "foldl ?S1 (replicate D_CODES 0, replicate DIST_CODE_LEN 0, 0) [0..<16] = (?B1, ?T1 @ replicate 254 0, 256)"
    by (simp add: DIST_CODE_LEN_def)
  have f2: "foldl ?S2 (?B1, ?T1 @ replicate 254 0, 2) [16..<D_CODES]
      = (fst (foldl ?U2 (?B1, 2) [16..<D_CODES]), ?T1 @ ?T2, 256)"
    by (subst fill_runs) (simp_all only: len runs_dist_254, simp_all)
  have e: "init_dists = (fst (foldl ?U2 (?B1, 2) [16..<D_CODES]), ?T1 @ ?T2)"
    unfolding init_dists_def Let_def f1 prod.case
    using f2 by simp
  show ?thesis unfolding e by code_simp
qed

section \<open>The static literal tree\<close>

definition static_lens :: "nat list" where
  "static_lens = replicate 144 8 @ replicate 112 9 @ replicate 24 7 @ replicate 8 8"

text \<open>The codes of RFC 1951, 3.2.6.\<close>

definition static_code :: "nat \<Rightarrow> nat" where
  "static_code n = (if n < 144 then 48 + n else if n < 256 then 400 + (n - 144)
     else if n < 280 then n - 256 else 192 + (n - 280))"

lemma count_len_replicate [simp]: "count_len (replicate k x) l = (if x = l then k else 0)"
  by (induction k) simp_all

lemma kraft_static: "kraft static_lens"
  by (simp add: kraft_def static_lens_def sum_list_replicate weight_def MAX_LEN_def)

lemma first_code_static: "first_code static_lens 7 = 0" "first_code static_lens 8 = 48" "first_code static_lens 9 = 400"
  by (simp_all add: eval_nat_numeral static_lens_def)

lemma static_cases:
  fixes n :: nat
  assumes "n < 288"
  obtains "n < 144" | "144 \<le> n" "n < 256" | "256 \<le> n" "n < 280" | "280 \<le> n" "n < 288"
  using assms by linarith

lemma static_lens_nth:
  assumes "n < 288"
  shows "static_lens ! n = (if n < 144 then 8 else if n < 256 then 9 else if n < 280 then 7 else 8)"
  using assms by (cases n rule: static_cases) (simp_all add: static_lens_def nth_append less_diff_conv2)

lemma take_static:
  "n < 144 \<Longrightarrow> take n static_lens = replicate n 8"
  "144 \<le> n \<Longrightarrow> n < 256 \<Longrightarrow> take n static_lens = replicate 144 8 @ replicate (n - 144) 9"
  "256 \<le> n \<Longrightarrow> n < 280 \<Longrightarrow> take n static_lens = replicate 144 8 @ replicate 112 9 @ replicate (n - 256) 7"
  "280 \<le> n \<Longrightarrow> n < 288 \<Longrightarrow> take n static_lens = replicate 144 8 @ replicate 112 9 @ replicate 24 7 @ replicate (n - 280) 8"
  by (simp_all add: static_lens_def min_absorb1 min_absorb2)

lemma canonical_static:
  assumes "n < 288"
  shows "canonical static_lens n = static_code n"
  using assms
  by (cases n rule: static_cases)
    (simp_all add: canonical_def static_code_def static_lens_nth first_code_static take_static)

text \<open>The entries are compared with the reversed codes as integers.\<close>

fun reverse_int :: "nat \<Rightarrow> int \<Rightarrow> int" where
  "reverse_int 0 k = 0"
| "reverse_int (Suc l) k = (k mod 2) * 2 ^ l + reverse_int l (k div 2)"

lemma reverse_int_range: "0 \<le> reverse_int l k \<and> reverse_int l k < 2 ^ l"
proof (induction l arbitrary: k i)
  case (Suc l)
  have "k mod 2 = 0 \<or> k mod 2 = 1" by presburger
  then show ?case using Suc [of "k div 2"] by auto
qed simp

lemma reverse_int_bit: "bit (reverse_int l k) i \<longleftrightarrow> i < l \<and> bit k (l - 1 - i)"
proof (induction l arbitrary: k i)
  case 0
  then show ?case by simp
next
  case (Suc l)
  have r: "bit (reverse_int l (k div 2)) j \<longleftrightarrow> j < l \<and> bit k (l - j)" for j
    unfolding Suc.IH by (cases "j < l") (simp_all add: Suc_diff_Suc flip: bit_Suc)
  have m: "bit (k mod 2) j \<longleftrightarrow> j = 0 \<and> bit k 0" for j
    by (cases j) (auto simp: bit_0 bit_Suc)
  have "push_bit l (k mod 2) AND reverse_int l (k div 2) = 0"
    by (rule bit_eqI) (auto simp: bit_and_iff bit_push_bit_iff r m)
  then have "reverse_int (Suc l) k = push_bit l (k mod 2) OR reverse_int l (k div 2)"
    by (simp add: push_bit_eq_mult flip: disjunctive_add_eq_or)
  then show ?case
    by (cases "i = l") (auto simp: bit_or_iff bit_push_bit_iff r m bit_0)
qed

definition static_codes :: "(int \<times> int) list" where
  "static_codes = map (\<lambda>k. (reverse_int 8 k, 8)) [48..191] @ map (\<lambda>k. (reverse_int 9 k, 9)) [400..511] @
     map (\<lambda>k. (reverse_int 7 k, 7)) [0..23] @ map (\<lambda>k. (reverse_int 8 k, 8)) [192..199]"

lemma static_ltree_codes: "static_ltree = map (\<lambda>(c, l). \<lparr>fc = of_int c, dl = of_int l\<rparr>) static_codes"
  unfolding static_ltree_def by (rule arg_cong [where f = "map _"]) code_simp

lemma length_static_codes: "length static_codes = 288"
  by (simp add: static_codes_def del: upto_rec_numeral)

lemma static_codes_nth:
  assumes "n < 288"
  shows "static_codes ! n = (reverse_int (static_lens ! n) (int (static_code n)), int (static_lens ! n))"
  using assms
  by (cases n rule: static_cases) (simp_all add: static_codes_def static_code_def static_lens_nth nth_append less_diff_conv2 nth_upto del: upto_rec_numeral)

lemma reverse_int_word:
  assumes "l \<le> 16"
  shows "bits_of (of_int (reverse_int l (int k)) :: u16) l = msb_first k l"
    "unat (of_int (reverse_int l (int k)) :: u16) < 2 ^ l"
proof -
  show "bits_of (of_int (reverse_int l (int k)) :: u16) l = msb_first k l"
    using assms by (intro nth_equalityI) (auto simp: bits_of_def msb_first_def bit_of_int_iff reverse_int_bit
        bit_of_nat_iff_bit)
  have "take_bit l (of_int (reverse_int l (int k)) :: u16) = of_int (reverse_int l (int k))"
    by (rule bit_word_eqI) (auto simp: bit_take_bit_iff bit_of_int_iff reverse_int_bit)
  then show "unat (of_int (reverse_int l (int k)) :: u16) < 2 ^ l" by (rule unat_less_exp)
qed

lemma length_static_lens: "length static_lens = 288"
  by (simp add: static_lens_def)

lemma length_static_ltree: "length static_ltree = 288"
  by (simp add: static_ltree_codes length_static_codes)

lemma entries_coded:
  assumes k: "kraft lens" and z: "0 \<notin> set lens" and len: "length lens \<le> length tree"
    and d: "\<And>n. n < length lens \<Longrightarrow>
      tree ! n = \<lparr>fc = of_int (reverse_int (lens ! n) (int (canonical lens n))), dl = of_int (int (lens ! n))\<rparr>"
  shows "coded tree lens"
proof -
  have "unat (Len (tree ! n)) = lens ! n \<and> canonical_word lens n = Some (tree_word tree n) \<and>
      unat (Code (tree ! n)) < 2 ^ (lens ! n)" if n: "n < length lens" for n
  proof -
    have "lens ! n \<in> set lens" using n by simp
    then have l: "lens ! n \<le> 16" "lens ! n \<noteq> 0"
      using k z by (fastforce simp: kraft_def MAX_LEN_def, metis)
    then have "unat (Len (tree ! n)) = lens ! n"
      by (simp add: d [OF n] unat_of_nat_small)
    moreover note reverse_int_word [OF l(1), of "canonical lens n"]
    ultimately show ?thesis
      using n l k by (simp add: canonical_word_def tree_word_def d)
  qed
  then show ?thesis by (simp add: coded_def k len)
qed

lemma static_ltree_coded: "coded static_ltree static_lens"
proof (rule entries_coded)
  show "0 \<notin> set static_lens" by (auto simp: static_lens_def)
qed (simp_all add: kraft_static length_static_lens length_static_ltree static_ltree_codes length_static_codes
    static_codes_nth canonical_static)

text \<open>Two trees that are coded with the same lengths have the same codes.\<close>

lemma bits_of_inj:
  assumes "bits_of v l = bits_of w l" "unat v < 2 ^ l" "unat w < 2 ^ l"
  shows "v = w"
proof (rule bit_word_eqI)
  fix i
  show "bit v i = bit w i"
  proof (cases "i < l")
    case True
    then have "bits_of v l ! i = bits_of w l ! i" using assms(1) by simp
    then show ?thesis using True by (simp add: bits_of_def)
  next
    case False
    then show ?thesis using bit_less_imp_less [OF assms(2)] bit_less_imp_less [OF assms(3)] by blast
  qed
qed

lemma coded_unique:
  assumes "coded t lens" "coded t' lens" "length t = length lens" "length t' = length lens" "0 \<notin> set lens"
  shows "t = t'"
proof (rule nth_equalityI)
  show "length t = length t'" using assms by simp
  fix n assume "n < length t"
  then have n: "n < length lens" using assms(3) by simp
  then have z: "lens ! n \<noteq> 0" using assms(5) nth_mem by metis
  note C = assms(1) [unfolded coded_def, THEN conjunct2, THEN conjunct2, rule_format, OF n]
    and C' = assms(2) [unfolded coded_def, THEN conjunct2, THEN conjunct2, rule_format, OF n]
  have c: "unat (Len (t ! n)) = lens ! n" "canonical_word lens n = Some (tree_word t n)" "unat (Code (t ! n)) < 2 ^ (lens ! n)"
    using C z by simp_all
  have c': "unat (Len (t' ! n)) = lens ! n" "canonical_word lens n = Some (tree_word t' n)" "unat (Code (t' ! n)) < 2 ^ (lens ! n)"
    using C' z by simp_all
  have "Len (t ! n) = Len (t' ! n)" using c(1) c'(1) by (simp only: word_unat_eq_iff)
  moreover have "Code (t ! n) = Code (t' ! n)"
    using c c' bits_of_inj [of "Code (t ! n)" "lens ! n"] by (simp add: tree_word_def)
  ultimately show "t ! n = t' ! n" by simp
qed

lemma set_lens_run:
  assumes "length pre = n" "unat len < length bl" "n + j = Suc k" "j \<le> m"
  shows "set_lens len n k (pre @ replicate m d, bl) =
    (pre @ replicate j (d\<lparr>dl := len\<rparr>) @ replicate (m - j) d, bl[unat len := bl ! unat len + of_nat j])"
proof -
  let ?f = "\<lambda>(tree, bl_count) n. (tree[n := (tree ! n)\<lparr>dl := len\<rparr>], bl_count[unat len := bl_count ! unat len + 1])"
  have "foldl ?f (pre @ replicate m d, bl) [n..<n + j] =
      (pre @ replicate j (d\<lparr>dl := len\<rparr>) @ replicate (m - j) d, bl[unat len := bl ! unat len + of_nat j])"
    using assms(4)
  proof (induction j)
    case 0
    show ?case by simp
  next
    case (Suc j)
    obtain m' where "m - j = Suc m'" using Suc.prems by (metis Suc_diff_Suc Suc_le_lessD)
    then show ?case
      using Suc assms(1,2) by (simp add: nth_append list_update_append replicate_app_Cons_same add.assoc add.commute)
  qed
  then show ?thesis using assms(3) by (simp add: set_lens_def)
qed

lemma init_static_ltree_eq: "init_static_ltree = static_ltree"
proof -
  let ?d = "\<lparr>fc = 0, dl = 0\<rparr> :: ct_data"
  let ?bl = "(replicate 16 0)[8 := 152, 9 := 112, 7 := 24] :: u16 list"
  define tree where "tree = replicate 144 (?d\<lparr>dl := 8\<rparr>) @ replicate 112 (?d\<lparr>dl := 9\<rparr>) @ replicate 24 (?d\<lparr>dl := 7\<rparr>) @ replicate 8 (?d\<lparr>dl := 8\<rparr>)"
  have "set_lens 8 280 287 (set_lens 7 256 279 (set_lens 9 144 255 (set_lens 8 0 143
      (replicate (L_CODES + 2) ?d, replicate (MAX_BITS + 1) 0)))) = (tree, ?bl)"
  proof -
    have z: "replicate (L_CODES + 2) ?d = [] @ replicate 288 ?d" "replicate (MAX_BITS + 1) 0 = (replicate 16 0 :: u16 list)"
      by (simp_all add: L_CODES_def LITERALS_def LENGTH_CODES_def MAX_BITS_def)
    let ?A1 = "replicate 144 (?d\<lparr>dl := 8\<rparr>)" and ?b1 = "(replicate 16 0)[8 := 144] :: u16 list"
    let ?A2 = "?A1 @ replicate 112 (?d\<lparr>dl := 9\<rparr>)" and ?b2 = "(replicate 16 0)[8 := 144, 9 := 112] :: u16 list"
    let ?A3 = "?A2 @ replicate 24 (?d\<lparr>dl := 7\<rparr>)" and ?b3 = "(replicate 16 0)[8 := 144, 9 := 112, 7 := 24] :: u16 list"
    have "set_lens 8 0 143 (replicate 288 ?d, replicate 16 0) = (?A1 @ replicate 144 ?d, ?b1)"
      using set_lens_run [of "[]" 0 8 "replicate 16 0" 144 143 288 ?d] by simp
    moreover have "set_lens 9 144 255 (?A1 @ replicate 144 ?d, ?b1) = (?A2 @ replicate 32 ?d, ?b2)"
      using set_lens_run [of ?A1 144 9 ?b1 112 255 144 ?d] by simp
    moreover have "set_lens 7 256 279 (?A2 @ replicate 32 ?d, ?b2) = (?A3 @ replicate 8 ?d, ?b3)"
      using set_lens_run [of ?A2 256 7 ?b2 24 279 32 ?d] by simp
    moreover have "set_lens 8 280 287 (?A3 @ replicate 8 ?d, ?b3) = (tree, ?bl)"
      using set_lens_run [of ?A3 280 8 ?b3 8 287 8 ?d]
      by (simp add: tree_def) (simp add: list_update_swap)
    ultimately show ?thesis unfolding z by simp
  qed
  then have i: "init_static_ltree = gen_codes tree 287 ?bl"
    by (simp add: init_static_ltree_def Let_def L_CODES_def LITERALS_def LENGTH_CODES_def)
  have lens: "lens_of tree 287 = static_lens"
    by (simp add: lens_of_def tree_def static_lens_def)
  have m: "0 \<le> (287 :: int) + 1" "nat (287 + 1) \<le> length tree" by (simp_all add: tree_def)
  have k: "kraft (lens_of tree 287)" by (simp add: lens kraft_static)
  have c: "counts_lens ?bl (lens_of tree 287)"
    by (auto simp: lens counts_lens_def MAX_BITS_def static_lens_def nth_list_update)
  note g = gen_codes_ok [OF m k c]
  show ?thesis
    unfolding i
    by (rule coded_unique [OF g(1) [unfolded lens] static_ltree_coded])
      (simp_all only: g(2) length_static_ltree length_static_lens, simp_all add: static_lens_def tree_def)
qed

lemma init_static_dtree_eq: "init_static_dtree = static_dtree"
  by code_simp

section \<open>The static distance tree\<close>

definition static_dist_lens :: "nat list" where "static_dist_lens = replicate 30 5"

lemma static_dtree_codes:
  "static_dtree = map (\<lambda>(c, l). \<lparr>fc = of_int c, dl = of_int l\<rparr>) (map (\<lambda>k. (reverse_int 5 k, 5)) [0..29])"
  unfolding static_dtree_def by (rule arg_cong [where f = "map _"]) code_simp

lemma kraft_static_dist: "kraft static_dist_lens"
  by (simp add: kraft_def static_dist_lens_def sum_list_replicate weight_def MAX_LEN_def)

lemma static_dist_nth:
  "length static_dist_lens = 30" "n < 30 \<Longrightarrow> static_dist_lens ! n = 5" "0 \<notin> set static_dist_lens"
  by (simp_all add: static_dist_lens_def)

lemma first_code_dist: "l \<le> 5 \<Longrightarrow> first_code static_dist_lens l = 0"
  by (induction l) (simp_all add: static_dist_lens_def)

lemma canonical_static_dist: "n < 30 \<Longrightarrow> canonical static_dist_lens n = n"
  by (simp add: canonical_def static_dist_nth first_code_dist) (simp add: static_dist_lens_def)

lemma static_dtree_coded: "coded static_dtree static_dist_lens"
  by (rule entries_coded)
    (simp_all add: kraft_static_dist static_dtree_codes canonical_static_dist static_dist_nth nth_upto
      del: upto_rec_numeral)

section \<open>Lengths and distances\<close>

text \<open>The tables of RFC 1951, 3.2.5, indexed by the length code minus 257 and by the distance code.\<close>

definition rfc_length_base :: "int list" where
  "rfc_length_base = [3, 4, 5, 6, 7, 8, 9, 10, 11, 13, 15, 17, 19, 23, 27, 31, 35, 43, 51, 59,
    67, 83, 99, 115, 131, 163, 195, 227, 258]"

definition rfc_length_extra :: "nat list" where
  "rfc_length_extra = [0, 0, 0, 0, 0, 0, 0, 0, 1, 1, 1, 1, 2, 2, 2, 2, 3, 3, 3, 3, 4, 4, 4, 4, 5, 5, 5, 5, 0]"

definition rfc_dist_base :: "int list" where
  "rfc_dist_base = [1, 2, 3, 4, 5, 7, 9, 13, 17, 25, 33, 49, 65, 97, 129, 193, 257, 385, 513, 769,
    1025, 1537, 2049, 3073, 4097, 6145, 8193, 12289, 16385, 24577]"

definition rfc_dist_extra :: "nat list" where
  "rfc_dist_extra = [0, 0, 0, 0, 1, 1, 2, 2, 3, 3, 4, 4, 5, 5, 6, 6, 7, 7, 8, 8, 9, 9, 10, 10, 11, 11, 12, 12, 13, 13]"

definition length_entry_ok :: "int \<Rightarrow> u8 \<Rightarrow> bool" where
  "length_entry_ok lc c =
     (let n = nat (uint c); extra = extra_lbits ! n in
      uint c < 29 \<and> extra = int (rfc_length_extra ! n) \<and>
      (if extra = 0 then rfc_length_base ! n = lc + 3
       else base_length ! n \<le> lc \<and> lc < base_length ! n + 2 ^ nat extra \<and> rfc_length_base ! n = base_length ! n + 3))"

definition dist_entry_ok :: "int \<Rightarrow> int \<Rightarrow> u8 \<Rightarrow> bool" where
  "dist_entry_ok lo hi c =
     (let n = nat (uint c); extra = extra_dbits ! n in
      uint c < 30 \<and> extra = int (rfc_dist_extra ! n) \<and>
      base_dist ! n \<le> lo \<and> hi < base_dist ! n + 2 ^ nat extra \<and> rfc_dist_base ! n = base_dist ! n + 1)"

lemma length_codes_ok: "list_all2 length_entry_ok [0..255] length_code"
  by code_simp

lemma dist_codes_ok:
  "list_all2 (\<lambda>d. dist_entry_ok d d) [0..255] (take 256 dist_code)"
  "list_all2 (\<lambda>d. dist_entry_ok (d * 128) (d * 128 + 127)) [2..255] (drop 258 dist_code)"
  by code_simp+

lemma upto_255_nth: "k < 256 \<Longrightarrow> [0..255] ! k = int k"
  by (simp add: nth_upto del: upto_rec_numeral)

lemma length_code_entry: "length_entry_ok (uint lc) (length_code ! unat (lc :: u8))"
proof -
  have "unat lc < 256" using unat_u8_le [of lc] by simp
  then show ?thesis using list_all2_nthD [OF length_codes_ok, of "unat lc"]
    by (simp add: upto_255_nth del: upto_rec_numeral)
qed

lemma dist_code_entry:
  assumes "dist < (2 ^ 15 :: u32)"
  shows "\<exists>lo hi. lo \<le> uint dist \<and> uint dist \<le> hi \<and> dist_entry_ok lo hi (d_code dist)"
proof (cases "dist < 256")
  case True
  then have d: "unat dist < 256" by (simp add: word_less_nat_alt)
  then have "dist_entry_ok (int (unat dist)) (int (unat dist)) (dist_code ! unat dist)"
    using list_all2_nthD [OF dist_codes_ok(1), of "unat dist"] by (simp add: upto_255_nth del: upto_rec_numeral)
  then have "dist_entry_ok (uint dist) (uint dist) (d_code dist)" using True by (simp add: d_code_def)
  then show ?thesis by blast
next
  case False
  define k where "k = unat dist div 128"
  have "unat dist < 2 ^ 15" using assms unat_2_power [of 15, where 'a = 32] by (simp add: word_less_nat_alt)
  moreover have "256 \<le> unat dist" using False by (simp add: word_less_nat_alt not_less)
  ultimately have k: "2 \<le> k" "k < 256" by (simp_all add: k_def)
  have "unat (drop_bit 7 dist) = k" by (simp add: unat_drop_bit k_def)
  then have "d_code dist = dist_code ! (258 + (k - 2))" using False k(1) by (simp add: d_code_def)
  moreover have "dist_entry_ok (int k * 128) (int k * 128 + 127) (drop 258 dist_code ! (k - 2))"
    using list_all2_nthD [OF dist_codes_ok(2), of "k - 2"] k by (simp add: nth_upto of_nat_diff del: upto_rec_numeral)
  moreover have "length dist_code = 512" by (simp add: dist_code_def)
  ultimately have "dist_entry_ok (int k * 128) (int k * 128 + 127) (d_code dist)" by simp
  moreover have "k * 128 \<le> unat dist" "unat dist \<le> k * 128 + 127"
    using div_mult_mod_eq [of "unat dist" 128] mod_less_divisor [of 128 "unat dist"] unfolding k_def by linarith+
  then have "int k * 128 \<le> uint dist" "uint dist \<le> int k * 128 + 127"
    unfolding uint_nat by linarith+
  ultimately show ?thesis by blast
qed

section \<open>Properties\<close>

text \<open>
  C11: \<open>tr_static_init\<close> computes exactly the tables that \<open>trees.h\<close> holds as constants. The static trees
  are the canonical codes of the fixed code lengths of RFC 1951, 3.2.6, and the code, base value and
  extra bits that the tables give to every length and every distance are those of 3.2.5.
\<close>
theorem tr_static_init_correct:
  "tr_static_init = \<lparr>st_ltree = static_ltree, st_dtree = static_dtree, st_dist_code = dist_code,
     st_length_code = length_code, st_base_length = base_length, st_base_dist = base_dist\<rparr> \<and>
   coded static_ltree static_lens \<and> coded static_dtree static_dist_lens \<and>
   list_all2 length_entry_ok [0..255] length_code \<and>
   list_all (\<lambda>k. dist_entry_ok k k (d_code (of_int k))) [0..255] \<and>
   list_all (\<lambda>k. dist_entry_ok (k * 128) (k * 128 + 127) (d_code (of_int (k * 128)))) [2..255]"
proof -
  have len: "length dist_code = 512" by (simp add: dist_code_def)
  have 1: "dist_entry_ok k k (d_code (of_int k))" if "0 \<le> k" "k \<le> 255" for k
  proof -
    have n: "nat k < 256" "uint (of_int k :: u32) = k"
      using that by (simp_all add: uint_word_of_int_eq take_bit_int_eq_self)
    then have "unat (of_int k :: u32) = nat k" by (simp add: unat_eq_nat_uint)
    then show ?thesis
      using list_all2_nthD [OF dist_codes_ok(1), of "nat k"] n that len
      by (simp add: upto_255_nth d_code_def word_less_nat_alt del: upto_rec_numeral)
  qed
  have 2: "dist_entry_ok (k * 128) (k * 128 + 127) (d_code (of_int (k * 128)))" if "2 \<le> k" "k \<le> 255" for k
  proof -
    have "uint (of_int (k * 128) :: u32) = k * 128"
      using that by (simp only: uint_word_of_int_eq) (simp add: take_bit_int_eq_self)
    then have u: "unat (of_int (k * 128) :: u32) = nat k * 128" using that by (simp add: unat_eq_nat_uint nat_mult_distrib)
    then have "unat (drop_bit 7 (of_int (k * 128) :: u32)) = nat k" by (simp add: unat_drop_bit)
    then have "d_code (of_int (k * 128)) = drop 258 dist_code ! (nat k - 2)"
    proof -
      have "258 + (nat k - 2) = 256 + nat k" "256 \<le> nat k * 128" using that by linarith+
      then show ?thesis using \<open>unat (drop_bit 7 _) = nat k\<close> u len unfolding d_code_def word_less_nat_alt by simp
    qed
    moreover have "dist_entry_ok ([2..255] ! (nat k - 2) * 128) ([2..255] ! (nat k - 2) * 128 + 127) (drop 258 dist_code ! (nat k - 2))"
      using that by (intro list_all2_nthD [OF dist_codes_ok(2)]) (simp del: upto_rec_numeral)
    moreover have "[2..255] ! (nat k - 2) = k" using that by (simp add: nth_upto nat_diff_distrib del: upto_rec_numeral)
    ultimately show ?thesis by simp
  qed
  show ?thesis
    using 1 2 length_codes_ok
    by (simp add: tr_static_init_def init_lengths_eq init_dists_eq init_static_ltree_eq init_static_dtree_eq
        static_ltree_coded static_dtree_coded list_all_iff del: upto_rec_numeral)
qed

end
