(* ===== verification/Tr_State.thy ===== *)
theory Tr_State
  imports Tr_Tables
begin

text \<open>
  The part of \<open>deflate_state\<close> that \<open>zlib_archive/trees.c\<close> works on, the start of a block
  (\<open>_tr_init\<close>, \<open>init_block\<close>), the recording of literals and matches (\<open>_tr_tally\<close> and its inline
  versions in \<open>deflate.h\<close>) and \<open>detect_data_type\<close>. The buffers hold the tokens recorded and the
  frequency fields of the trees count the symbols of their codes.

  The fields of the output and of the overlaid buffers are in \<open>bit_sink\<close>. A token that is recorded
  falls on no byte of the output: \<open>deflate\<close> records tokens only when \<open>pending\<close> is 0, since it returns
  as long as \<open>flush_pending\<close> could not write everything.
\<close>

section \<open>The state\<close>

datatype tree_id = L_TREE | D_TREE | BL_TREE

record deflate_state = bit_sink +
  level :: int
  strategy :: int
  data_type :: int
  dyn_ltree :: "ct_data list"
  dyn_dtree :: "ct_data list"
  bl_tree :: "ct_data list"
  l_max_code :: int
  d_max_code :: int
  bl_max_code :: int
  bl_count :: "u16 list"
  heap :: "int list"
  heap_len :: int
  heap_max :: int
  depth :: "u8 list"
  last_lit :: u32
  opt_len :: u64
  static_len :: u64
  matches :: u32

definition HEAP_SIZE :: nat where "HEAP_SIZE = 2 * L_CODES + 1"
definition MAX_BL_BITS :: int where "MAX_BL_BITS = 7"

record static_tree_desc =
  static_tree :: "ct_data list option"
  extra_bits :: "int list"
  extra_base :: int
  elems :: int
  max_length :: int

definition static_l_desc :: static_tree_desc where
  "static_l_desc = \<lparr>static_tree = Some static_ltree, extra_bits = extra_lbits, extra_base = int LITERALS + 1,
     elems = int L_CODES, max_length = int MAX_BITS\<rparr>"

definition static_d_desc :: static_tree_desc where
  "static_d_desc = \<lparr>static_tree = Some static_dtree, extra_bits = extra_dbits, extra_base = 0,
     elems = int D_CODES, max_length = int MAX_BITS\<rparr>"

definition static_bl_desc :: static_tree_desc where
  "static_bl_desc = \<lparr>static_tree = None, extra_bits = extra_blbits, extra_base = 0,
     elems = int BL_CODES, max_length = MAX_BL_BITS\<rparr>"

text \<open>A \<open>tree_desc\<close> points to one of the three trees, its static description and its \<open>max_code\<close>.\<close>

fun dyn_tree :: "tree_id \<Rightarrow> deflate_state \<Rightarrow> ct_data list" where
  "dyn_tree L_TREE s = dyn_ltree s"
| "dyn_tree D_TREE s = dyn_dtree s"
| "dyn_tree BL_TREE s = bl_tree s"

fun set_tree :: "tree_id \<Rightarrow> ct_data list \<Rightarrow> deflate_state \<Rightarrow> deflate_state" where
  "set_tree L_TREE t s = s\<lparr>dyn_ltree := t\<rparr>"
| "set_tree D_TREE t s = s\<lparr>dyn_dtree := t\<rparr>"
| "set_tree BL_TREE t s = s\<lparr>bl_tree := t\<rparr>"

fun stat_desc :: "tree_id \<Rightarrow> static_tree_desc" where
  "stat_desc L_TREE = static_l_desc"
| "stat_desc D_TREE = static_d_desc"
| "stat_desc BL_TREE = static_bl_desc"

fun set_max_code :: "tree_id \<Rightarrow> int \<Rightarrow> deflate_state \<Rightarrow> deflate_state" where
  "set_max_code L_TREE m s = s\<lparr>l_max_code := m\<rparr>"
| "set_max_code D_TREE m s = s\<lparr>d_max_code := m\<rparr>"
| "set_max_code BL_TREE m s = s\<lparr>bl_max_code := m\<rparr>"

section \<open>Starting a block\<close>

definition clear_freq :: "nat \<Rightarrow> ct_data list \<Rightarrow> ct_data list" where
  "clear_freq k tree = foldl (\<lambda>t n. t[n := (t ! n)\<lparr>fc := 0\<rparr>]) tree [0..<k]"

definition init_block :: "deflate_state \<Rightarrow> deflate_state" where
  "init_block s =
     (let s = s\<lparr>dyn_ltree := clear_freq L_CODES (dyn_ltree s)\<rparr>;
          s = s\<lparr>dyn_dtree := clear_freq D_CODES (dyn_dtree s)\<rparr>;
          s = s\<lparr>bl_tree := clear_freq BL_CODES (bl_tree s)\<rparr>;
          s = s\<lparr>dyn_ltree := (dyn_ltree s)[END_BLOCK := (dyn_ltree s ! END_BLOCK)\<lparr>fc := 1\<rparr>]\<rparr>
      in s\<lparr>opt_len := 0, static_len := 0, last_lit := 0, matches := 0\<rparr>)"

text \<open>\<open>_tr_init\<close>; the pointers it sets are those of \<open>dyn_tree\<close> and \<open>stat_desc\<close>.\<close>

definition tr_init :: "deflate_state \<Rightarrow> deflate_state" where
  "tr_init s = init_block (s\<lparr>bi_buf := 0, bi_valid := 0\<rparr>)"

section \<open>Recording literals and matches\<close>

definition inc_freq :: "nat \<Rightarrow> ct_data list \<Rightarrow> ct_data list" where
  "inc_freq n t = t[n := (t ! n)\<lparr>fc := fc (t ! n) + 1\<rparr>]"

definition tr_tally :: "deflate_state \<Rightarrow> u32 \<Rightarrow> u32 \<Rightarrow> deflate_state \<times> bool" where
  "tr_tally s dist lc =
     (let s = s\<lparr>d_buf := (d_buf s)[unat (last_lit s) := ucast dist]\<rparr>;
          s = s\<lparr>l_buf := (l_buf s)[unat (last_lit s) := ucast lc], last_lit := last_lit s + 1\<rparr>;
          s = (if dist = 0 then s\<lparr>dyn_ltree := inc_freq (unat lc) (dyn_ltree s)\<rparr>
               else
                 let s = s\<lparr>matches := matches s + 1\<rparr>;
                     dist = dist - 1;
                     s = s\<lparr>dyn_ltree := inc_freq (unat (length_code ! unat lc) + LITERALS + 1) (dyn_ltree s)\<rparr>
                 in s\<lparr>dyn_dtree := inc_freq (unat (d_code dist)) (dyn_dtree s)\<rparr>)
      in (s, last_lit s = lit_bufsize s - 1))"

definition tr_tally_lit :: "deflate_state \<Rightarrow> u8 \<Rightarrow> deflate_state \<times> bool" where
  "tr_tally_lit s c =
     (let cc = c;
          s = s\<lparr>d_buf := (d_buf s)[unat (last_lit s) := 0]\<rparr>;
          s = s\<lparr>l_buf := (l_buf s)[unat (last_lit s) := cc], last_lit := last_lit s + 1\<rparr>;
          s = s\<lparr>dyn_ltree := inc_freq (unat cc) (dyn_ltree s)\<rparr>
      in (s, last_lit s = lit_bufsize s - 1))"

definition tr_tally_dist :: "deflate_state \<Rightarrow> u32 \<Rightarrow> u32 \<Rightarrow> deflate_state \<times> bool" where
  "tr_tally_dist s distance len =
     (let len = ucast len :: u8;
          dist = ucast distance :: u16;
          s = s\<lparr>d_buf := (d_buf s)[unat (last_lit s) := dist]\<rparr>;
          s = s\<lparr>l_buf := (l_buf s)[unat (last_lit s) := len], last_lit := last_lit s + 1\<rparr>;
          dist = dist - 1;
          s = s\<lparr>dyn_ltree := inc_freq (unat (length_code ! unat len) + LITERALS + 1) (dyn_ltree s)\<rparr>;
          s = s\<lparr>dyn_dtree := inc_freq (unat (d_code (ucast dist))) (dyn_dtree s)\<rparr>
      in (s, last_lit s = lit_bufsize s - 1))"

section \<open>detect\_data\_type\<close>

definition Z_BINARY :: int where "Z_BINARY = 0"
definition Z_TEXT :: int where "Z_TEXT = 1"
definition Z_UNKNOWN :: int where "Z_UNKNOWN = 2"

fun black_loop :: "ct_data list \<Rightarrow> u64 \<Rightarrow> nat list \<Rightarrow> bool" where
  "black_loop t black_mask [] = False"
| "black_loop t black_mask (n # ns) =
     (if black_mask AND 1 \<noteq> 0 \<and> Freq (t ! n) \<noteq> 0 then True else black_loop t (drop_bit 1 black_mask) ns)"

definition detect_data_type :: "deflate_state \<Rightarrow> int" where
  "detect_data_type s =
     (let t = dyn_ltree s in
      if black_loop t 0xf3ffc07f [0..<32] then Z_BINARY
      else if Freq (t ! 9) \<noteq> 0 \<or> Freq (t ! 10) \<noteq> 0 \<or> Freq (t ! 13) \<noteq> 0 then Z_TEXT
      else if list_ex (\<lambda>n. Freq (t ! n) \<noteq> 0) [32..<LITERALS] then Z_TEXT
      else Z_BINARY)"

section \<open>The tokens of a block\<close>

text \<open>A literal byte, or a match of a length between 3 and 258 at a distance between 1 and 32768.\<close>

datatype token = Literal u8 | Match nat nat

fun valid_token :: "token \<Rightarrow> bool" where
  "valid_token (Literal b) \<longleftrightarrow> True"
| "valid_token (Match len dist) \<longleftrightarrow> 3 \<le> len \<and> len \<le> 258 \<and> 1 \<le> dist \<and> dist \<le> 32768"

fun tally_args :: "token \<Rightarrow> u32 \<times> u32" where
  "tally_args (Literal b) = (0, ucast b)"
| "tally_args (Match len dist) = (of_nat dist, of_nat (len - 3))"

fun lit_sym :: "token \<Rightarrow> nat" where
  "lit_sym (Literal b) = unat b"
| "lit_sym (Match len dist) = unat (length_code ! (len - 3)) + LITERALS + 1"

fun dist_syms :: "token \<Rightarrow> nat list" where
  "dist_syms (Literal b) = []"
| "dist_syms (Match len dist) = [unat (d_code (of_nat (dist - 1)))]"

definition lit_syms :: "token list \<Rightarrow> nat list" where
  "lit_syms toks = map lit_sym toks @ [END_BLOCK]"

definition out_fields :: "deflate_state \<Rightarrow> u8 list \<times> u16 \<times> int" where
  "out_fields s = (pending s, bi_buf s, bi_valid s)"

definition tally_all :: "deflate_state \<Rightarrow> token list \<Rightarrow> deflate_state" where
  "tally_all s toks = foldl (\<lambda>s t. fst (tr_tally s (fst (tally_args t)) (snd (tally_args t)))) s toks"

text \<open>The arrays have the sizes they are declared or allocated with.\<close>

definition sizes_ok :: "deflate_state \<Rightarrow> bool" where
  "sizes_ok s \<longleftrightarrow> length (dyn_ltree s) = HEAP_SIZE \<and> length (dyn_dtree s) = 2 * D_CODES + 1 \<and>
     length (bl_tree s) = 2 * BL_CODES + 1 \<and> length (bl_count s) = MAX_BITS + 1 \<and> length (heap s) = HEAP_SIZE \<and>
     length (depth s) = HEAP_SIZE \<and> 0 < lit_bufsize s \<and> unat (lit_bufsize s) \<le> 2 ^ 15 \<and>
     length (l_buf s) = unat (lit_bufsize s) \<and> length (d_buf s) = unat (lit_bufsize s)"

definition freqs :: "ct_data list \<Rightarrow> nat \<Rightarrow> nat list \<Rightarrow> bool" where
  "freqs t k syms \<longleftrightarrow> (\<forall>n < k. unat (Freq (t ! n)) = count_list syms n)"

definition tallied :: "deflate_state \<Rightarrow> token list \<Rightarrow> bool" where
  "tallied s toks \<longleftrightarrow> sizes_ok s \<and> length toks < unat (lit_bufsize s) \<and> list_all valid_token toks \<and>
     unat (last_lit s) = length toks \<and>
     (\<forall>i < length toks. d_buf s ! i = ucast (fst (tally_args (toks ! i))) \<and>
        l_buf s ! i = ucast (snd (tally_args (toks ! i)))) \<and>
     freqs (dyn_ltree s) L_CODES (lit_syms toks) \<and>
     freqs (dyn_dtree s) D_CODES (concat (map dist_syms toks)) \<and>
     freqs (bl_tree s) BL_CODES []"

lemmas code_numbers = L_CODES_def D_CODES_def BL_CODES_def LITERALS_def LENGTH_CODES_def HEAP_SIZE_def
  MAX_BITS_def END_BLOCK_def

lemma clear_freq_nth:
  "k \<le> length t \<Longrightarrow> length (clear_freq k t) = length t \<and>
    clear_freq k t ! n = (if n < k then (t ! n)\<lparr>fc := 0\<rparr> else t ! n)"
  by (induction k) (auto simp: clear_freq_def nth_list_update)

lemma freqs_clear: "k \<le> length t \<Longrightarrow> freqs (clear_freq k t) k []"
  by (simp add: freqs_def clear_freq_nth)

lemma init_block_tallied:
  assumes "sizes_ok s"
  shows "tallied (init_block s) []"
proof -
  have "L_CODES \<le> length (dyn_ltree s)" "D_CODES \<le> length (dyn_dtree s)" "BL_CODES \<le> length (bl_tree s)"
    using assms by (simp_all add: sizes_ok_def HEAP_SIZE_def)
  note c = this clear_freq_nth [OF this(1)] clear_freq_nth [OF this(2)] clear_freq_nth [OF this(3)]
  have "freqs (dyn_ltree (init_block s)) L_CODES (lit_syms [])"
    using c assms unfolding freqs_def
    by (auto simp: init_block_def Let_def lit_syms_def nth_list_update sizes_ok_def HEAP_SIZE_def)
  then show ?thesis
    using c assms
    by (auto simp: tallied_def sizes_ok_def init_block_def Let_def freqs_clear word_less_nat_alt unat_gt_0)
qed

lemma init_block_sink [simp]:
  "pending (init_block s) = pending s" "bi_buf (init_block s) = bi_buf s" "bi_valid (init_block s) = bi_valid s"
  by (simp_all add: init_block_def Let_def)

lemma inc_freq_length [simp]: "length (inc_freq n t) = length t"
  by (simp add: inc_freq_def)

lemma freqs_inc:
  assumes f: "freqs t k syms" and l: "length syms < 2 ^ 16 - 1" and n: "n < k" "k \<le> length t"
  shows "freqs (inc_freq n t) k (syms @ [n])"
proof -
  have "unat (Freq (t ! n)) = count_list syms n" using f n by (simp add: freqs_def)
  moreover have "count_list syms n \<le> length syms" by (rule count_le_length)
  ultimately have "unat (Freq (t ! n) + 1) = count_list syms n + 1"
    using l by (subst unat_add_small) simp_all
  then show ?thesis
    using f n by (auto simp: freqs_def inc_freq_def nth_list_update)
qed

lemma freqs_cong: "freqs t k syms \<Longrightarrow> (\<And>n. count_list syms n = count_list syms' n) \<Longrightarrow> freqs t k syms'"
  by (simp add: freqs_def)

lemma uint_less_unat: "uint (c :: u8) < int k \<Longrightarrow> unat c < k"
  by (metis of_nat_less_iff uint_nat)

lemma length_code_less:
  assumes "n < 256"
  shows "unat (length_code ! n) < LENGTH_CODES"
proof -
  have "length_entry_ok (uint (of_nat n :: u8)) (length_code ! unat (of_nat n :: u8))"
    by (rule length_code_entry)
  moreover have "unat (of_nat n :: u8) = n" using assms by (simp add: unat_of_nat_small)
  ultimately have "uint (length_code ! n) < int LENGTH_CODES"
    by (simp only: length_entry_ok_def Let_def LENGTH_CODES_def of_nat_numeral)
  then show ?thesis by (rule uint_less_unat)
qed

lemma d_code_less:
  assumes "d < 2 ^ 15"
  shows "unat (d_code d) < D_CODES"
proof -
  obtain lo hi where "dist_entry_ok lo hi (d_code d)" using dist_code_entry [OF assms] by blast
  then have "uint (d_code d) < int D_CODES"
    by (simp only: dist_entry_ok_def Let_def D_CODES_def of_nat_numeral)
  then show ?thesis by (rule uint_less_unat)
qed

lemma valid_dist_word:
  assumes "valid_token (Match len dist)"
  shows "unat (of_nat (dist - 1) :: u32) = dist - 1" "of_nat (dist - 1) < (2 ^ 15 :: u32)"
    "(of_nat dist :: u32) \<noteq> 0" "of_nat dist - (1 :: u32) = of_nat (dist - 1)" "unat (of_nat dist :: u32) = dist"
proof -
  have d: "dist - 1 < 2 ^ 15" "1 \<le> dist" "dist < 2 ^ 32" using assms by auto
  then show 1: "unat (of_nat (dist - 1) :: u32) = dist - 1" "unat (of_nat dist :: u32) = dist"
    by (intro unat_of_nat_small; simp)+
  show "of_nat (dist - 1) < (2 ^ 15 :: u32)"
    unfolding word_less_nat_alt 1(1) using d(1) unat_2_power [of 15, where 'a = 32] by simp
  show "(of_nat dist :: u32) \<noteq> 0" using 1(2) d(2) by auto
  show "of_nat dist - (1 :: u32) = of_nat (dist - 1)" using d(2) by (simp add: of_nat_diff)
qed

lemma sym_range:
  assumes "valid_token tok"
  shows "lit_sym tok < L_CODES" "\<forall>d \<in> set (dist_syms tok). d < D_CODES"
proof -
  have "unat b < L_CODES" for b :: u8 using unat_u8_le [of b] by (simp add: code_numbers)
  then show "lit_sym tok < L_CODES"
    using assms length_code_less [of "case tok of Match len d \<Rightarrow> len - 3"]
    by (cases tok) (auto simp: L_CODES_def)
  show "\<forall>d \<in> set (dist_syms tok). d < D_CODES"
    using assms valid_dist_word(2) d_code_less by (cases tok) auto
qed

lemma dist_syms_length: "length (concat (map dist_syms toks)) \<le> length toks"
proof (induction toks)
  case (Cons t toks)
  then show ?case by (cases t) auto
qed simp

text \<open>What \<open>_tr_tally\<close> does for each kind of token.\<close>

lemma unat_ucast_byte: "unat (ucast (b :: u8) :: u32) = unat b"
  using unat_u8_le [of b] by (simp add: unsigned_ucast_eq take_bit_nat_eq_self)

lemma unat_len_word: "len \<le> 258 \<Longrightarrow> unat (of_nat (len - 3) :: u32) = len - 3"
  by (rule unat_of_nat_small) simp

lemma tr_tally_literal:
  "tr_tally s 0 (ucast (b :: u8)) =
    (s\<lparr>d_buf := (d_buf s)[unat (last_lit s) := 0], l_buf := (l_buf s)[unat (last_lit s) := ucast (ucast b :: u32)],
       last_lit := last_lit s + 1, dyn_ltree := inc_freq (unat b) (dyn_ltree s)\<rparr>,
     last_lit s + 1 = lit_bufsize s - 1)"
  by (simp add: tr_tally_def Let_def unat_ucast_byte)

lemma tr_tally_match:
  assumes "valid_token (Match len dist)"
  shows "tr_tally s (of_nat dist) (of_nat (len - 3)) =
    (s\<lparr>d_buf := (d_buf s)[unat (last_lit s) := ucast (of_nat dist :: u32)],
       l_buf := (l_buf s)[unat (last_lit s) := ucast (of_nat (len - 3) :: u32)],
       last_lit := last_lit s + 1, matches := matches s + 1,
       dyn_ltree := inc_freq (lit_sym (Match len dist)) (dyn_ltree s),
       dyn_dtree := inc_freq (unat (d_code (of_nat (dist - 1)))) (dyn_dtree s)\<rparr>,
     last_lit s + 1 = lit_bufsize s - 1)"
proof -
  have "len \<le> 258" using assms by simp
  note l = unat_len_word [OF this]
  show ?thesis
    unfolding tr_tally_def Let_def valid_dist_word(4) [OF assms] l
    using valid_dist_word(3) [OF assms] by simp
qed

lemma tr_tally_eq:
  assumes "valid_token tok"
  obtains m where "tr_tally s (fst (tally_args tok)) (snd (tally_args tok)) =
    (s\<lparr>d_buf := (d_buf s)[unat (last_lit s) := ucast (fst (tally_args tok))],
       l_buf := (l_buf s)[unat (last_lit s) := ucast (snd (tally_args tok))],
       last_lit := last_lit s + 1, matches := m,
       dyn_ltree := inc_freq (lit_sym tok) (dyn_ltree s),
       dyn_dtree := foldr inc_freq (dist_syms tok) (dyn_dtree s)\<rparr>,
     last_lit s + 1 = lit_bufsize s - 1)"
proof (cases tok)
  case (Literal b)
  show ?thesis
    by (rule that [of "matches s"]) (simp only: Literal tally_args.simps fst_conv snd_conv tr_tally_literal, simp)
next
  case (Match len dist)
  note v = assms [unfolded Match]
  show ?thesis
    by (rule that [of "matches s + 1"])
      (simp only: Match tally_args.simps fst_conv snd_conv tr_tally_match [OF v] dist_syms.simps foldr.simps o_apply id_apply)
qed

lemma tr_tally_fields:
  fixes s :: deflate_state
  assumes "valid_token tok"
  defines "r \<equiv> fst (tr_tally s (fst (tally_args tok)) (snd (tally_args tok)))"
  shows "dyn_ltree r = inc_freq (lit_sym tok) (dyn_ltree s)"
    "dyn_dtree r = foldr inc_freq (dist_syms tok) (dyn_dtree s)"
    "d_buf r = (d_buf s)[unat (last_lit s) := ucast (fst (tally_args tok))]"
    "l_buf r = (l_buf s)[unat (last_lit s) := ucast (snd (tally_args tok))]"
    "last_lit r = last_lit s + 1"
    "bl_tree r = bl_tree s" "bl_count r = bl_count s" "heap r = heap s" "depth r = depth s"
    "lit_bufsize r = lit_bufsize s" "out_fields r = out_fields s" "level r = level s"
    "strategy r = strategy s" "data_type r = data_type s"
    "snd (tr_tally s (fst (tally_args tok)) (snd (tally_args tok))) \<longleftrightarrow> last_lit s + 1 = lit_bufsize s - 1"
  unfolding r_def by (rule tr_tally_eq [OF assms(1), of s]; simp add: out_fields_def)+

lemma tr_tally_tallied:
  assumes t: "tallied s toks" and v: "valid_token tok" and l: "length toks + 1 < unat (lit_bufsize s)"
  shows "tallied (fst (tr_tally s (fst (tally_args tok)) (snd (tally_args tok)))) (toks @ [tok])"
proof -
  let ?r = "fst (tr_tally s (fst (tally_args tok)) (snd (tally_args tok)))"
  note f = tr_tally_fields [OF v, of s]
  have s: "sizes_ok s" "unat (last_lit s) = length toks" "unat (lit_bufsize s) \<le> 2 ^ 15"
    "length (d_buf s) = unat (lit_bufsize s)" "length (l_buf s) = unat (lit_bufsize s)"
    using t by (simp_all add: tallied_def sizes_ok_def)
  have "freqs (inc_freq (lit_sym tok) (dyn_ltree s)) L_CODES (lit_syms toks @ [lit_sym tok])"
    using t s(1,3) l sym_range(1) [OF v]
    by (intro freqs_inc) (simp_all add: tallied_def lit_syms_def sizes_ok_def HEAP_SIZE_def)
  then have lf: "freqs (dyn_ltree ?r) L_CODES (lit_syms (toks @ [tok]))"
    unfolding f by (rule freqs_cong) (simp add: lit_syms_def)
  have df: "freqs (dyn_dtree ?r) D_CODES (concat (map dist_syms (toks @ [tok])))"
  proof (cases tok)
    case (Literal b)
    then show ?thesis using t unfolding f by (simp add: tallied_def)
  next
    case (Match len dist)
    have "length (concat (map dist_syms toks)) < 2 ^ 16 - 1"
      using dist_syms_length [of toks] l s(3) by simp
    then show ?thesis
      using t sym_range(2) [OF v] Match freqs_inc [of "dyn_dtree s" D_CODES "concat (map dist_syms toks)"]
      unfolding f by (simp add: tallied_def sizes_ok_def)
  qed
  have inc: "unat (last_lit s + 1) = length toks + 1"
    using l s(2,3) by (subst unat_add_small) simp_all
  have szs: "sizes_ok ?r"
    using s(1) unfolding sizes_ok_def f by (cases tok) simp_all
  show ?thesis
    using t v l s szs lf df inc
    unfolding tallied_def f
    by (auto simp: nth_append nth_list_update less_Suc_eq)
qed

lemma tally_all_tallied:
  assumes "tallied s []" "list_all valid_token toks" "length toks < unat (lit_bufsize s)"
  shows "tallied (tally_all s toks) toks \<and> out_fields (tally_all s toks) = out_fields s \<and>
    lit_bufsize (tally_all s toks) = lit_bufsize s \<and> level (tally_all s toks) = level s \<and>
    strategy (tally_all s toks) = strategy s \<and> data_type (tally_all s toks) = data_type s"
  using assms(2,3)
proof (induction toks rule: rev_induct)
  case Nil
  then show ?case using assms(1) by (simp add: tally_all_def)
next
  case (snoc tok toks)
  then have v: "valid_token tok" and IH: "tallied (tally_all s toks) toks"
    "out_fields (tally_all s toks) = out_fields s" "lit_bufsize (tally_all s toks) = lit_bufsize s"
    "level (tally_all s toks) = level s" "strategy (tally_all s toks) = strategy s"
    "data_type (tally_all s toks) = data_type s"
    by simp_all
  have e: "tally_all s (toks @ [tok]) = fst (tr_tally (tally_all s toks) (fst (tally_args tok)) (snd (tally_args tok)))"
    by (simp add: tally_all_def)
  have "tallied (tally_all s (toks @ [tok])) (toks @ [tok])"
    unfolding e using snoc.prems(2) IH by (intro tr_tally_tallied v) simp_all
  then show ?case
    using IH(2-) unfolding e tr_tally_fields [OF v] by simp
qed

text \<open>The inline versions differ only in the field \<open>matches\<close>.\<close>

lemma tally_lit_eq: "tr_tally_lit s c = tr_tally s 0 (ucast c)"
proof -
  have "unat (ucast c :: u32) = unat c"
    using unat_u8_le [of c] by (simp add: unsigned_ucast_eq take_bit_nat_eq_self)
  moreover have "ucast (ucast c :: u32) = c" by (rule bit_word_eqI) (simp add: bit_simps)
  ultimately show ?thesis by (simp add: tr_tally_lit_def tr_tally_def Let_def)
qed

lemma tally_dist_eq:
  assumes "valid_token (Match len dist)"
  shows "tr_tally_dist s (of_nat dist) (of_nat (len - 3)) =
    (let (r, flush) = tr_tally s (of_nat dist) (of_nat (len - 3)) in (r\<lparr>matches := matches s\<rparr>, flush))"
proof -
  have len: "len \<le> 258" "len - 3 < 256" using assms by auto
  then have l: "unat (ucast (of_nat (len - 3) :: u32) :: u8) = unat (of_nat (len - 3) :: u32)"
    by (simp only: unsigned_ucast_eq unat_len_word) (simp add: take_bit_nat_eq_self)
  have d: "dist < 2 ^ 16" "0 < dist" "dist - 1 < 2 ^ 16" using assms by auto
  have "unat (ucast (of_nat dist :: u32) - (1 :: u16)) = dist - 1"
  proof -
    have "unat (ucast (of_nat dist :: u32) :: u16) = dist"
      using d(1) by (simp only: unsigned_ucast_eq valid_dist_word(5) [OF assms]) (simp add: take_bit_nat_eq_self)
    then show ?thesis using d(2) by (subst unat_sub_small) simp_all
  qed
  then have "unat (ucast (ucast (of_nat dist :: u32) - (1 :: u16)) :: u32) = dist - 1"
    using d(3) by (simp only: unsigned_ucast_eq) (simp add: take_bit_nat_eq_self)
  then have "(ucast (ucast (of_nat dist :: u32) - (1 :: u16)) :: u32) = of_nat dist - 1"
    unfolding valid_dist_word(4) [OF assms] word_unat_eq_iff valid_dist_word(1) [OF assms] .
  then show ?thesis
    using l valid_dist_word(3) [OF assms] by (simp add: tr_tally_dist_def tr_tally_def Let_def)
qed

section \<open>Properties\<close>

text \<open>
  C7: the state after \<open>_tr_init\<close> and any sequence of fewer than \<open>lit_bufsize\<close> valid literals and
  matches. The buffers hold the tokens in order, every frequency field is the number of occurrences
  of its symbol (with the end of block once), none of the 16-bit counters overflows, no array
  changes its size, and neither the bit buffer nor the output is touched. \<open>_tr_tally\<close> asks for the
  block to be flushed exactly when the next token would fill the buffer, and the inline versions do
  the same but for the statistic \<open>matches\<close>.
\<close>
theorem tr_tally_correct:
  assumes "sizes_ok s" "list_all valid_token toks" "length toks < unat (lit_bufsize s)"
  shows "let r = tally_all (tr_init s) toks in
    tallied r toks \<and> pending r = pending s \<and> bi_valid r = 0 \<and>
    (\<forall>tok. valid_token tok \<longrightarrow>
      (snd (tr_tally r (fst (tally_args tok)) (snd (tally_args tok))) \<longleftrightarrow> length toks + 1 = unat (lit_bufsize s) - 1) \<and>
      (case tok of
         Literal b \<Rightarrow> tr_tally_lit r b = tr_tally r 0 (ucast b)
       | Match len dist \<Rightarrow> tr_tally_dist r (of_nat dist) (of_nat (len - 3)) =
           (let (q, flush) = tr_tally r (of_nat dist) (of_nat (len - 3)) in (q\<lparr>matches := matches r\<rparr>, flush))))"
proof -
  have "sizes_ok (s\<lparr>bi_buf := 0, bi_valid := 0\<rparr>)" using assms(1) by (simp add: sizes_ok_def)
  then have t: "tallied (tr_init s) []" by (simp add: tr_init_def init_block_tallied)
  have b: "lit_bufsize (tr_init s) = lit_bufsize s" "pending (tr_init s) = pending s" "bi_valid (tr_init s) = 0"
    by (simp_all add: tr_init_def init_block_def Let_def)
  let ?r = "tally_all (tr_init s) toks"
  have r: "tallied ?r toks" "out_fields ?r = out_fields (tr_init s)" "lit_bufsize ?r = lit_bufsize s"
    using tally_all_tallied [OF t assms(2)] assms(3) b by simp_all
  have sb: "0 < lit_bufsize s" "unat (last_lit ?r) = length toks" "unat (lit_bufsize s) \<le> 2 ^ 15"
    using r(1) assms(1) by (simp_all add: tallied_def sizes_ok_def)
  have "unat (last_lit ?r + 1) = length toks + 1" "unat (lit_bufsize s - 1) = unat (lit_bufsize s) - 1"
    using assms(3) sb by (subst unat_add_small; simp)+ (subst unat_sub_small; use assms(3) in \<open>simp add: Suc_le_eq\<close>)
  then have "last_lit ?r + 1 = lit_bufsize s - 1 \<longleftrightarrow> length toks + 1 = unat (lit_bufsize s) - 1"
    by (metis word_unat_eq_iff)
  then show ?thesis
    using r b tr_tally_fields(15) [of _ ?r] tally_dist_eq [of _ _ ?r] unfolding Let_def
    by (auto simp: out_fields_def tally_lit_eq split: token.splits)
qed

text \<open>A state for the witnesses.\<close>

definition sample_state :: deflate_state where
  "sample_state = \<lparr>pending = [], lit_bufsize = 8, d_buf = replicate 8 0, l_buf = replicate 8 0, bi_buf = 0, bi_valid = 0, level = 6, strategy = 0, data_type = Z_UNKNOWN,
     dyn_ltree = replicate HEAP_SIZE \<lparr>fc = 0, dl = 0\<rparr>, dyn_dtree = replicate (2 * D_CODES + 1) \<lparr>fc = 0, dl = 0\<rparr>,
     bl_tree = replicate (2 * BL_CODES + 1) \<lparr>fc = 0, dl = 0\<rparr>, l_max_code = 0, d_max_code = 0, bl_max_code = 0,
     bl_count = replicate (MAX_BITS + 1) 0, heap = replicate HEAP_SIZE 0, heap_len = 0, heap_max = 0,
     depth = replicate HEAP_SIZE 0, last_lit = 0,
     opt_len = 0, static_len = 0, matches = 0\<rparr>"

lemma sample_state_sizes: "sizes_ok sample_state"
  by (simp add: sizes_ok_def sample_state_def)

lemma tr_tally_correct_witness:
  "tallied (tally_all (tr_init sample_state) [Literal 97, Match 3 1]) [Literal 97, Match 3 1]"
  using tr_tally_correct [OF sample_state_sizes, of "[Literal 97, Match 3 1]"]
  by (simp add: Let_def sample_state_def)

lemma black_loop_ex:
  "black_loop t m ns \<longleftrightarrow> (\<exists>i < length ns. bit m i \<and> Freq (t ! (ns ! i)) \<noteq> 0)"
proof (induction ns arbitrary: m)
  case (Cons n ns)
  have "m AND 1 \<noteq> 0 \<longleftrightarrow> bit m 0" by (simp add: and_one_eq bit_0 odd_iff_mod_2_eq_one)
  moreover have "(\<exists>i < Suc (length ns). bit m i \<and> Freq (t ! ((n # ns) ! i)) \<noteq> 0) \<longleftrightarrow>
      bit m 0 \<and> Freq (t ! n) \<noteq> 0 \<or> (\<exists>i < length ns. bit m (Suc i) \<and> Freq (t ! (ns ! i)) \<noteq> 0)"
    by (subst Ex_less_Suc2) simp
  ultimately show ?case
    unfolding black_loop.simps Cons [of "drop_bit 1 m"] length_Cons by (auto simp: bit_drop_bit_eq)
qed simp

text \<open>
  \<open>detect_data_type\<close> as its comment specifies it: the data is text if none of the non-portable control
  characters occurs among the literals and at least one of TAB, LF, CR or a character from 32 on does, and binary otherwise.
\<close>
theorem detect_data_type_correct:
  "detect_data_type s =
     (if \<not> (\<exists>n \<in> {0..6} \<union> {14..25} \<union> {28..31}. Freq (dyn_ltree s ! n) \<noteq> 0) \<and>
         (\<exists>n \<in> {9, 10, 13} \<union> {32..255}. Freq (dyn_ltree s ! n) \<noteq> 0)
      then Z_TEXT else Z_BINARY)"
proof -
  have mask: "bit (0xf3ffc07f :: u64) i \<longleftrightarrow> i \<in> {0..6} \<union> {14..25} \<union> {28..31}" if "i < 32" for i
  proof -
    have "list_all (\<lambda>i. bit (0xf3ffc07f :: u64) i \<longleftrightarrow> (i \<le> 6 \<or> 14 \<le> i \<and> i \<le> 25 \<or> 28 \<le> i)) [0..<32]"
      by code_simp
    then show ?thesis using that by (auto simp: list_all_iff)
  qed
  have b: "black_loop (dyn_ltree s) 0xf3ffc07f [0..<32] \<longleftrightarrow> (\<exists>n \<in> {0..6} \<union> {14..25} \<union> {28..31}. Freq (dyn_ltree s ! n) \<noteq> 0)"
    (is "?l \<longleftrightarrow> ?r")
  proof
    assume ?l
    then obtain i where "i < 32" "bit (0xf3ffc07f :: u64) i" "Freq (dyn_ltree s ! i) \<noteq> 0" unfolding black_loop_ex by auto
    then show ?r using mask by blast
  next
    assume ?r
    then obtain n where n: "n \<in> {0..6} \<union> {14..25} \<union> {28..31}" "Freq (dyn_ltree s ! n) \<noteq> 0" by blast
    then have "n < 32" by auto
    then show ?l using n mask [of n] unfolding black_loop_ex by (intro exI [of _ n]) simp
  qed
  have "(256 :: nat) = Suc 255" by simp
  then have "set [32..<256] = {32..255 :: nat}" by (simp only: set_upt atLeastLessThanSuc_atLeastAtMost)
  then have w: "(Freq (dyn_ltree s ! 9) \<noteq> 0 \<or> Freq (dyn_ltree s ! 10) \<noteq> 0 \<or> Freq (dyn_ltree s ! 13) \<noteq> 0) \<or>
      list_ex (\<lambda>n. Freq (dyn_ltree s ! n) \<noteq> 0) [32..<256] \<longleftrightarrow> (\<exists>n \<in> {9, 10, 13} \<union> {32..255}. Freq (dyn_ltree s ! n) \<noteq> 0)"
    unfolding list_ex_iff by (simp only: bex_Un bex_simps disj_assoc simp_thms)
  have "(if g then x else if v then y else if v' then y else x) = (if \<not> g \<and> (v \<or> v') then y else x)" for g v v' and x y :: int
    by simp
  then show ?thesis
    unfolding detect_data_type_def Let_def LITERALS_def b w [symmetric] .
qed

end
