(* ===== verification/Tr_Scan.thy ===== *)
theory Tr_Scan
  imports Tr_State
begin

text \<open>
  The run-length coding of the code lengths in \<open>zlib_archive/trees.c\<close>: \<open>scan_tree\<close> counts the
  symbols that \<open>send_tree\<close> sends. Both go through the same list of items, and expanding the items
  as RFC 1951, 3.2.7, says gives the code lengths back.
\<close>

section \<open>The code\<close>

definition send_code :: "'s bit_sink_scheme \<Rightarrow> nat \<Rightarrow> ct_data list \<Rightarrow> 's bit_sink_scheme" where
  "send_code s c tree = send_bits s (ucast (Code (tree ! c))) (uint (Len (tree ! c)))"

definition add_freq :: "nat \<Rightarrow> int \<Rightarrow> ct_data list \<Rightarrow> ct_data list" where
  "add_freq n count t = t[n := (t ! n)\<lparr>fc := fc (t ! n) + of_int count\<rparr>]"

text \<open>The limits chosen at the end of the loop bodies of \<open>scan_tree\<close> and \<open>send_tree\<close>.\<close>

definition run_limits :: "int \<Rightarrow> int \<Rightarrow> int \<times> int" where
  "run_limits curlen nextlen =
     (if nextlen = 0 then (138, 3) else if curlen = nextlen then (6, 3) else (7, 4))"

text \<open>The local variables \<open>prevlen\<close>, \<open>nextlen\<close>, \<open>count\<close>, \<open>max_count\<close> and \<open>min_count\<close>.\<close>

type_synonym run_vars = "int \<times> int \<times> int \<times> int \<times> int"

definition scan_step :: "tree_id \<Rightarrow> deflate_state \<times> run_vars \<Rightarrow> nat \<Rightarrow> deflate_state \<times> run_vars" where
  "scan_step t st n =
     (let (s, prevlen, nextlen, count, max_count, min_count) = st;
          curlen = nextlen;
          nextlen = uint (Len (dyn_tree t s ! (n + 1)));
          count = count + 1
      in if count < max_count \<and> curlen = nextlen then (s, prevlen, nextlen, count, max_count, min_count)
         else
           let s = (if count < min_count then s\<lparr>bl_tree := add_freq (nat curlen) count (bl_tree s)\<rparr>
                    else if curlen \<noteq> 0 then
                      let s = (if curlen \<noteq> prevlen then s\<lparr>bl_tree := inc_freq (nat curlen) (bl_tree s)\<rparr> else s)
                      in s\<lparr>bl_tree := inc_freq REP_3_6 (bl_tree s)\<rparr>
                    else if count \<le> 10 then s\<lparr>bl_tree := inc_freq REPZ_3_10 (bl_tree s)\<rparr>
                    else s\<lparr>bl_tree := inc_freq REPZ_11_138 (bl_tree s)\<rparr>);
               (max_count, min_count) = run_limits curlen nextlen
           in (s, curlen, nextlen, 0, max_count, min_count))"

definition scan_tree :: "deflate_state \<Rightarrow> tree_id \<Rightarrow> int \<Rightarrow> deflate_state" where
  "scan_tree s t max_code =
     (let nextlen = uint (Len (dyn_tree t s ! 0));
          (max_count, min_count) = (if nextlen = 0 then (138, 3) else (7, 4));
          g = nat (max_code + 1);
          s = set_tree t ((dyn_tree t s)[g := (dyn_tree t s ! g)\<lparr>dl := 0xffff\<rparr>]) s
      in fst (foldl (scan_step t) (s, -1, nextlen, 0, max_count, min_count) [0..<nat (max_code + 1)]))"

text \<open>The loop \<open>do { send_code(s, curlen, s->bl_tree); } while (--count != 0)\<close>, for \<open>count \<ge> 1\<close>.\<close>

fun send_copies :: "deflate_state \<Rightarrow> nat \<Rightarrow> nat \<Rightarrow> deflate_state" where
  "send_copies s curlen count =
     (let s = send_code s curlen (bl_tree s) in
      if count - 1 \<noteq> 0 then send_copies s curlen (count - 1) else s)"

declare send_copies.simps [simp del]

definition send_step :: "tree_id \<Rightarrow> deflate_state \<times> run_vars \<Rightarrow> nat \<Rightarrow> deflate_state \<times> run_vars" where
  "send_step t st n =
     (let (s, prevlen, nextlen, count, max_count, min_count) = st;
          curlen = nextlen;
          nextlen = uint (Len (dyn_tree t s ! (n + 1)));
          count = count + 1
      in if count < max_count \<and> curlen = nextlen then (s, prevlen, nextlen, count, max_count, min_count)
         else
           let s = (if count < min_count then send_copies s (nat curlen) (nat count)
                    else if curlen \<noteq> 0 then
                      let (s, count) = (if curlen \<noteq> prevlen then (send_code s (nat curlen) (bl_tree s), count - 1)
                                        else (s, count));
                          s = send_code s REP_3_6 (bl_tree s)
                      in send_bits s (of_int (count - 3)) 2
                    else if count \<le> 10 then
                      let s = send_code s REPZ_3_10 (bl_tree s) in send_bits s (of_int (count - 3)) 3
                    else
                      let s = send_code s REPZ_11_138 (bl_tree s) in send_bits s (of_int (count - 11)) 7);
               (max_count, min_count) = run_limits curlen nextlen
           in (s, curlen, nextlen, 0, max_count, min_count))"

definition send_tree :: "deflate_state \<Rightarrow> tree_id \<Rightarrow> int \<Rightarrow> deflate_state" where
  "send_tree s t max_code =
     (let nextlen = uint (Len (dyn_tree t s ! 0));
          (max_count, min_count) = (if nextlen = 0 then (138, 3) else (7, 4))
      in fst (foldl (send_step t) (s, -1, nextlen, 0, max_count, min_count) [0..<nat (max_code + 1)]))"

section \<open>The items\<close>

text \<open>A symbol of the bit length code, the value of its extra bits and their number.\<close>

type_synonym item = "nat \<times> nat \<times> nat"

definition emit :: "int \<Rightarrow> int \<Rightarrow> int \<Rightarrow> int \<Rightarrow> item list" where
  "emit prevlen curlen count min_count =
     (if count < min_count then replicate (nat count) (nat curlen, 0, 0)
      else if curlen \<noteq> 0 then
        if curlen \<noteq> prevlen then [(nat curlen, 0, 0), (16, nat (count - 4), 2)] else [(16, nat (count - 3), 2)]
      else if count \<le> 10 then [(17, nat (count - 3), 3)]
      else [(18, nat (count - 11), 7)])"

definition rle_step :: "int list \<Rightarrow> item list \<times> run_vars \<Rightarrow> nat \<Rightarrow> item list \<times> run_vars" where
  "rle_step ls st n =
     (let (items, prevlen, curlen, count, max_count, min_count) = st; nextlen = ls ! (n + 1) in
      if count + 1 < max_count \<and> curlen = nextlen then (items, prevlen, nextlen, count + 1, max_count, min_count)
      else (items @ emit prevlen curlen (count + 1) min_count, curlen, nextlen, 0, run_limits curlen nextlen))"

definition rle_start :: "int list \<Rightarrow> item list \<times> run_vars" where
  "rle_start ls = ([], -1, ls ! 0, 0, run_limits (-1) (ls ! 0))"

definition rle :: "int list \<Rightarrow> nat \<Rightarrow> item list" where
  "rle ls m = fst (foldl (rle_step ls) (rle_start ls) [0..<m])"

text \<open>Expansion of the items, after the lengths \<open>acc\<close>.\<close>

fun expand_item :: "nat list \<Rightarrow> item \<Rightarrow> nat list" where
  "expand_item acc (c, v, k) =
     (if c < 16 then acc @ [c]
      else if c = 16 then acc @ replicate (3 + v) (last acc)
      else if c = 17 then acc @ replicate (3 + v) 0
      else acc @ replicate (11 + v) 0)"

definition expand :: "nat list \<Rightarrow> item list \<Rightarrow> nat list" where
  "expand acc items = foldl expand_item acc items"

fun item_ok :: "item \<Rightarrow> bool" where
  "item_ok (c, v, k) \<longleftrightarrow> v < 2 ^ k \<and>
     (c < 16 \<and> k = 0 \<or> c = 16 \<and> k = 2 \<or> c = 17 \<and> k = 3 \<or> c = 18 \<and> k = 7)"

text \<open>Every item is well-formed, and a repetition has a length to repeat.\<close>

fun items_ok :: "nat list \<Rightarrow> item list \<Rightarrow> bool" where
  "items_ok acc [] \<longleftrightarrow> True"
| "items_ok acc (i # items) \<longleftrightarrow> item_ok i \<and> (fst i = 16 \<longrightarrow> acc \<noteq> []) \<and> items_ok (expand_item acc i) items"

lemma expand_simps [simp]: "expand acc [] = acc" "expand acc (i # is) = expand (expand_item acc i) is"
  "expand acc (is @ js) = expand (expand acc is) js"
  by (simp_all add: expand_def)

lemma items_ok_append [simp]: "items_ok acc (is @ js) \<longleftrightarrow> items_ok acc is \<and> items_ok (expand acc is) js"
  by (induction "is" arbitrary: acc) simp_all

lemma expand_literals: "c < 16 \<Longrightarrow> expand acc (replicate k (c, 0, 0)) = acc @ replicate k c"
  by (induction k arbitrary: acc) (simp_all add: replicate_app_Cons_same)

lemma items_ok_literals: "c < 16 \<Longrightarrow> items_ok acc (replicate k (c, 0, 0))"
  by (induction k arbitrary: acc) simp_all

lemma emit_expand:
  assumes c: "0 \<le> cur" "cur \<le> 15" and n: "1 \<le> count" "count \<le> max_count"
    and l: "(max_count, min_count) = run_limits prev cur"
    and p: "prev = cur \<Longrightarrow> acc \<noteq> [] \<and> int (last acc) = cur"
  shows "expand acc (emit prev cur count min_count) = acc @ replicate (nat count) (nat cur)"
    and "items_ok acc (emit prev cur count min_count)"
proof -
  have e1: "expand acc (emit prev cur count min_count) = acc @ replicate (nat count) (nat cur) \<and>
      items_ok acc (emit prev cur count min_count)" if "count < min_count"
    using that c by (simp add: emit_def expand_literals items_ok_literals)
  have e2: "expand acc (emit prev cur count min_count) = acc @ replicate (nat count) (nat cur) \<and>
      items_ok acc (emit prev cur count min_count)" if "\<not> count < min_count" "cur = 0"
  proof -
    have lim: "max_count = 138" "min_count = 3" using l that(2) by (simp_all add: run_limits_def)
    obtain k where k: "count = int k" using n(1) by (metis nonneg_int_cases order_trans zero_le_one)
    have "3 \<le> k" "k \<le> 138" using that(1) lim n(2) by (simp_all add: k)
    then show ?thesis
      using that lim by (auto simp: emit_def k nat_diff_distrib replicate_add [symmetric])
  qed
  have e3: "expand acc (emit prev cur count min_count) = acc @ replicate (nat count) (nat cur) \<and>
      items_ok acc (emit prev cur count min_count)" if "\<not> count < min_count" "cur \<noteq> 0" "cur = prev"
  proof -
    have lim: "max_count = 6" "min_count = 3" using l that(2,3) by (simp_all add: run_limits_def)
    obtain k where k: "count = int k" using n(1) by (metis nonneg_int_cases order_trans zero_le_one)
    have "3 \<le> k" "k \<le> 6" using that(1) lim n(2) by (simp_all add: k)
    moreover have "acc \<noteq> []" "last acc = nat cur" using p that(3) by auto
    ultimately show ?thesis
      using that lim by (auto simp: emit_def k nat_diff_distrib)
  qed
  have e4: "expand acc (emit prev cur count min_count) = acc @ replicate (nat count) (nat cur) \<and>
      items_ok acc (emit prev cur count min_count)" if "\<not> count < min_count" "cur \<noteq> 0" "cur \<noteq> prev"
  proof -
    have lim: "max_count = 7" "min_count = 4" using l that(2,3) by (simp_all add: run_limits_def)
    obtain k where k: "count = int k" using n(1) by (metis nonneg_int_cases order_trans zero_le_one)
    have "4 \<le> k" "k \<le> 7" using that(1) lim n(2) by (simp_all add: k)
    define j where "j = k - 4"
    have j: "k = Suc (3 + j)" "j \<le> 3" using \<open>4 \<le> k\<close> \<open>k \<le> 7\<close> by (simp_all add: j_def)
    moreover have "nat (int k) = Suc (3 + j)" "nat (int k - 4) = j"
      "replicate (4 + j) (nat cur) = nat cur # replicate (3 + j) (nat cur)"
      using j by (simp_all add: eval_nat_numeral)
    ultimately show ?thesis
      using that lim c by (auto simp: emit_def k nat_less_iff)
  qed
  show "expand acc (emit prev cur count min_count) = acc @ replicate (nat count) (nat cur)"
    and "items_ok acc (emit prev cur count min_count)"
    using e1 e2 e3 e4 by blast+
qed

text \<open>
  The state of the loops after \<open>n\<close> lengths: the items expand to the lengths before the current
  run, the run has \<open>count\<close> lengths so far, all equal to the next length, and the limits are those
  that belong to the length before the run and the one of the run.
\<close>

definition rle_inv :: "int list \<Rightarrow> nat list \<Rightarrow> nat \<Rightarrow> item list \<times> run_vars \<Rightarrow> bool" where
  "rle_inv ls acc n st \<longleftrightarrow>
     (let (items, prevlen, nextlen, count, max_count, min_count) = st; k = n - nat count in
      0 \<le> count \<and> nat count \<le> n \<and> count < max_count \<and> nextlen = ls ! n \<and>
      (\<forall>i. k \<le> i \<and> i < n \<longrightarrow> ls ! i = nextlen) \<and>
      (max_count, min_count) = run_limits prevlen nextlen \<and>
      prevlen = (if k = 0 then -1 else ls ! (k - 1)) \<and>
      expand acc items = acc @ map nat (take k ls) \<and> items_ok acc items)"

lemma run_limits_pos: "(max_count, min_count) = run_limits a b \<Longrightarrow> 1 < max_count"
  by (simp add: run_limits_def split: if_splits)

lemma rle_start_inv: "rle_inv ls acc 0 (rle_start ls)"
  by (simp add: rle_inv_def rle_start_def Let_def run_limits_def)

lemma rle_step_inv:
  assumes inv: "rle_inv ls acc n st" and n: "n + 1 < length ls" and r: "\<And>i. i \<le> n \<Longrightarrow> 0 \<le> ls ! i \<and> ls ! i \<le> 15"
  shows "rle_inv ls acc (Suc n) (rle_step ls st n)"
proof -
  obtain items prev cur count maxc minc where st: "st = (items, prev, cur, count, maxc, minc)" by (cases st) auto
  obtain c where c: "count = int c" using inv by (auto simp: st rle_inv_def Let_def elim: nonneg_int_cases)
  define k where "k = n - c"
  have I: "c \<le> n" "int c < maxc" "cur = ls ! n" "\<And>i. k \<le> i \<Longrightarrow> i < n \<Longrightarrow> ls ! i = cur"
    "(maxc, minc) = run_limits prev cur" "prev = (if k = 0 then -1 else ls ! (k - 1))"
    "expand acc items = acc @ map nat (take k ls)" "items_ok acc items"
    using inv by (simp_all add: st c rle_inv_def Let_def k_def)
  have kn: "n = k + c" using I(1) by (simp add: k_def)
  show ?thesis
  proof (cases "int c + 1 < maxc \<and> cur = ls ! (n + 1)")
    case True
    then have "rle_step ls st n = (items, prev, ls ! (n + 1), int c + 1, maxc, minc)"
      by (simp add: rle_step_def st c)
    moreover have "nat (int c + 1) = Suc c" by simp
    ultimately show ?thesis
      using I True by (auto simp: rle_inv_def Let_def k_def less_Suc_eq)
  next
    case False
    obtain mx mn where lim: "run_limits cur (ls ! (n + 1)) = (mx, mn)" by fastforce
    have s: "rle_step ls st n = (items @ emit prev cur (int c + 1) minc, cur, ls ! (n + 1), 0, mx, mn)"
      using False lim by (auto simp: rle_step_def st c Let_def)
    have cr: "0 \<le> cur" "cur \<le> 15" using r [of n] I(3) by simp_all
    have p: "acc @ map nat (take k ls) \<noteq> [] \<and> int (last (acc @ map nat (take k ls))) = cur" if "prev = cur"
    proof -
      have k0: "k \<noteq> 0"
      proof
        assume "k = 0"
        then show False using that cr(1) I(6) by simp
      qed
      then have "take k ls = take (k - 1) ls @ [ls ! (k - 1)]"
        using n kn take_Suc_conv_app_nth [of "k - 1" ls] by simp
      then show ?thesis using that I(6) k0 cr(1) by simp
    qed
    note e = emit_expand [OF cr _ _ I(5) p, of "int c + 1"]
    have "take (Suc n) ls = take k ls @ replicate (Suc c) cur"
    proof (rule nth_equalityI)
      fix i assume "i < length (take (Suc n) ls)"
      then show "take (Suc n) ls ! i = (take k ls @ replicate (Suc c) cur) ! i"
        using n kn I(3) I(4) [of i] by (cases "i = n") (auto simp: nth_append nth_Cons')
    qed (use n kn in simp)
    moreover have "nat (int c + 1) = Suc c" by simp
    ultimately have x: "expand acc (items @ emit prev cur (int c + 1) minc) = acc @ map nat (take (Suc n) ls)"
      "items_ok acc (items @ emit prev cur (int c + 1) minc)"
      using e I(2,7,8) by simp_all
    have "0 < mx" using run_limits_pos [OF lim [symmetric]] by simp
    then show ?thesis
      using x I(3) lim unfolding s by (simp add: rle_inv_def Let_def)
  qed
qed

text \<open>With a guard behind the lengths that differs from all of them, no run is left open.\<close>

theorem rle_expand:
  assumes m: "0 < m" "m < length ls" and r: "\<And>i. i < m \<Longrightarrow> 0 \<le> ls ! i \<and> ls ! i \<le> 15" and g: "15 < ls ! m"
  shows "expand acc (rle ls m) = acc @ map nat (take m ls)" "items_ok acc (rle ls m)"
proof -
  have inv: "n \<le> m \<Longrightarrow> rle_inv ls acc n (foldl (rle_step ls) (rle_start ls) [0..<n])" for n
  proof (induction n)
    case 0
    show ?case by (simp add: rle_start_inv)
  next
    case (Suc n)
    then have "n + 1 < length ls" "\<And>i. i \<le> n \<Longrightarrow> 0 \<le> ls ! i \<and> ls ! i \<le> 15" using m r by auto
    then show ?case using rle_step_inv Suc by simp
  qed
  obtain items prev cur count mx mn where s: "foldl (rle_step ls) (rle_start ls) [0..<m] = (items, prev, cur, count, mx, mn)"
    by (metis prod.exhaust)
  have "count = 0"
  proof (rule ccontr)
    assume "count \<noteq> 0"
    then have "m - nat count \<le> m - 1" "m - 1 < m" "cur = ls ! m"
      "\<forall>i. m - nat count \<le> i \<and> i < m \<longrightarrow> ls ! i = cur"
      using inv [of m] m(1) by (auto simp: s rle_inv_def Let_def)
    then have "ls ! (m - 1) = ls ! m" by blast
    then show False using r [of "m - 1"] g m(1) by simp
  qed
  then show "expand acc (rle ls m) = acc @ map nat (take m ls)" "items_ok acc (rle ls m)"
    using inv [of m] by (simp_all add: s rle_inv_def Let_def rle_def)
qed

section \<open>scan\_tree\<close>

definition count_items :: "item list \<Rightarrow> ct_data list \<Rightarrow> ct_data list" where
  "count_items items t = foldl (\<lambda>t i. inc_freq (fst i) t) t items"

lemma count_items_simps [simp]:
  "count_items [] t = t" "count_items (i # is) t = count_items is (inc_freq (fst i) t)"
  "count_items (is @ js) t = count_items js (count_items is t)"
  by (simp_all add: count_items_def)

lemma count_items_length [simp]: "length (count_items items t) = length t"
  by (induction items arbitrary: t) simp_all

lemma count_items_replicate: "count_items (replicate k (c, x)) t = (if k = 0 then t else add_freq c (int k) t)"
proof (induction k arbitrary: t)
  case (Suc k)
  show ?case
    by (cases "c < length t")
      (auto simp: Suc inc_freq_def add_freq_def list_update_beyond add.assoc)
qed simp

lemma count_items_emit:
  assumes "1 \<le> count"
  shows "count_items (emit prev cur count minc) t =
    (if count < minc then add_freq (nat cur) count t
     else if cur \<noteq> 0 then inc_freq REP_3_6 (if cur \<noteq> prev then inc_freq (nat cur) t else t)
     else if count \<le> 10 then inc_freq REPZ_3_10 t
     else inc_freq REPZ_11_138 t)"
  using assms by (simp add: emit_def count_items_replicate REP_3_6_def REPZ_3_10_def REPZ_11_138_def)

lemma freqs_count_items:
  "freqs t k syms \<Longrightarrow> length syms + length items < 2 ^ 16 \<Longrightarrow> \<forall>i \<in> set items. fst i < k \<Longrightarrow> k \<le> length t \<Longrightarrow>
    freqs (count_items items t) k (syms @ map fst items)"
proof (induction items arbitrary: t syms)
  case (Cons i items)
  then have "freqs (inc_freq (fst i) t) k (syms @ [fst i])" by (intro freqs_inc) simp_all
  then show ?case using Cons.IH [of "inc_freq (fst i) t" "syms @ [fst i]"] Cons.prems by simp
qed simp

lemma dyn_tree_bl [simp]: "t \<noteq> BL_TREE \<Longrightarrow> dyn_tree t (s\<lparr>bl_tree := x\<rparr>) = dyn_tree t s"
  by (cases t) simp_all

definition tree_lens :: "ct_data list \<Rightarrow> int list" where
  "tree_lens t = map (\<lambda>d. uint (Len d)) t"

lemma tree_lens_nth [simp]: "n < length t \<Longrightarrow> tree_lens t ! n = uint (Len (t ! n))"
  by (simp add: tree_lens_def)

lemma scan_step_rle:
  assumes t: "t \<noteq> BL_TREE" and n: "n + 1 < length (dyn_tree t s)" and v: "v = (prev, cur, count, maxc, minc)" "0 \<le> count"
    and r: "rle_step (tree_lens (dyn_tree t s)) (items, v) n = (items @ new, v')"
  shows "scan_step t (s, v) n = (s\<lparr>bl_tree := count_items new (bl_tree s)\<rparr>, v')"
proof (cases "count + 1 < maxc \<and> cur = uint (Len (dyn_tree t s ! (n + 1)))")
  case True
  then show ?thesis using r n by (simp add: v rle_step_def scan_step_def)
next
  case False
  then have new: "new = emit prev cur (count + 1) minc"
    and v': "v' = (cur, uint (Len (dyn_tree t s ! (n + 1))), 0, run_limits cur (uint (Len (dyn_tree t s ! (n + 1)))))"
    using r n by (auto simp: v rle_step_def Let_def split: if_splits)
  show ?thesis
    using False v(2) unfolding new v'
    by (auto simp: v scan_step_def Let_def count_items_emit case_prod_beta)
qed

fun vars_ok :: "run_vars \<Rightarrow> bool" where
  "vars_ok (prev, cur, count, limits) \<longleftrightarrow> 0 \<le> count \<and> limits = run_limits prev cur"

lemma rle_step_vars: "vars_ok (snd st) \<Longrightarrow> vars_ok (snd (rle_step ls st n))"
  by (auto simp: rle_step_def Let_def split: prod.splits)

lemma rle_step_new: "\<exists>new v'. rle_step ls (items, v) n = (items @ new, v')"
  by (auto simp: rle_step_def Let_def split: prod.splits)

lemma scan_loop_rle:
  assumes t: "t \<noteq> BL_TREE" and c: "vars_ok v"
  shows "m < length (dyn_tree t s) \<Longrightarrow> \<exists>items v'. foldl (rle_step (tree_lens (dyn_tree t s))) ([], v) [0..<m] = (items, v') \<and>
    vars_ok v' \<and> foldl (scan_step t) (s, v) [0..<m] = (s\<lparr>bl_tree := count_items items (bl_tree s)\<rparr>, v')"
proof (induction m)
  case 0
  then show ?case using c by simp
next
  case (Suc m)
  then obtain items v' where r: "foldl (rle_step (tree_lens (dyn_tree t s))) ([], v) [0..<m] = (items, v')"
    and c': "vars_ok v'" and f: "foldl (scan_step t) (s, v) [0..<m] = (s\<lparr>bl_tree := count_items items (bl_tree s)\<rparr>, v')"
    by auto
  let ?s = "s\<lparr>bl_tree := count_items items (bl_tree s)\<rparr>"
  obtain new v'' where st: "rle_step (tree_lens (dyn_tree t s)) (items, v') m = (items @ new, v'')"
    using rle_step_new by blast
  obtain prev cur count maxc minc where vv: "v' = (prev, cur, count, maxc, minc)" by (cases v') auto
  have "scan_step t (?s, v') m = (?s\<lparr>bl_tree := count_items new (bl_tree ?s)\<rparr>, v'')"
    by (rule scan_step_rle [OF t _ vv]) (use Suc.prems c' st t in \<open>simp_all add: vv\<close>)
  moreover have "vars_ok v''" using rle_step_vars [of "(items, v')" "tree_lens (dyn_tree t s)" m] c' st by simp
  ultimately show ?case using r f st by simp
qed

text \<open>The guard behind the last length.\<close>

definition guarded :: "ct_data list \<Rightarrow> int \<Rightarrow> ct_data list" where
  "guarded t max_code = t[nat (max_code + 1) := (t ! nat (max_code + 1))\<lparr>dl := 0xffff\<rparr>]"

definition tree_items :: "ct_data list \<Rightarrow> int \<Rightarrow> item list" where
  "tree_items t max_code = rle (tree_lens t) (nat (max_code + 1))"

lemma start_limits:
  fixes l :: int
  assumes "0 \<le> l"
  shows "(if l = 0 then (138, 3) else (7, 4)) = run_limits (-1) l"
  using assms by (simp add: run_limits_def)

lemma dyn_tree_set [simp]:
  "dyn_tree t (set_tree t x s) = x" "set_tree t x s\<lparr>bl_tree := y\<rparr> = (if t = BL_TREE then s\<lparr>bl_tree := y\<rparr> else set_tree t x (s\<lparr>bl_tree := y\<rparr>))"
  "t \<noteq> BL_TREE \<Longrightarrow> bl_tree (set_tree t x s) = bl_tree s"
  by (cases t; simp)+

lemma scan_tree_items:
  assumes t: "t \<noteq> BL_TREE" and m: "nat (max_code + 1) < length (dyn_tree t s)" "0 \<le> max_code"
  shows "scan_tree s t max_code = set_tree t (guarded (dyn_tree t s) max_code)
    (s\<lparr>bl_tree := count_items (tree_items (guarded (dyn_tree t s) max_code) max_code) (bl_tree s)\<rparr>)"
proof -
  let ?g = "guarded (dyn_tree t s) max_code" and ?n = "uint (Len (dyn_tree t s ! 0))"
  let ?s = "set_tree t ?g s"
  have len: "length ?g = length (dyn_tree t s)" by (simp add: guarded_def)
  have z: "?g ! 0 = dyn_tree t s ! 0" using m(2) by (simp add: guarded_def)
  have v: "vars_ok (-1, ?n, 0, run_limits (-1) ?n)" "nat (max_code + 1) < length (dyn_tree t ?s)"
    using m(1) len by simp_all
  obtain items v' where r: "foldl (rle_step (tree_lens ?g)) ([], -1, ?n, 0, run_limits (-1) ?n) [0..<nat (max_code + 1)] = (items, v')"
    and f: "foldl (scan_step t) (?s, -1, ?n, 0, run_limits (-1) ?n) [0..<nat (max_code + 1)]
      = (?s\<lparr>bl_tree := count_items items (bl_tree ?s)\<rparr>, v')"
    using scan_loop_rle [OF t v] unfolding dyn_tree_set(1) by blast
  have "tree_lens ?g ! 0 = ?n" using m len z by (subst tree_lens_nth) auto
  then have "tree_items ?g max_code = items"
    using r by (simp add: tree_items_def rle_def rle_start_def)
  moreover have "scan_tree s t max_code = ?s\<lparr>bl_tree := count_items items (bl_tree ?s)\<rparr>"
    using f by (simp add: scan_tree_def Let_def case_prod_beta start_limits [OF unsigned_greater_eq] guarded_def)
  ultimately show ?thesis using t by simp
qed

section \<open>send\_tree\<close>

text \<open>Sending touches nothing but the bit buffer, its output and the memory that the output overlays.\<close>

lemma put_byte_frame [simp]:
  "dyn_ltree (put_byte s c) = dyn_ltree s" "dyn_dtree (put_byte s c) = dyn_dtree s"
  "bl_tree (put_byte s c) = bl_tree s" "last_lit (put_byte s c) = last_lit s"
  "level (put_byte s c) = level s" "strategy (put_byte s c) = strategy s" "data_type (put_byte s c) = data_type s"
  "bl_count (put_byte s c) = bl_count s" "heap (put_byte s c) = heap s" "depth (put_byte s c) = depth s"
  "l_max_code (put_byte s c) = l_max_code s" "d_max_code (put_byte s c) = d_max_code s"
  by (simp_all add: put_byte_def Let_def)

lemma send_bits_frame [simp]:
  "dyn_ltree (send_bits s v l) = dyn_ltree s" "dyn_dtree (send_bits s v l) = dyn_dtree s"
  "bl_tree (send_bits s v l) = bl_tree s" "last_lit (send_bits s v l) = last_lit s"
  "level (send_bits s v l) = level s" "strategy (send_bits s v l) = strategy s"
  "data_type (send_bits s v l) = data_type s" "lit_bufsize (send_bits s v l) = lit_bufsize s"
  "bl_count (send_bits s v l) = bl_count s" "heap (send_bits s v l) = heap s" "depth (send_bits s v l) = depth s"
  by (simp_all add: send_bits_def put_short_def Let_def)

lemma dyn_tree_send_bits [simp]: "dyn_tree t (send_bits s v l) = dyn_tree t s"
  by (cases t) simp_all

definition same_trees :: "deflate_state \<Rightarrow> deflate_state \<Rightarrow> bool" where
  "same_trees s r \<longleftrightarrow> dyn_ltree r = dyn_ltree s \<and> dyn_dtree r = dyn_dtree s \<and> bl_tree r = bl_tree s \<and>
     last_lit r = last_lit s \<and> overlay_kept s r \<and> level r = level s \<and>
     strategy r = strategy s \<and> data_type r = data_type s \<and> lit_bufsize r = lit_bufsize s \<and>
     bl_count r = bl_count s \<and> heap r = heap s \<and> depth r = depth s"

lemma same_trees_refl [simp]: "same_trees s s"
  by (simp add: same_trees_def)

lemma same_trees_trans: "same_trees s r \<Longrightarrow> same_trees r q \<Longrightarrow> same_trees s q"
  using overlay_kept_trans by (auto simp: same_trees_def)

lemma same_trees_send_bits: "same_trees s (send_bits s v l)" "same_trees s (send_code s c t)"
  by (simp_all add: same_trees_def send_code_def)

lemma same_trees_dyn: "same_trees s r \<Longrightarrow> dyn_tree t r = dyn_tree t s"
  by (cases t) (simp_all add: same_trees_def)

definition send_item :: "deflate_state \<Rightarrow> item \<Rightarrow> deflate_state" where
  "send_item s i = (let (c, v, k) = i; s = send_code s c (bl_tree s) in
     if k = 0 then s else send_bits s (of_nat v) (int k))"

definition send_items :: "deflate_state \<Rightarrow> item list \<Rightarrow> deflate_state" where
  "send_items s items = foldl send_item s items"

lemma send_items_simps [simp]:
  "send_items s [] = s" "send_items s (i # is) = send_items (send_item s i) is"
  "send_items s (is @ js) = send_items (send_items s is) js"
  by (simp_all add: send_items_def)

lemma same_trees_item: "same_trees s (send_item s i)"
  by (cases i) (auto simp: send_item_def Let_def intro: same_trees_trans [OF same_trees_send_bits(2) same_trees_send_bits(1)]
      same_trees_send_bits(2))

lemma same_trees_items: "same_trees s (send_items s items)"
  by (induction items arbitrary: s) (auto intro: same_trees_trans [OF same_trees_item])

lemma send_copies_items: "1 \<le> k \<Longrightarrow> send_copies s c k = send_items s (replicate k (c, 0, 0))"
proof (induction k arbitrary: s)
  case (Suc k)
  then show ?case
    by (subst send_copies.simps) (cases k; simp add: send_item_def Let_def)
qed simp

lemma send_step_rle:
  assumes n: "n + 1 < length (dyn_tree t s)" and v: "vars_ok v"
    and r: "rle_step (tree_lens (dyn_tree t s)) (items, v) n = (items @ new, v')"
  shows "send_step t (s, v) n = (send_items s new, v')"
proof -
  obtain prev cur count maxc minc where vv: "v = (prev, cur, count, maxc, minc)" by (cases v) auto
  let ?next = "uint (Len (dyn_tree t s ! (n + 1)))"
  have lim: "(maxc, minc) = run_limits prev cur" "0 \<le> count" using v by (simp_all add: vv)
  show ?thesis
  proof (cases "count + 1 < maxc \<and> cur = ?next")
    case True
    then show ?thesis using r n by (simp add: vv rle_step_def send_step_def)
  next
    case False
    then have new: "new = emit prev cur (count + 1) minc" and v': "v' = (cur, ?next, 0, run_limits cur ?next)"
      using r n by (auto simp: vv rle_step_def Let_def split: if_splits)
    obtain k where k: "count = int k" using lim(2) by (metis nonneg_int_cases)
    have s: "send_step t (s, v) n = (let s' = (if int k + 1 < minc then send_copies s (nat cur) (nat (int k + 1))
                    else if cur \<noteq> 0 then
                      let (s, count) = (if cur \<noteq> prev then (send_code s (nat cur) (bl_tree s), int k)
                                        else (s, int k + 1));
                          s = send_code s REP_3_6 (bl_tree s)
                      in send_bits s (of_int (count - 3)) 2
                    else if int k + 1 \<le> 10 then
                      let s = send_code s REPZ_3_10 (bl_tree s) in send_bits s (of_int (int k + 1 - 3)) 3
                    else
                      let s = send_code s REPZ_11_138 (bl_tree s) in send_bits s (of_int (int k + 1 - 11)) 7) in (s', v'))"
      using False unfolding v' by (auto simp: vv k send_step_def Let_def case_prod_beta)
    have w: "word_of_int x = (of_nat (nat x) :: u32)" if "0 \<le> x" for x
      using that by (simp add: of_nat_nat)
    have "2 < minc" "cur \<noteq> 0 \<Longrightarrow> cur \<noteq> prev \<Longrightarrow> 3 < minc"
      using lim(1) by (auto simp: run_limits_def split: if_splits)
    then show ?thesis
      unfolding s new k
      by (auto simp: emit_def send_copies_items send_item_def Let_def w REP_3_6_def REPZ_3_10_def REPZ_11_138_def)
  qed
qed

lemma send_loop_rle:
  assumes c: "vars_ok v"
  shows "m < length (dyn_tree t s) \<Longrightarrow> \<exists>items v'. foldl (rle_step (tree_lens (dyn_tree t s))) ([], v) [0..<m] = (items, v') \<and>
    vars_ok v' \<and> foldl (send_step t) (s, v) [0..<m] = (send_items s items, v')"
proof (induction m)
  case 0
  then show ?case using c by simp
next
  case (Suc m)
  then obtain items v' where r: "foldl (rle_step (tree_lens (dyn_tree t s))) ([], v) [0..<m] = (items, v')"
    and c': "vars_ok v'" and f: "foldl (send_step t) (s, v) [0..<m] = (send_items s items, v')"
    by auto
  let ?s = "send_items s items"
  have d: "dyn_tree t ?s = dyn_tree t s" by (rule same_trees_dyn [OF same_trees_items])
  obtain new v'' where st: "rle_step (tree_lens (dyn_tree t s)) (items, v') m = (items @ new, v'')"
    using rle_step_new by blast
  have "send_step t (?s, v') m = (send_items ?s new, v'')"
    by (rule send_step_rle [OF _ c']) (use Suc.prems st d in simp_all)
  moreover have "vars_ok v''" using rle_step_vars [of "(items, v')" "tree_lens (dyn_tree t s)" m] c' st by simp
  ultimately show ?case using r f st by simp
qed

lemma send_tree_items:
  assumes m: "nat (max_code + 1) < length (dyn_tree t s)" "0 \<le> max_code"
  shows "send_tree s t max_code = send_items s (tree_items (dyn_tree t s) max_code)"
proof -
  let ?n = "uint (Len (dyn_tree t s ! 0))"
  have v: "vars_ok (-1, ?n, 0, run_limits (-1) ?n)" by simp
  obtain items v' where r: "foldl (rle_step (tree_lens (dyn_tree t s))) ([], -1, ?n, 0, run_limits (-1) ?n) [0..<nat (max_code + 1)] = (items, v')"
    and f: "foldl (send_step t) (s, -1, ?n, 0, run_limits (-1) ?n) [0..<nat (max_code + 1)] = (send_items s items, v')"
    using send_loop_rle [OF v m(1)] by blast
  have "tree_lens (dyn_tree t s) ! 0 = ?n" using m by (subst tree_lens_nth) auto
  then have "tree_items (dyn_tree t s) max_code = items"
    using r by (simp add: tree_items_def rle_def rle_start_def)
  moreover have "send_tree s t max_code = send_items s items"
    using f by (simp add: send_tree_def Let_def case_prod_beta start_limits [OF unsigned_greater_eq])
  ultimately show ?thesis by simp
qed

section \<open>What the items stand for\<close>

lemma expand_length: "length acc + length items \<le> length (expand acc items)"
proof (induction items arbitrary: acc)
  case (Cons i items)
  have "length acc + 1 \<le> length (expand_item acc i)" by (cases i) auto
  then show ?case using Cons [of "expand_item acc i"] by simp
qed simp

lemma items_ok_syms: "items_ok acc items \<Longrightarrow> \<forall>i \<in> set items. fst i < 19"
  by (induction items arbitrary: acc) auto

lemma tree_items_expand:
  assumes m: "0 \<le> max_code" "nat (max_code + 1) < length t" and l: "\<forall>l \<in> set (lens_of t max_code). l \<le> 15"
  shows "expand acc (tree_items (guarded t max_code) max_code) = acc @ lens_of t max_code"
    "items_ok acc (tree_items (guarded t max_code) max_code)"
    "length (tree_items (guarded t max_code) max_code) \<le> nat (max_code + 1)"
proof -
  let ?m = "nat (max_code + 1)" and ?g = "guarded t max_code"
  have ls: "lens_of t max_code ! i = unat (Len (t ! i))" "i < length (lens_of t max_code)" if "i < ?m" for i
    using that m(2) by (simp_all add: lens_of_def)
  have g: "?g ! i = t ! i" if "i < ?m" for i using that by (simp add: guarded_def)
  have r: "0 \<le> tree_lens ?g ! i \<and> tree_lens ?g ! i \<le> 15" if "i < ?m" for i
  proof -
    have "unat (Len (t ! i)) \<le> 15" using l ls [OF that] nth_mem by metis
    then have "uint (Len (t ! i)) \<le> 15" unfolding uint_nat by (simp only: of_nat_le_numeral_iff)
    moreover have "tree_lens ?g ! i = uint (Len (t ! i))"
      using that m(2) g [OF that] by (subst tree_lens_nth) (simp_all add: guarded_def)
    ultimately show ?thesis by simp
  qed
  have guard: "15 < tree_lens ?g ! ?m"
    using m by (subst tree_lens_nth) (simp_all add: guarded_def)
  have len: "0 < ?m" "?m < length (tree_lens ?g)" using m by (simp_all add: tree_lens_def guarded_def)
  have "map nat (take ?m (tree_lens ?g)) = lens_of t max_code"
    by (rule nth_equalityI) (use m in \<open>simp_all add: lens_of_def tree_lens_def guarded_def\<close>)
  then show e: "expand acc (tree_items ?g max_code) = acc @ lens_of t max_code" for acc
    using rle_expand(1) [OF len r guard] by (simp add: tree_items_def)
  show "items_ok acc (tree_items ?g max_code)"
    using rle_expand(2) [OF len r guard] by (simp add: tree_items_def)
  show "length (tree_items ?g max_code) \<le> ?m"
    using expand_length [of "[]" "tree_items ?g max_code"] unfolding e by (simp add: lens_of_def)
qed

section \<open>Properties\<close>

text \<open>
  C8: the run lengths of a tree's code lengths. \<open>scan_tree\<close> counts in \<open>bl_tree\<close> exactly the symbols of the
  items that \<open>send_tree\<close> sends later; every item is within the range of its extra bits, a repetition
  always has a length to repeat, and expanding the items gives the code lengths back.
\<close>
theorem tree_items_roundtrip:
  assumes "t \<noteq> BL_TREE" "0 \<le> max_code" "nat (max_code + 1) < length (dyn_tree t s)"
    and "\<forall>l \<in> set (lens_of (dyn_tree t s) max_code). l \<le> 15"
  shows "let r = scan_tree s t max_code; items = tree_items (dyn_tree t r) max_code in
    bl_tree r = count_items items (bl_tree s) \<and> dyn_tree t r = guarded (dyn_tree t s) max_code \<and>
    (\<forall>q. dyn_tree t q = dyn_tree t r \<longrightarrow> send_tree q t max_code = send_items q items) \<and>
    items_ok [] items \<and> expand [] items = lens_of (dyn_tree t s) max_code"
proof -
  note s = scan_tree_items [OF assms(1,3,2)]
  have d: "dyn_tree t (scan_tree s t max_code) = guarded (dyn_tree t s) max_code" by (simp add: s)
  have g: "length (guarded (dyn_tree t s) max_code) = length (dyn_tree t s)" by (simp add: guarded_def)
  show ?thesis
    unfolding Let_def d
    using tree_items_expand(1,2) [OF assms(2,3,4), of "[]"] send_tree_items [where max_code = max_code and t = t] assms(1-3) g
    by (auto simp: s)
qed

lemma tree_items_roundtrip_witness:
  "expand [] (tree_items (dyn_tree L_TREE (scan_tree sample_state L_TREE 20)) 20) = replicate 21 0"
proof -
  have l: "lens_of (dyn_tree L_TREE sample_state) 20 = replicate 21 0"
    by (simp add: lens_of_def sample_state_def HEAP_SIZE_def L_CODES_def take_replicate min_absorb1 LITERALS_def LENGTH_CODES_def)
  have "L_TREE \<noteq> BL_TREE" "(0::int) \<le> 20" "nat (20 + 1) < length (dyn_tree L_TREE sample_state)"
    "\<forall>l \<in> set (lens_of (dyn_tree L_TREE sample_state) 20). l \<le> 15"
    unfolding l by (simp_all add: sample_state_def code_numbers)
  from tree_items_roundtrip [OF this, unfolded Let_def l] show ?thesis by blast
qed

end
