(* ===== verification/Inflate_Spec.thy ===== *)
theory Inflate_Spec
  imports Tr_State
begin

text \<open>
  A decoder of DEFLATE blocks written after RFC 1951, 3.2.3 to 3.2.7, as the reference for what
  \<open>zlib_archive/trees.c\<close> writes. It knows nothing of the program: the code lengths and the tables
  of base values are all it works with.
\<close>

section \<open>Reading bits\<close>

definition get_bits :: "nat \<Rightarrow> bool list \<Rightarrow> (nat \<times> bool list) option" where
  "get_bits k bs = (if length bs < k then None else Some (horner_sum of_bool 2 (take k bs), drop k bs))"

lemma get_bits_word:
  fixes v :: "'a::len word"
  assumes "unat v < 2 ^ k" "k \<le> LENGTH('a)"
  shows "get_bits k (bits_of v k @ rest) = Some (unat v, rest)"
proof -
  have "bits_of v k = map (bit (unat v)) [0..<k]"
    using assms(2) by (simp add: bits_of_def bit_unsigned_iff)
  then have "horner_sum of_bool 2 (bits_of v k) = take_bit k (unat v)"
    by (simp only: horner_sum_bit_eq_take_bit)
  then show ?thesis using assms(1) by (simp add: get_bits_def take_bit_nat_eq_self)
qed

lemma get_bits_shorter: "get_bits k bs = Some (v, cs) \<Longrightarrow> length cs \<le> length bs"
  by (auto simp: get_bits_def split: if_splits)

section \<open>Literals, lengths and distances\<close>

text \<open>The result is None inside the option for the end of the block.\<close>

definition decode_token :: "nat list \<Rightarrow> nat list \<Rightarrow> bool list \<Rightarrow> (token option \<times> bool list) option" where
  "decode_token llens dlens bs =
     (case decode_sym llens bs of None \<Rightarrow> None | Some (c, bs) \<Rightarrow>
        if c < 256 then Some (Some (Literal (of_nat c)), bs)
        else if c = 256 then Some (None, bs)
        else if 286 \<le> c then None
        else case get_bits (rfc_length_extra ! (c - 257)) bs of None \<Rightarrow> None | Some (e, bs) \<Rightarrow>
          (case decode_sym dlens bs of None \<Rightarrow> None | Some (d, bs) \<Rightarrow>
             if 30 \<le> d then None
             else case get_bits (rfc_dist_extra ! d) bs of None \<Rightarrow> None | Some (f, bs) \<Rightarrow>
               Some (Some (Match (nat (rfc_length_base ! (c - 257)) + e) (nat (rfc_dist_base ! d) + f)), bs)))"

lemma decode_token_shorter:
  assumes "decode_token llens dlens bs = Some (t, cs)"
  shows "length cs < length bs"
  using assms unfolding decode_token_def
  by (auto split: option.splits prod.splits if_splits dest!: decode_sym_shorter get_bits_shorter)

function decode_tokens :: "nat list \<Rightarrow> nat list \<Rightarrow> bool list \<Rightarrow> (token list \<times> bool list) option" where
  "decode_tokens llens dlens bs =
     (case decode_token llens dlens bs of
        None \<Rightarrow> None
      | Some (None, bs) \<Rightarrow> Some ([], bs)
      | Some (Some t, bs) \<Rightarrow> (case decode_tokens llens dlens bs of None \<Rightarrow> None | Some (ts, bs) \<Rightarrow> Some (t # ts, bs)))"
  by auto
termination
  by (relation "measure (\<lambda>(_, _, bs). length bs)") (auto dest: decode_token_shorter)

declare decode_tokens.simps [simp del]

section \<open>The code lengths of a dynamic block\<close>

function decode_lens :: "nat list \<Rightarrow> nat \<Rightarrow> nat list \<Rightarrow> bool list \<Rightarrow> (nat list \<times> bool list) option" where
  "decode_lens bl n acc bs =
     (if n \<le> length acc then Some (acc, bs)
      else case decode_sym bl bs of None \<Rightarrow> None | Some (c, bs') \<Rightarrow>
        if c < 16 then decode_lens bl n (acc @ [c]) bs'
        else if c = 16 \<and> acc = [] \<or> 18 < c then None
        else case get_bits (if c = 16 then 2 else if c = 17 then 3 else 7) bs' of None \<Rightarrow> None | Some (v, bs'') \<Rightarrow>
          decode_lens bl n
            (acc @ (if c = 16 then replicate (3 + v) (last acc) else if c = 17 then replicate (3 + v) 0
                    else replicate (11 + v) 0)) bs'')"
  by auto
termination
  by (relation "measure (\<lambda>(_, _, _, bs). length bs)") (auto dest!: decode_sym_shorter get_bits_shorter)

declare decode_lens.simps [simp del]

fun get_many :: "nat \<Rightarrow> nat \<Rightarrow> bool list \<Rightarrow> (nat list \<times> bool list) option" where
  "get_many k 0 bs = Some ([], bs)"
| "get_many k (Suc n) bs =
     (case get_bits k bs of None \<Rightarrow> None | Some (v, bs) \<Rightarrow>
        (case get_many k n bs of None \<Rightarrow> None | Some (vs, bs) \<Rightarrow> Some (v # vs, bs)))"

text \<open>The order in which the lengths of the bit length code are sent.\<close>

definition rfc_order :: "nat list" where
  "rfc_order = [16, 17, 18, 0, 8, 7, 9, 6, 10, 5, 11, 4, 12, 3, 13, 2, 14, 1, 15]"

definition place_lens :: "nat list \<Rightarrow> nat list" where
  "place_lens vs = foldl (\<lambda>l (i, v). l[i := v]) (replicate 19 0) (zip rfc_order vs)"

definition decode_dynamic :: "bool list \<Rightarrow> (token list \<times> bool list) option" where
  "decode_dynamic bs =
     (case get_bits 5 bs of None \<Rightarrow> None | Some (hlit, bs) \<Rightarrow>
      case get_bits 5 bs of None \<Rightarrow> None | Some (hdist, bs) \<Rightarrow>
      case get_bits 4 bs of None \<Rightarrow> None | Some (hclen, bs) \<Rightarrow>
      case get_many 3 (hclen + 4) bs of None \<Rightarrow> None | Some (vs, bs) \<Rightarrow>
      case decode_lens (place_lens vs) (hlit + 257 + (hdist + 1)) [] bs of None \<Rightarrow> None | Some (lens, bs) \<Rightarrow>
      decode_tokens (take (hlit + 257) lens) (drop (hlit + 257) lens) bs)"

section \<open>Blocks\<close>

datatype block = Stored "u8 list" | Codes "token list"

text \<open>A stored block is aligned to a byte; \<open>pos\<close> is the number of bits before the block.\<close>

definition decode_stored :: "nat \<Rightarrow> bool list \<Rightarrow> (u8 list \<times> bool list) option" where
  "decode_stored pos bs =
     (case get_bits ((8 - pos mod 8) mod 8) bs of None \<Rightarrow> None | Some (_, bs) \<Rightarrow>
      case get_bits 16 bs of None \<Rightarrow> None | Some (len, bs) \<Rightarrow>
      case get_bits 16 bs of None \<Rightarrow> None | Some (nlen, bs) \<Rightarrow>
      if len + nlen \<noteq> 2 ^ 16 - 1 then None
      else map_option (\<lambda>(vs, bs). (map of_nat vs, bs)) (get_many 8 len bs))"

definition fixed_lens :: "nat list" where
  "fixed_lens = replicate 144 8 @ replicate 112 9 @ replicate 24 7 @ replicate 8 8"

definition fixed_dist_lens :: "nat list" where "fixed_dist_lens = replicate 30 5"

text \<open>The result: whether it is the last block, its contents, and the bits behind it.\<close>

definition decode_block :: "nat \<Rightarrow> bool list \<Rightarrow> (bool \<times> block \<times> bool list) option" where
  "decode_block pos bs =
     (case get_bits 1 bs of None \<Rightarrow> None | Some (final, bs) \<Rightarrow>
      case get_bits 2 bs of None \<Rightarrow> None | Some (kind, bs) \<Rightarrow>
      if kind = 0 then map_option (\<lambda>(b, bs). (final = 1, Stored b, bs)) (decode_stored (pos + 3) bs)
      else if kind = 1 then map_option (\<lambda>(ts, bs). (final = 1, Codes ts, bs)) (decode_tokens fixed_lens fixed_dist_lens bs)
      else if kind = 2 then map_option (\<lambda>(ts, bs). (final = 1, Codes ts, bs)) (decode_dynamic bs)
      else None)"

section \<open>Streams of blocks\<close>

lemma get_many_shorter: "get_many k n bs = Some (vs, cs) \<Longrightarrow> length cs \<le> length bs"
  by (induction n arbitrary: bs vs) (fastforce split: option.splits dest: get_bits_shorter)+

lemma decode_tokens_shorter: "decode_tokens ll dd bs = Some (ts, cs) \<Longrightarrow> length cs \<le> length bs"
proof (induction ll dd bs arbitrary: ts rule: decode_tokens.induct)
  case (1 ll dd bs)
  then show ?case
    by (subst (asm) (2) decode_tokens.simps) (fastforce split: option.splits prod.splits dest: decode_token_shorter)
qed

lemma decode_lens_shorter: "decode_lens bl n acc bs = Some (ls, cs) \<Longrightarrow> length cs \<le> length bs"
proof (induction bl n acc bs arbitrary: ls rule: decode_lens.induct)
  case (1 bl n acc bs)
  note IH = 1(1,2)
  show ?case
  proof (cases "n \<le> length acc")
    case True
    then show ?thesis using 1(3) by (subst (asm) decode_lens.simps) simp
  next
    case False
    obtain c bs' where d: "decode_sym bl bs = Some (c, bs')"
      using 1(3) False by (subst (asm) decode_lens.simps) (auto split: option.splits)
    note l = decode_sym_shorter [OF d]
    show ?thesis
    proof (cases "c < 16")
      case True
      then have "decode_lens bl n (acc @ [c]) bs' = Some (ls, cs)"
        using 1(3) False d by (subst (asm) decode_lens.simps) simp
      then show ?thesis using IH(1) [OF False d refl True] l by fastforce
    next
      case c: False
      obtain v bs'' acc' where "get_bits (if c = 16 then 2 else if c = 17 then 3 else 7) bs' = Some (v, bs'')"
          "\<not> (c = 16 \<and> acc = [] \<or> 18 < c)" "decode_lens bl n acc' bs'' = Some (ls, cs)"
          "acc' = acc @ (if c = 16 then replicate (3 + v) (last acc) else if c = 17 then replicate (3 + v) 0 else replicate (11 + v) 0)"
        using 1(3) False d c by (subst (asm) decode_lens.simps) (auto split: option.splits if_splits)
      then show ?thesis using IH(2) [OF False d refl c] l get_bits_shorter by fastforce
    qed
  qed
qed

lemma decode_block_shorter:
  assumes "decode_block pos bs = Some (f, b, cs)"
  shows "length cs < length bs"
proof -
  obtain f' bs1 where 1: "get_bits 1 bs = Some (f', bs1)" using assms by (auto simp: decode_block_def split: option.splits)
  obtain k bs2 where 2: "get_bits 2 bs1 = Some (k, bs2)" using assms 1 by (auto simp: decode_block_def split: option.splits)
  have l: "length bs1 < length bs" "length bs2 \<le> length bs1"
    using 1 get_bits_shorter [OF 2] by (auto simp: get_bits_def split: if_splits)
  consider b' where "decode_stored (pos + 3) bs2 = Some (b', cs)" | ts where "decode_tokens fixed_lens fixed_dist_lens bs2 = Some (ts, cs)"
    | ts where "decode_dynamic bs2 = Some (ts, cs)"
    using assms 1 2 by (auto simp: decode_block_def split: if_splits)
  then have "length cs \<le> length bs2"
  proof cases
    case 1
    then show ?thesis
      by (fastforce simp: decode_stored_def split: option.splits if_splits dest: get_bits_shorter get_many_shorter)
  next
    case 2
    then show ?thesis by (rule decode_tokens_shorter)
  next
    case 3
    then show ?thesis
      unfolding decode_dynamic_def
      by (fastforce split: option.splits dest: get_bits_shorter get_many_shorter decode_lens_shorter decode_tokens_shorter)
  qed
  then show ?thesis using l by simp
qed

text \<open>Blocks are read up to the last one; what follows it is not looked at.\<close>

function decode_stream :: "nat \<Rightarrow> bool list \<Rightarrow> block list option" where
  "decode_stream pos bs =
     (case decode_block pos bs of None \<Rightarrow> None | Some (final, b, rest) \<Rightarrow>
        if final then Some [b] else map_option ((#) b) (decode_stream (pos + (length bs - length rest)) rest))"
  by auto
termination
  by (relation "measure (\<lambda>(_, bs). length bs)") (auto dest: decode_block_shorter)

declare decode_stream.simps [simp del]

end
