(* ===== verification/Tr_Blocks.thy ===== *)
theory Tr_Blocks
  imports Tr_Scan Inflate_Spec
begin

text \<open>
  The senders of \<open>zlib_archive/trees.c\<close>: \<open>compress_block\<close>, \<open>send_all_trees\<close>, \<open>_tr_stored_block\<close>,
  \<open>_tr_align\<close> and \<open>_tr_flush_bits\<close>. Each is related to the bits that it appends to the stream, and
  the reference decoder reads those bits back. The output overlays the buffers of the tokens, and
  \<open>compress_block\<close> needs its assertion on that overlay.
\<close>

section \<open>The code\<close>

definition compress_step :: "ct_data list \<Rightarrow> ct_data list \<Rightarrow> deflate_state \<Rightarrow> nat \<Rightarrow> deflate_state" where
  "compress_step ltree dtree s lx =
     (let dist = ucast (d_buf s ! lx) :: u32;
          lc = uint (l_buf s ! lx)
      in if dist = 0 then send_code s (nat lc) ltree
         else
           let code = unat (length_code ! nat lc);
               s = send_code s (code + LITERALS + 1) ltree;
               extra = extra_lbits ! code;
               s = (if extra \<noteq> 0 then send_bits s (of_int (lc - base_length ! code)) extra else s);
               dist = dist - 1;
               code = unat (d_code dist);
               s = send_code s code dtree;
               extra = extra_dbits ! code
           in if extra \<noteq> 0 then send_bits s (dist - of_int (base_dist ! code)) extra else s)"

definition compress_block :: "deflate_state \<Rightarrow> ct_data list \<Rightarrow> ct_data list \<Rightarrow> deflate_state" where
  "compress_block s ltree dtree =
     (let s = (if last_lit s \<noteq> 0 then foldl (compress_step ltree dtree) s [0..<unat (last_lit s)] else s)
      in send_code s END_BLOCK ltree)"

text \<open>
  The assertion of \<open>compress_block\<close> on the overlay, after \<open>lx\<close> tokens: the output has not reached the next
  distance to be read. Nothing else in the code keeps the output from the tokens.
\<close>

definition overlay_assert :: "deflate_state \<Rightarrow> nat \<Rightarrow> bool" where
  "overlay_assert s lx \<longleftrightarrow> length (pending s) < unat (lit_bufsize s) + 2 * lx"

definition send_all_trees :: "deflate_state \<Rightarrow> int \<Rightarrow> int \<Rightarrow> int \<Rightarrow> deflate_state" where
  "send_all_trees s lcodes dcodes blcodes =
     (let s = send_bits s (of_int (lcodes - 257)) 5;
          s = send_bits s (of_int (dcodes - 1)) 5;
          s = send_bits s (of_int (blcodes - 4)) 4;
          s = foldl (\<lambda>s rank. send_bits s (ucast (Len (bl_tree s ! unat (bl_order ! rank)))) 3) s [0..<nat blcodes];
          s = send_tree s L_TREE (lcodes - 1)
      in send_tree s D_TREE (dcodes - 1))"

definition STORED_BLOCK :: int where "STORED_BLOCK = 0"
definition STATIC_TREES :: int where "STATIC_TREES = 1"
definition DYN_TREES :: int where "DYN_TREES = 2"

definition tr_stored_block :: "deflate_state \<Rightarrow> u8 list \<Rightarrow> u64 \<Rightarrow> int \<Rightarrow> deflate_state" where
  "tr_stored_block s buf stored_len last_block =
     (let s = send_bits s (of_int (STORED_BLOCK * 2 + last_block)) 3;
          s = bi_windup s;
          s = put_short s (ucast stored_len);
          s = put_short s (ucast (NOT stored_len))
      in foldl put_byte s (take (unat stored_len) buf))"

definition tr_flush_bits :: "deflate_state \<Rightarrow> deflate_state" where
  "tr_flush_bits s = bi_flush s"

definition tr_align :: "deflate_state \<Rightarrow> deflate_state" where
  "tr_align s =
     (let s = send_bits s (of_int (STATIC_TREES * 2)) 3;
          s = send_code s END_BLOCK static_ltree
      in bi_flush s)"

section \<open>Appending bits\<close>

definition emits :: "deflate_state \<Rightarrow> deflate_state \<Rightarrow> bool list \<Rightarrow> bool" where
  "emits s r bs \<longleftrightarrow> (sink_ok s \<longrightarrow> sink_ok r \<and> sent r = sent s @ bs) \<and> same_trees s r"

lemma emits_refl [simp]: "emits s s []"
  by (simp add: emits_def)

lemma emits_trans: "emits s r bs \<Longrightarrow> emits r q cs \<Longrightarrow> emits s q (bs @ cs)"
  by (auto simp: emits_def intro: same_trees_trans)

lemma emits_bits:
  assumes "unat v < 2 ^ l" "l \<le> 16"
  shows "emits s (send_bits s v (int l)) (bits_of v l)"
  unfolding emits_def using tr.ok_put [OF _ assms(2,1)] tr.stream_put [OF _ assms(2,1)] same_trees_send_bits(1) by blast

lemma codedD:
  assumes "coded tree lens" "c < length lens" "lens ! c \<noteq> 0"
  shows "uint (Len (tree ! c)) = int (lens ! c)" "unat (Len (tree ! c)) = lens ! c" "lens ! c \<le> 15"
    "unat (Code (tree ! c)) < 2 ^ (lens ! c)" "canonical_word lens c = Some (tree_word tree c)"
proof -
  show "unat (Len (tree ! c)) = lens ! c" "unat (Code (tree ! c)) < 2 ^ (lens ! c)"
    "canonical_word lens c = Some (tree_word tree c)"
    using assms unfolding coded_def by blast+
  then show "uint (Len (tree ! c)) = int (lens ! c)" unfolding uint_nat by simp
  show "lens ! c \<le> 15" using assms by (simp add: coded_def kraft_def MAX_LEN_def)
qed

lemma emits_code:
  assumes "coded tree lens" "c < length lens" "lens ! c \<noteq> 0"
  shows "emits s (send_code s c tree) (tree_word tree c)"
proof -
  note d = codedD [OF assms]
  have "bits_of (ucast (Code (tree ! c)) :: u32) (lens ! c) = tree_word tree c"
    unfolding tree_word_def d(2) using d(3) by (intro bits_of_cong) (simp add: bit_simps)
  moreover have "unat (ucast (Code (tree ! c)) :: u32) < 2 ^ (lens ! c)"
    using d(4) by (simp add: unsigned_ucast_eq) (metis le_less_trans take_bit_nat_less_eq_self)
  ultimately show ?thesis
    using emits_bits [of "ucast (Code (tree ! c))" "lens ! c" s] d(3) by (simp add: send_code_def d(1))
qed

lemma decode_code:
  assumes "coded tree lens" "c < length lens" "lens ! c \<noteq> 0"
  shows "decode_sym lens (tree_word tree c @ rest) = Some (c, rest)"
  by (rule decode_sym_word [OF codedD(5) [OF assms]])

text \<open>The extra bits of a code: nothing is sent when there are none.\<close>

lemma emits_extra:
  assumes "x \<noteq> 0 \<Longrightarrow> unat v < 2 ^ nat x" "0 \<le> x" "x \<le> 16"
  shows "emits s (if x \<noteq> 0 then send_bits s v x else s) (if x \<noteq> 0 then bits_of v (nat x) else [])"
  using emits_bits [of v "nat x" s] assms by (auto simp: nat_le_iff)

lemma get_extra:
  fixes v :: u32
  assumes "x \<noteq> 0 \<Longrightarrow> unat v < 2 ^ nat x" "0 \<le> x" "x \<le> 16"
  shows "get_bits (nat x) ((if x \<noteq> 0 then bits_of v (nat x) else []) @ rest) =
    Some (if x \<noteq> 0 then unat v else 0, rest)"
  using get_bits_word [of v "nat x" rest] assms by (auto simp: get_bits_def nat_le_iff)

section \<open>compress\_block\<close>

text \<open>The symbols of a token have codes.\<close>

definition has_codes :: "nat list \<Rightarrow> nat list \<Rightarrow> bool" where
  "has_codes lens syms \<longleftrightarrow> (\<forall>c \<in> set syms. c < length lens \<and> lens ! c \<noteq> 0)"

lemma rfc_tables_range:
  "c < 29 \<Longrightarrow> rfc_length_extra ! c \<le> 16 \<and> 0 \<le> rfc_length_base ! c"
  "d < 30 \<Longrightarrow> rfc_dist_extra ! d \<le> 16 \<and> 0 \<le> rfc_dist_base ! d"
proof -
  have "length rfc_length_extra = 29" "length rfc_length_base = 29" "length rfc_dist_extra = 30" "length rfc_dist_base = 30"
    "\<forall>x \<in> set rfc_length_extra. x \<le> 16" "\<forall>x \<in> set rfc_length_base. 0 \<le> x"
    "\<forall>x \<in> set rfc_dist_extra. x \<le> 16" "\<forall>x \<in> set rfc_dist_base. 0 \<le> x"
    by (simp_all add: rfc_length_extra_def rfc_dist_extra_def rfc_length_base_def rfc_dist_base_def)
  then show "c < 29 \<Longrightarrow> rfc_length_extra ! c \<le> 16 \<and> 0 \<le> rfc_length_base ! c"
    "d < 30 \<Longrightarrow> rfc_dist_extra ! d \<le> 16 \<and> 0 \<le> rfc_dist_base ! d"
    by (metis nth_mem)+
qed

lemma word_of_int_small:
  assumes "0 \<le> x" "x < 2 ^ k" "k \<le> 16"
  shows "unat (of_int x :: u32) = nat x"
proof -
  have "(2::int) ^ k \<le> 2 ^ 16" using assms(3) by (intro power_increasing) auto
  then have "nat x < 2 ^ 32" using assms(1,2) by (simp add: nat_less_iff)
  then have "unat (of_nat (nat x) :: u32) = nat x" by (simp add: unat_of_nat_small)
  then show ?thesis using assms(1) by simp
qed

lemma length_extra:
  assumes "k < 256"
  defines "c \<equiv> unat (length_code ! k)"
  defines "x \<equiv> extra_lbits ! c" and "v \<equiv> of_int (int k - base_length ! c) :: u32"
  shows "c < 29" "nat x = rfc_length_extra ! c" "0 \<le> x" "x \<le> 16" "x \<noteq> 0 \<Longrightarrow> unat v < 2 ^ nat x"
    "nat (rfc_length_base ! c) + (if x \<noteq> 0 then unat v else 0) = k + 3"
proof -
  have k: "unat (of_nat k :: u8) = k" using assms(1) by (simp add: unat_of_nat_small)
  have e: "length_entry_ok (int k) (length_code ! k)"
    using length_code_entry [of "of_nat k"] unfolding uint_nat k .
  have c: "unat (length_code ! k) = c" by (simp add: c_def)
  show "c < 29" using length_code_less [OF assms(1)] by (simp add: c_def LENGTH_CODES_def)
  then have le: "rfc_length_extra ! c \<le> 16" "0 \<le> rfc_length_base ! c" using rfc_tables_range(1) by blast+
  have c': "nat (uint (length_code ! k)) = c" by (simp add: c_def)
  note E = e [unfolded length_entry_ok_def Let_def, unfolded c', folded x_def, THEN conjunct2]
  have x: "x = int (rfc_length_extra ! c)" using E by (rule conjunct1)
  note E2 = E [THEN conjunct2]
  show nx: "nat x = rfc_length_extra ! c" "0 \<le> x" "x \<le> 16" using x le by simp_all
  have z: "rfc_length_base ! c = int k + 3" if "x = 0"
    using E2 that by (simp only: if_True)
  have nz: "base_length ! c \<le> int k" "int k < base_length ! c + 2 ^ nat x" "rfc_length_base ! c = base_length ! c + 3"
    if "x \<noteq> 0"
    using E2 that by (simp_all only: if_False)
  have v: "unat v = nat (int k - base_length ! c)" if "x \<noteq> 0"
    unfolding v_def using nz [OF that] nx le by (intro word_of_int_small [of _ "nat x"]) simp_all
  show "unat v < 2 ^ nat x" if "x \<noteq> 0"
    using nz [OF that] v [OF that] by (simp add: nat_less_iff)
  show "nat (rfc_length_base ! c) + (if x \<noteq> 0 then unat v else 0) = k + 3"
    using z nz v le(2) by (cases "x = 0") simp_all
qed

lemma dist_extra:
  fixes d :: u32
  assumes "d < 2 ^ 15"
  defines "c \<equiv> unat (d_code d)"
  defines "x \<equiv> extra_dbits ! c" and "v \<equiv> d - of_int (base_dist ! c)"
  shows "c < 30" "nat x = rfc_dist_extra ! c" "0 \<le> x" "x \<le> 16" "x \<noteq> 0 \<Longrightarrow> unat v < 2 ^ nat x"
    "nat (rfc_dist_base ! c) + (if x \<noteq> 0 then unat v else 0) = unat d + 1"
proof -
  obtain lo hi where r: "lo \<le> uint d" "uint d \<le> hi" and e: "dist_entry_ok lo hi (d_code d)"
    using dist_code_entry [OF assms(1)] by blast
  have c: "nat (uint (d_code d)) = c" by (simp add: c_def)
  note E = e [unfolded dist_entry_ok_def Let_def, unfolded c, folded x_def]
  show "c < 30" using d_code_less [OF assms(1)] by (simp add: c_def D_CODES_def)
  then have le: "rfc_dist_extra ! c \<le> 16" "0 \<le> rfc_dist_base ! c" using rfc_tables_range(2) by blast+
  have x: "x = int (rfc_dist_extra ! c)" and b: "base_dist ! c \<le> uint d" "uint d < base_dist ! c + 2 ^ nat x"
    "rfc_dist_base ! c = base_dist ! c + 1"
    using E r by (blast intro: order_trans le_less_trans)+
  then show nx: "nat x = rfc_dist_extra ! c" "0 \<le> x" "x \<le> 16" using le by simp_all
  have ve: "v = of_int (uint d - base_dist ! c)" by (simp add: v_def)
  have dr: "0 \<le> uint d - base_dist ! c" "uint d - base_dist ! c < 2 ^ nat x"
    using b(1,2) by linarith+
  have nx16: "nat x \<le> 16" using nx le by simp
  have v: "unat v = nat (uint d - base_dist ! c)"
    unfolding ve by (rule word_of_int_small [OF dr nx16])
  show "unat v < 2 ^ nat x" unfolding v using dr by (simp add: nat_less_iff)
  have z: "uint d = base_dist ! c" if "x = 0" using dr that by simp
  have "nat (rfc_dist_base ! c) + nat (uint d - base_dist ! c) = nat (uint d + 1)"
    using b(1,3) le(2) by (simp flip: nat_add_distrib)
  also have "nat (uint d + 1) = unat d + 1" by (simp add: nat_add_distrib)
  finally show "nat (rfc_dist_base ! c) + (if x \<noteq> 0 then unat v else 0) = unat d + 1"
    using z unfolding v by (cases "x = 0") simp_all
qed

fun token_bits :: "ct_data list \<Rightarrow> ct_data list \<Rightarrow> token \<Rightarrow> bool list" where
  "token_bits ltree dtree (Literal b) = tree_word ltree (unat b)"
| "token_bits ltree dtree (Match len dist) =
     (let c = unat (length_code ! (len - 3)); x = extra_lbits ! c;
          d = of_nat (dist - 1) :: u32; e = unat (d_code d); y = extra_dbits ! e
      in tree_word ltree (c + LITERALS + 1) @
         (if x \<noteq> 0 then bits_of (of_int (int (len - 3) - base_length ! c) :: u32) (nat x) else []) @
         tree_word dtree e @
         (if y \<noteq> 0 then bits_of (d - of_int (base_dist ! e)) (nat y) else []))"

definition recorded :: "deflate_state \<Rightarrow> nat \<Rightarrow> token \<Rightarrow> bool" where
  "recorded s lx tok \<longleftrightarrow> d_buf s ! lx = ucast (fst (tally_args tok)) \<and> l_buf s ! lx = ucast (snd (tally_args tok))"

lemma recorded_literal:
  assumes "recorded s lx (Literal b)"
  shows "d_buf s ! lx = 0" "nat (uint (l_buf s ! lx)) = unat b"
proof -
  have "ucast (ucast b :: u32) = b" by (rule bit_word_eqI) (simp add: bit_simps)
  then show "d_buf s ! lx = 0" "nat (uint (l_buf s ! lx)) = unat b" using assms by (simp_all add: recorded_def)
qed

lemma unat_ucast_small:
  "unat (w :: 'a::len word) < 2 ^ LENGTH('b) \<Longrightarrow> unat (ucast w :: 'b::len word) = unat w"
  by (simp add: unsigned_ucast_eq unsigned_take_bit_eq take_bit_nat_eq_self)

lemma recorded_match:
  assumes "recorded s lx (Match len dist)" "valid_token (Match len dist)"
  shows "(ucast (d_buf s ! lx) :: u32) = of_nat dist" "uint (l_buf s ! lx) = int (len - 3)"
proof -
  have d: "dist < 2 ^ 16" "len - 3 < 2 ^ 8" "len \<le> 258" using assms(2) by auto
  have "unat (ucast (of_nat dist :: u32) :: u16) = dist"
    using d(1) by (subst unat_ucast_small) (simp_all add: valid_dist_word(5) [OF assms(2)])
  then have "unat (ucast (ucast (of_nat dist :: u32) :: u16) :: u32) = dist"
    using d(1) by (subst unat_ucast_small) simp_all
  then show "(ucast (d_buf s ! lx) :: u32) = of_nat dist"
    using assms(1) by (simp only: recorded_def tally_args.simps fst_conv word_unat_eq_iff [where 'a = 32] valid_dist_word(5) [OF assms(2)])
  have "unat (ucast (of_nat (len - 3) :: u32) :: u8) = len - 3"
    using d(2) by (subst unat_ucast_small) (simp_all only: unat_len_word [OF d(3)], simp)
  then show "uint (l_buf s ! lx) = int (len - 3)"
    using assms(1) by (simp only: recorded_def tally_args.simps snd_conv uint_nat)
qed

lemma has_codes_simps [simp]:
  "has_codes lens []" "has_codes lens (c # cs) \<longleftrightarrow> c < length lens \<and> lens ! c \<noteq> 0 \<and> has_codes lens cs"
  "has_codes lens (cs @ ds) \<longleftrightarrow> has_codes lens cs \<and> has_codes lens ds"
  by (auto simp: has_codes_def)

lemma emits_extra' :
  assumes "x \<noteq> 0 \<Longrightarrow> unat v < 2 ^ nat x" "0 \<le> x" "x \<le> 16" "emits s r bs"
  shows "emits s (if x \<noteq> 0 then send_bits r v x else r) (bs @ (if x \<noteq> 0 then bits_of v (nat x) else []))"
  using emits_trans [OF assms(4) emits_extra [OF assms(1-3)]] .

lemma compress_step_emits:
  assumes lt: "coded ltree llens" and dt: "coded dtree dlens" and v: "valid_token tok" and r: "recorded s lx tok"
    and c: "has_codes llens [lit_sym tok]" "has_codes dlens (dist_syms tok)"
  shows "emits s (compress_step ltree dtree s lx) (token_bits ltree dtree tok)"
proof (cases tok)
  case (Literal b)
  note q = recorded_literal [OF r [unfolded Literal]]
  have "compress_step ltree dtree s lx = send_code s (unat b) ltree"
    unfolding compress_step_def Let_def q by simp
  then show ?thesis using emits_code [OF lt, of "unat b" s] c(1) by (simp add: Literal)
next
  case (Match len dist)
  note v = v [unfolded Match] and q = recorded_match [OF r [unfolded Match] v [unfolded Match]]
  define k where "k = len - 3"
  have k: "k < 256" using v by (auto simp: k_def)
  define c1 where "c1 = unat (length_code ! k)"
  define d :: u32 where "d = of_nat (dist - 1)"
  define e where "e = unat (d_code d)"
  have d: "d < 2 ^ 15" "(of_nat dist :: u32) - 1 = d" "(of_nat dist :: u32) \<noteq> 0"
    using valid_dist_word [OF v] by (simp_all add: d_def)
  note L = length_extra [OF k, folded c1_def] and D = dist_extra [OF d(1), folded e_def]
  have c1: "c1 + LITERALS + 1 < length llens" "llens ! (c1 + LITERALS + 1) \<noteq> 0" "e < length dlens" "dlens ! e \<noteq> 0"
    using c by (simp_all add: Match c1_def k_def e_def d_def)
  let ?x = "extra_lbits ! c1" and ?y = "extra_dbits ! e"
  let ?v = "of_int (int k - base_length ! c1) :: u32" and ?w = "d - of_int (base_dist ! e)"
  let ?s1 = "send_code s (c1 + LITERALS + 1) ltree"
  let ?s2 = "if ?x \<noteq> 0 then send_bits ?s1 ?v ?x else ?s1"
  let ?s3 = "send_code ?s2 e dtree"
  let ?s4 = "if ?y \<noteq> 0 then send_bits ?s3 ?w ?y else ?s3"
  have "compress_step ltree dtree s lx = ?s4"
    unfolding compress_step_def Let_def q k_def [symmetric] nat_int c1_def [symmetric] d(2) e_def [symmetric]
    by (simp only: d(3) if_False)
  moreover have "emits s ?s4 (((tree_word ltree (c1 + LITERALS + 1) @ (if ?x \<noteq> 0 then bits_of ?v (nat ?x) else [])) @
      tree_word dtree e) @ (if ?y \<noteq> 0 then bits_of ?w (nat ?y) else []))"
    by (intro emits_extra' D(3,4,5) emits_trans [OF _ emits_code [OF dt c1(3,4)]] L(3,4,5) emits_code [OF lt c1(1,2)])
  ultimately show ?thesis
    by (simp only: Match token_bits.simps Let_def k_def [symmetric] c1_def [symmetric] d_def [symmetric] e_def [symmetric] append_assoc)
qed

lemma decode_token_bits:
  assumes lt: "coded ltree llens" and dt: "coded dtree dlens" and v: "valid_token tok"
    and c: "has_codes llens [lit_sym tok]" "has_codes dlens (dist_syms tok)"
  shows "decode_token llens dlens (token_bits ltree dtree tok @ rest) = Some (Some tok, rest)"
proof (cases tok)
  case (Literal b)
  then show ?thesis
    using decode_code [OF lt, of "unat b" rest] c(1) unat_u8_le [of b] by (simp add: decode_token_def)
next
  case (Match len dist)
  note v = v [unfolded Match]
  define k where "k = len - 3"
  have k: "k < 256" "len = k + 3" using v by (auto simp: k_def)
  define c1 where "c1 = unat (length_code ! k)"
  define d :: u32 where "d = of_nat (dist - 1)"
  define e where "e = unat (d_code d)"
  have d: "d < 2 ^ 15" "unat d + 1 = dist"
    unfolding d_def by (rule valid_dist_word(2) [OF v]) (unfold valid_dist_word(1) [OF v], use v in simp)
  note L = length_extra [OF k(1), folded c1_def] and D = dist_extra [OF d(1), folded e_def]
  have c1: "c1 + LITERALS + 1 < length llens" "llens ! (c1 + LITERALS + 1) \<noteq> 0" "e < length dlens" "dlens ! e \<noteq> 0"
    using c by (simp_all add: Match c1_def k_def e_def d_def)
  have n: "c1 + LITERALS + 1 - 257 = c1" "\<not> c1 + LITERALS + 1 < 256" "c1 + LITERALS + 1 \<noteq> 256"
    "\<not> 286 \<le> c1 + LITERALS + 1" "\<not> 30 \<le> e"
    using L(1) D(1) by (simp_all add: LITERALS_def)
  have G1: "get_bits (nat (extra_lbits ! c1)) ((if extra_lbits ! c1 \<noteq> 0
      then bits_of (of_int (int k - base_length ! c1) :: u32) (nat (extra_lbits ! c1)) else []) @ xs) =
    Some (if extra_lbits ! c1 \<noteq> 0 then unat (of_int (int k - base_length ! c1) :: u32) else 0, xs)" for xs
    by (rule get_extra) (erule L(5), rule L(3), rule L(4))
  have G2: "get_bits (nat (extra_dbits ! e)) ((if extra_dbits ! e \<noteq> 0
      then bits_of (d - of_int (base_dist ! e)) (nat (extra_dbits ! e)) else []) @ xs) =
    Some (if extra_dbits ! e \<noteq> 0 then unat (d - of_int (base_dist ! e)) else 0, xs)" for xs
    by (rule get_extra) (erule D(5), rule D(3), rule D(4))
  show ?thesis
    by (simp only: Match token_bits.simps Let_def k_def [symmetric] c1_def [symmetric] d_def [symmetric] e_def [symmetric]
      append_assoc decode_token_def decode_code [OF lt c1(1,2)] option.case prod.case n if_False
      L(2) [symmetric] G1 decode_code [OF dt c1(3,4)] D(2) [symmetric] G2
      L(6) D(6) k(2) [symmetric] d(2))
qed

definition tokens_bits :: "ct_data list \<Rightarrow> ct_data list \<Rightarrow> token list \<Rightarrow> bool list" where
  "tokens_bits ltree dtree toks = concat (map (token_bits ltree dtree) toks) @ tree_word ltree END_BLOCK"

text \<open>The buffers hold the tokens.\<close>

definition holds_tokens :: "deflate_state \<Rightarrow> token list \<Rightarrow> bool" where
  "holds_tokens s toks \<longleftrightarrow> unat (last_lit s) = length toks \<and> list_all valid_token toks \<and>
     length toks \<le> unat (lit_bufsize s) \<and> (\<forall>i < length toks. recorded s i (toks ! i))"

lemma tallied_holds: "tallied s toks \<Longrightarrow> holds_tokens s toks"
  by (simp add: tallied_def holds_tokens_def recorded_def)

text \<open>A token is still there when the output has not reached its distance.\<close>

lemma d_start_bounds: "d_start s \<le> unat (lit_bufsize s)" "unat (lit_bufsize s) \<le> d_start s + 1"
  by (simp_all add: d_start_def)

lemma recorded_kept:
  assumes "overlay_kept s r" "length (pending r) \<le> d_start s + 2 * i" "i \<le> unat (lit_bufsize s)" "recorded s i tok"
  shows "recorded r i tok"
proof -
  have "length (pending r) \<le> l_start s + i" using assms(2,3) d_start_bounds(1) [of s] by (simp add: l_start_def)
  then show ?thesis using assms(1,2,4) by (simp add: overlay_kept_def recorded_def)
qed

lemma same_trees_holds:
  assumes "same_trees s r" "holds_tokens s toks" "length (pending r) \<le> d_start s"
  shows "holds_tokens r toks"
proof -
  have "overlay_kept s r" "last_lit r = last_lit s" "lit_bufsize r = lit_bufsize s" using assms(1) by (simp_all add: same_trees_def)
  then show ?thesis
    using assms(2,3) recorded_kept [of s r] by (auto simp: holds_tokens_def)
qed

lemma compress_loop_emits:
  assumes lt: "coded ltree llens" and dt: "coded dtree dlens" and h: "holds_tokens s toks"
    and c: "has_codes llens (map lit_sym toks)" "has_codes dlens (concat (map dist_syms toks))"
  shows "n \<le> length toks \<Longrightarrow>
    (\<forall>m < n. length (pending (foldl (compress_step ltree dtree) s [0..<m])) \<le> d_start s + 2 * m) \<Longrightarrow>
    emits s (foldl (compress_step ltree dtree) s [0..<n]) (concat (map (token_bits ltree dtree) (take n toks)))"
proof (induction n)
  case 0
  then show ?case by simp
next
  case (Suc n)
  let ?s = "foldl (compress_step ltree dtree) s [0..<n]" and ?t = "toks ! n"
  have IH: "emits s ?s (concat (map (token_bits ltree dtree) (take n toks)))" using Suc by simp
  have t: "?t \<in> set toks" using Suc.prems by simp
  have "emits ?s (compress_step ltree dtree ?s n) (token_bits ltree dtree ?t)"
  proof (rule compress_step_emits [OF lt dt])
    show "valid_token ?t" using h t by (simp add: holds_tokens_def list_all_iff)
    show "recorded ?s n ?t"
      using recorded_kept [of s ?s n ?t] IH Suc.prems h by (simp add: emits_def holds_tokens_def same_trees_def)
    show "has_codes llens [lit_sym ?t]" "has_codes dlens (dist_syms ?t)"
      using c t by (auto simp: has_codes_def)
  qed
  then show ?case
    using emits_trans [OF IH] Suc.prems by (simp add: take_Suc_conv_app_nth)
qed

text \<open>\<open>compress_block\<close> starts with the output before \<open>d_buf\<close> and passes its assertion after every token.\<close>

definition overlay_ok :: "deflate_state \<Rightarrow> ct_data list \<Rightarrow> ct_data list \<Rightarrow> bool" where
  "overlay_ok s ltree dtree \<longleftrightarrow> length (pending s) \<le> d_start s \<and>
     list_all (\<lambda>lx. overlay_assert (foldl (compress_step ltree dtree) s [0..<lx]) lx) [1..<Suc (unat (last_lit s))]"

lemma compress_step_bufsize: "lit_bufsize (compress_step ltree dtree s lx) = lit_bufsize s"
  by (simp add: compress_step_def Let_def send_code_def)

lemma compress_loop_bufsize: "lit_bufsize (foldl (compress_step ltree dtree) s ks) = lit_bufsize s"
  by (induction ks arbitrary: s) (simp_all add: compress_step_bufsize)

lemma overlay_ok_assert:
  assumes "overlay_ok s ltree dtree" "m \<noteq> 0" "m \<le> unat (last_lit s)"
  shows "length (pending (foldl (compress_step ltree dtree) s [0..<m])) < unat (lit_bufsize s) + 2 * m"
proof -
  have "m \<in> set [1..<Suc (unat (last_lit s))]" unfolding set_upt using assms(2,3) by auto
  then show ?thesis
    using assms(1) unfolding overlay_ok_def list_all_iff overlay_assert_def compress_loop_bufsize by blast
qed

lemma overlay_okD:
  assumes "overlay_ok s ltree dtree" "m \<le> unat (last_lit s)"
  shows "length (pending (foldl (compress_step ltree dtree) s [0..<m])) \<le> d_start s + 2 * m"
proof (cases "m = 0")
  case False
  then show ?thesis using overlay_ok_assert [OF assms(1) _ assms(2)] d_start_bounds(2) [of s] by simp
qed (use assms(1) in \<open>simp add: overlay_ok_def\<close>)

lemma compress_block_emits:
  assumes lt: "coded ltree llens" and dt: "coded dtree dlens" and h: "holds_tokens s toks" and o: "overlay_ok s ltree dtree"
    and c: "has_codes llens (lit_syms toks)" "has_codes dlens (concat (map dist_syms toks))"
  shows "emits s (compress_block s ltree dtree) (tokens_bits ltree dtree toks)"
proof -
  have c': "has_codes llens (map lit_sym toks)" "END_BLOCK < length llens" "llens ! END_BLOCK \<noteq> 0"
    using c(1) by (simp_all add: lit_syms_def)
  have n: "unat (last_lit s) = length toks" using h by (simp add: holds_tokens_def)
  have b: "compress_block s ltree dtree = send_code (foldl (compress_step ltree dtree) s [0..<length toks]) END_BLOCK ltree"
    using n by (auto simp: compress_block_def Let_def)
  show ?thesis
    unfolding b tokens_bits_def
    using emits_trans [OF compress_loop_emits [OF lt dt h c'(1) c(2) order_refl] emits_code [OF lt c'(2,3)]]
      overlay_okD [OF o] n by simp
qed

text \<open>The output of a block ends before \<open>l_buf\<close>.\<close>

lemma pending_sent: "sink_ok s \<Longrightarrow> 8 * length (pending s) \<le> length (sent s) \<and> length (sent s) \<le> 8 * length (pending s) + 16"
  by (auto simp: sent_def length_byte_stream sink_ok_def)

lemma emits_pending:
  assumes "emits s r bs" "sink_ok s" "length bs \<le> 15"
  shows "length (pending r) \<le> length (pending s) + 3"
  using pending_sent [of s] pending_sent [of r] assms by (auto simp: emits_def)

lemma compress_block_room:
  assumes lt: "coded ltree llens" and dt: "coded dtree dlens" and h: "holds_tokens s toks" and k: "sink_ok s" and o: "overlay_ok s ltree dtree"
    and l: "length toks < unat (lit_bufsize s)"
    and c: "has_codes llens (lit_syms toks)" "has_codes dlens (concat (map dist_syms toks))"
  shows "length (pending (compress_block s ltree dtree)) \<le> l_start s"
    and "length (sent (compress_block s ltree dtree)) \<le> 8 * (4 * unat (lit_bufsize s))"
proof -
  let ?n = "length toks" and ?L = "unat (lit_bufsize s)"
  let ?r = "foldl (compress_step ltree dtree) s [0..<?n]"
  have n: "unat (last_lit s) = ?n" "?n < ?L" using h l by (simp_all add: holds_tokens_def)
  have c': "has_codes llens (map lit_sym toks)" "END_BLOCK < length llens" "llens ! END_BLOCK \<noteq> 0"
    using c(1) by (simp_all add: lit_syms_def)
  have "emits s ?r (concat (map (token_bits ltree dtree) (take ?n toks)))"
    by (rule compress_loop_emits [OF lt dt h c'(1) c(2) order_refl]) (use overlay_okD [OF o] n in simp)
  then have "sink_ok ?r" using k by (simp add: emits_def)
  moreover have "compress_block s ltree dtree = send_code ?r END_BLOCK ltree" using n by (auto simp: compress_block_def Let_def)
  moreover have "length (tree_word ltree END_BLOCK) \<le> 15"
    using codedD(2,3) [OF lt c'(2,3)] by (simp add: tree_word_def)
  ultimately have r: "length (pending (compress_block s ltree dtree)) \<le> length (pending ?r) + 3"
    "length (sent (compress_block s ltree dtree)) \<le> 8 * length (pending ?r) + 31"
    using emits_pending [OF emits_code [OF lt c'(2,3), of ?r]] emits_code [OF lt c'(2,3), of ?r] pending_sent [of ?r]
    by (auto simp: emits_def)
  have "length (pending (compress_block s ltree dtree)) \<le> l_start s \<and>
    length (sent (compress_block s ltree dtree)) \<le> 8 * (4 * ?L)"
  proof (cases "?n = 0")
    case True
    then have "length (pending ?r) \<le> d_start s" using o by (simp add: overlay_ok_def)
    moreover have g: "2 * (l div 2) + 3 \<le> 3 * l \<and> 8 * (2 * (l div 2)) + 31 \<le> 8 * (4 * l)" if "0 < l" for l :: nat
    proof (cases "l = 1")
      case False
      have "2 * (l div 2) \<le> l" by simp
      moreover have "2 \<le> l" using that False by simp
      ultimately show ?thesis by linarith
    qed simp
    have "0 < ?L" using n(2) by simp
    then have "d_start s + 3 \<le> l_start s" "8 * d_start s + 31 \<le> 8 * (4 * ?L)"
      using g [of ?L] by (simp_all only: d_start_def l_start_def one_plus_numeral add_num_simps conj_absorb simp_thms)
    ultimately show ?thesis using r by linarith
  next
    case False
    then have "length (pending ?r) < ?L + 2 * ?n" using overlay_ok_assert [OF o, of ?n] n(1) by simp
    then show ?thesis using r n(2) by (simp add: l_start_def)
  qed
  then show "length (pending (compress_block s ltree dtree)) \<le> l_start s"
    "length (sent (compress_block s ltree dtree)) \<le> 8 * (4 * unat (lit_bufsize s))" by simp_all
qed

text \<open>
  When the assertion holds. A literal takes at most 15 bits and a match at most 48, while every
  token frees two bytes: the output stays behind the tokens if there are few matches.
\<close>

fun is_match :: "token \<Rightarrow> bool" where
  "is_match (Literal b) \<longleftrightarrow> False"
| "is_match (Match len dist) \<longleftrightarrow> True"

definition match_count :: "token list \<Rightarrow> nat" where
  "match_count toks = length (filter is_match toks)"

lemma extra_small: "c < 29 \<Longrightarrow> rfc_length_extra ! c \<le> 5" "d < 30 \<Longrightarrow> rfc_dist_extra ! d \<le> 13"
proof -
  have "length rfc_length_extra = 29" "length rfc_dist_extra = 30"
    "\<forall>x \<in> set rfc_length_extra. x \<le> 5" "\<forall>x \<in> set rfc_dist_extra. x \<le> 13"
    by (simp_all add: rfc_length_extra_def rfc_dist_extra_def)
  then show "c < 29 \<Longrightarrow> rfc_length_extra ! c \<le> 5" "d < 30 \<Longrightarrow> rfc_dist_extra ! d \<le> 13" by (metis nth_mem)+
qed

lemma tree_word_length:
  assumes "coded tree lens" "c < length lens" "lens ! c \<noteq> 0"
  shows "length (tree_word tree c) \<le> 15"
  using codedD(2,3) [OF assms] by (simp add: tree_word_def)

lemma token_bits_length:
  assumes lt: "coded ltree llens" and dt: "coded dtree dlens" and v: "valid_token tok"
    and c: "has_codes llens [lit_sym tok]" "has_codes dlens (dist_syms tok)"
  shows "length (token_bits ltree dtree tok) \<le> 16 + (if is_match tok then 32 else 0)"
proof (cases tok)
  case (Literal b)
  then show ?thesis using tree_word_length [OF lt, of "unat b"] c(1) by simp
next
  case (Match len dist)
  note v = v [unfolded Match]
  define k where "k = len - 3"
  define c1 where "c1 = unat (length_code ! k)"
  define e where "e = unat (d_code (of_nat (dist - 1)))"
  have k: "k < 256" using v by (auto simp: k_def)
  have x: "nat (extra_lbits ! c1) \<le> 5" using length_extra(1,2) [OF k] extra_small(1) by (simp add: c1_def)
  have y: "nat (extra_dbits ! e) \<le> 13"
    using dist_extra(1,2) [OF valid_dist_word(2) [OF v]] extra_small(2) by (simp add: e_def)
  have "length (tree_word ltree (c1 + LITERALS + 1)) \<le> 15" "length (tree_word dtree e) \<le> 15"
    using c tree_word_length [OF lt, of "c1 + LITERALS + 1"] tree_word_length [OF dt, of e] by (simp_all add: Match c1_def k_def e_def)
  then show ?thesis
    using x y unfolding Match token_bits.simps Let_def k_def [symmetric] c1_def [symmetric] e_def [symmetric]
    by simp
qed

lemma compress_loop_pending:
  assumes "coded ltree llens" "coded dtree dlens" "holds_tokens s toks" "sink_ok s"
    and "has_codes llens (map lit_sym toks)" "has_codes dlens (concat (map dist_syms toks))"
    and "n \<le> length toks" "\<forall>m < n. length (pending (foldl (compress_step ltree dtree) s [0..<m])) \<le> d_start s + 2 * m"
  defines "p \<equiv> 8 * length (pending (foldl (compress_step ltree dtree) s [0..<n]))"
    and "b \<equiv> length (sent s) + length (concat (map (token_bits ltree dtree) (take n toks)))"
  shows "p \<le> b \<and> b \<le> p + 16"
  using compress_loop_emits [OF assms(1-3,5-8)] assms(4)
    pending_sent [of "foldl (compress_step ltree dtree) s [0..<n]"] unfolding p_def b_def by (simp add: emits_def)

lemma few_matches_overlay:
  assumes lt: "coded ltree llens" and dt: "coded dtree dlens" and h: "holds_tokens s toks" and k: "sink_ok s"
    and c: "has_codes llens (lit_syms toks)" "has_codes dlens (concat (map dist_syms toks))"
    and f: "length (sent s) + 32 * match_count toks < 8 * d_start s"
  shows "overlay_ok s ltree dtree"
proof -
  let ?p = "\<lambda>n. length (pending (foldl (compress_step ltree dtree) s [0..<n]))"
  have n: "unat (last_lit s) = length toks" "list_all valid_token toks" using h by (simp_all add: holds_tokens_def)
  have c': "has_codes llens (map lit_sym toks)" using c(1) by (simp add: lit_syms_def)
  have bits: "length (concat (map (token_bits ltree dtree) ts)) \<le> 16 * length ts + 32 * match_count ts"
    if "list_all valid_token ts" "has_codes llens (map lit_sym ts)" "has_codes dlens (concat (map dist_syms ts))" for ts
    using that
  proof (induction ts)
    case (Cons t ts)
    then show ?case using token_bits_length [OF lt dt, of t] by (cases "is_match t") (auto simp: match_count_def)
  qed (simp add: match_count_def)
  have pre: "length (concat (map (token_bits ltree dtree) (take m toks))) \<le> 16 * m + 32 * match_count toks" if "m \<le> length toks" for m
  proof -
    have "set (take m toks) \<subseteq> set toks" by (rule set_take_subset)
    then have "list_all valid_token (take m toks)" "has_codes llens (map lit_sym (take m toks))"
      "has_codes dlens (concat (map dist_syms (take m toks)))"
      using n(2) c' c(2) unfolding has_codes_def list_all_iff by fastforce+
    moreover have "match_count (take m toks) \<le> match_count toks"
      unfolding match_count_def by (metis append_take_drop_id filter_append length_append le_add1)
    ultimately show ?thesis using bits [of "take m toks"] that by (simp add: min_absorb2)
  qed
  have less: "?p m < unat (lit_bufsize s) + 2 * m" if "m \<le> length toks" for m
    using that
  proof (induction m rule: less_induct)
    case (less m)
    have "?p j \<le> d_start s + 2 * j" if "j < m" for j
      using less that d_start_bounds(2) [of s] by fastforce
    then have "8 * ?p m \<le> length (sent s) + length (concat (map (token_bits ltree dtree) (take m toks)))"
      using compress_loop_pending [OF lt dt h k c' c(2) less.prems] by simp
    then show ?case using pre [OF less.prems] f d_start_bounds(1) [of s] by linarith
  qed
  have "length (pending s) \<le> d_start s" using pending_sent [OF k] f by linarith
  moreover have "overlay_assert (foldl (compress_step ltree dtree) s [0..<lx]) lx" if "lx \<in> set [1..<Suc (unat (last_lit s))]" for lx
    using less [of lx] that n(1) unfolding overlay_assert_def compress_loop_bufsize set_upt by simp
  ultimately show ?thesis unfolding overlay_ok_def list_all_iff by blast
qed

lemma decode_tokens_bits:
  assumes lt: "coded ltree llens" and dt: "coded dtree dlens"
  shows "list_all valid_token toks \<Longrightarrow> has_codes llens (lit_syms toks) \<Longrightarrow> has_codes dlens (concat (map dist_syms toks)) \<Longrightarrow>
    decode_tokens llens dlens (tokens_bits ltree dtree toks @ rest) = Some (toks, rest)"
proof (induction toks)
  case Nil
  then have "decode_token llens dlens (tree_word ltree END_BLOCK @ rest) = Some (None, rest)"
    using decode_code [OF lt, of END_BLOCK rest] by (simp add: lit_syms_def decode_token_def END_BLOCK_def)
  then show ?case by (simp add: tokens_bits_def decode_tokens.simps)
next
  case (Cons tok toks)
  have "tokens_bits ltree dtree (tok # toks) @ rest = token_bits ltree dtree tok @ (tokens_bits ltree dtree toks @ rest)"
    by (simp add: tokens_bits_def)
  then show ?case
    using Cons decode_token_bits [OF lt dt, of tok] by (subst decode_tokens.simps) (simp add: lit_syms_def)
qed

section \<open>send\_all\_trees\<close>

fun item_bits :: "ct_data list \<Rightarrow> item \<Rightarrow> bool list" where
  "item_bits bl (c, v, k) = tree_word bl c @ (if k = 0 then [] else bits_of (of_nat v :: u32) k)"

definition items_bits :: "ct_data list \<Rightarrow> item list \<Rightarrow> bool list" where
  "items_bits bl items = concat (map (item_bits bl) items)"

lemma items_bits_simps [simp]:
  "items_bits bl [] = []" "items_bits bl (i # is) = item_bits bl i @ items_bits bl is"
  "items_bits bl (is @ js) = items_bits bl is @ items_bits bl js"
  by (simp_all add: items_bits_def)

lemma item_ok_small:
  assumes "item_ok (c, v, k)"
  shows "k \<le> 7" "unat (of_nat v :: u32) = v" "v < 2 ^ k"
proof -
  show k: "k \<le> 7" "v < 2 ^ k" using assms by auto
  then have "v < 2 ^ 7" by (meson less_le_trans power_increasing one_le_numeral)
  then show "unat (of_nat v :: u32) = v" by (simp add: unat_of_nat_small)
qed

lemma send_item_emits:
  assumes bl: "coded (bl_tree s) blens" and i: "item_ok i" and c: "has_codes blens [fst i]"
  shows "emits s (send_item s i) (item_bits (bl_tree s) i)"
proof -
  obtain c v k where ii: "i = (c, v, k)" by (cases i)
  note sm = item_ok_small [OF i [unfolded ii]]
  have "emits s (send_code s c (bl_tree s)) (tree_word (bl_tree s) c)"
    using emits_code [OF bl] c by (simp add: ii)
  moreover have "emits r (send_bits r (of_nat v) (int k)) (bits_of (of_nat v :: u32) k)" for r
    using sm by (intro emits_bits) simp_all
  ultimately show ?thesis
    using emits_trans by (auto simp: ii send_item_def Let_def)
qed

lemma send_items_emits:
  assumes bl: "coded (bl_tree s) blens"
  shows "items_ok acc items \<Longrightarrow> has_codes blens (map fst items) \<Longrightarrow>
    emits s (send_items s items) (items_bits (bl_tree s) items)"
  using bl
proof (induction items arbitrary: s acc)
  case (Cons i items)
  have e: "emits s (send_item s i) (item_bits (bl_tree s) i)"
    using Cons.prems by (intro send_item_emits [OF Cons.prems(3)]) simp_all
  have b: "bl_tree (send_item s i) = bl_tree s" using same_trees_item [of s i] by (simp add: same_trees_def)
  have "emits (send_item s i) (send_items (send_item s i) items) (items_bits (bl_tree s) items)"
    using Cons.IH [of "expand_item acc i" "send_item s i"] Cons.prems unfolding b by simp
  then show ?case using emits_trans [OF e] by simp
qed simp

lemma decode_lens_items:
  assumes bl: "coded bl blens"
  shows "items_ok acc items \<Longrightarrow> has_codes blens (map fst items) \<Longrightarrow> length (expand acc items) = n \<Longrightarrow>
    decode_lens blens n acc (items_bits bl items @ rest) = Some (expand acc items, rest)"
proof (induction items arbitrary: acc)
  case Nil
  then show ?case by (simp add: decode_lens.simps)
next
  case (Cons i items)
  obtain c v k where ii: "i = (c, v, k)" by (cases i)
  have i: "item_ok (c, v, k)" using Cons.prems(1) by (simp add: ii)
  note sm = item_ok_small [OF i]
  have d: "decode_sym blens (tree_word bl c @ xs) = Some (c, xs)" for xs
    using decode_code [OF bl] Cons.prems(2) by (simp add: ii)
  have g: "get_bits k (bits_of (of_nat v :: u32) k @ xs) = Some (v, xs)" for xs
    using get_bits_word [of "of_nat v :: u32" k] sm by simp
  have "length (expand_item acc i) \<le> n"
    using expand_length [of "expand_item acc i" items] Cons.prems(3) by simp
  moreover have "length acc < length (expand_item acc i)" by (auto simp: ii)
  ultimately have n: "\<not> n \<le> length acc" by simp
  have "decode_lens blens n acc (item_bits bl i @ xs) = decode_lens blens n (expand_item acc i) xs" for xs
    using i Cons.prems(1) n g [of xs]
    by (subst decode_lens.simps) (auto simp: ii d)
  then show ?case using Cons by (simp add: ii)
qed

lemma get_many_words:
  fixes vs :: "'a::len word list"
  assumes "k \<le> LENGTH('a)"
  shows "\<forall>v \<in> set vs. unat v < 2 ^ k \<Longrightarrow>
    get_many k (length vs) (concat (map (\<lambda>v. bits_of v k) vs) @ rest) = Some (map unat vs, rest)"
proof (induction vs)
  case (Cons v vs)
  then show ?case by (simp add: get_bits_word assms)
qed simp

lemma bl_order_rfc: "map unat bl_order = rfc_order" "length rfc_order = 19" "length bl_order = 19"
  "set rfc_order = {..<19}" "distinct rfc_order"
  by (simp_all add: bl_order_def rfc_order_def) (auto simp: numeral_eq_Suc less_Suc_eq)

lemma bl_order_nth: "r < 19 \<Longrightarrow> unat (bl_order ! r) = rfc_order ! r"
  by (metis bl_order_rfc(1,3) nth_map)

definition update_all :: "'a list \<Rightarrow> nat list \<Rightarrow> 'a list \<Rightarrow> 'a list" where
  "update_all l is vs = foldl (\<lambda>l (i, v). l[i := v]) l (zip is vs)"

lemma update_all_simps [simp]:
  "update_all l [] vs = l" "update_all l is [] = l"
  "update_all l (i # is) (v # vs) = update_all (l[i := v]) is vs"
  by (simp_all add: update_all_def)

lemma update_all_length [simp]: "length (update_all l is vs) = length l"
proof (induction "is" arbitrary: vs l)
  case (Cons i "is")
  then show ?case by (cases vs) auto
qed simp

lemma update_all_other: "j \<notin> set (take (length vs) is) \<Longrightarrow> update_all l is vs ! j = l ! j"
proof (induction "is" arbitrary: vs l)
  case (Cons i "is")
  then show ?case by (cases vs) auto
qed simp

lemma update_all_nth:
  "distinct is \<Longrightarrow> length vs \<le> length is \<Longrightarrow> \<forall>i \<in> set is. i < length l \<Longrightarrow> r < length vs \<Longrightarrow>
    update_all l is vs ! (is ! r) = vs ! r"
proof (induction "is" arbitrary: vs l r)
  case (Cons i "is")
  then obtain v vs' where vs: "vs = v # vs'" by (cases vs) auto
  have "i \<notin> set (take (length vs') is)" using Cons.prems(1) in_set_takeD by fastforce
  then show ?case
    using Cons.IH [of vs' "l[i := v]" "r - 1"] Cons.prems
    by (cases r) (auto simp: vs update_all_other)
qed simp

lemma place_lens_order:
  assumes len: "length bl = 19" and n: "n \<le> 19" and z: "\<And>r. n \<le> r \<Longrightarrow> r < 19 \<Longrightarrow> bl ! (rfc_order ! r) = 0"
  shows "place_lens (map (\<lambda>r. bl ! (rfc_order ! r)) [0..<n]) = bl"
proof (rule nth_equalityI)
  let ?vs = "map (\<lambda>r. bl ! (rfc_order ! r)) [0..<n]"
  have a: "distinct rfc_order" "length ?vs \<le> length rfc_order" "\<forall>i \<in> set rfc_order. i < length (replicate 19 (0 :: nat))"
    using n by (simp_all add: bl_order_rfc)
  note u = update_all_length [of "replicate 19 0" rfc_order ?vs] update_all_nth [OF a]
    update_all_other [of _ ?vs rfc_order "replicate 19 0"]
  note u = u [unfolded update_all_def, folded place_lens_def]
  show l: "length (place_lens ?vs) = length bl" using u(1) len by simp
  fix j assume "j < length (place_lens ?vs)"
  then have "j \<in> set rfc_order" using l len by (simp add: bl_order_rfc)
  then obtain r where r: "r < 19" "j = rfc_order ! r" by (metis in_set_conv_nth bl_order_rfc(2))
  show "place_lens ?vs ! j = bl ! j"
  proof (cases "r < n")
    case True
    then show ?thesis using u(2) [of r] r by simp
  next
    case False
    have "j \<notin> set (take n rfc_order)"
      using False r bl_order_rfc(2,5) by (auto simp: in_set_conv_nth nth_eq_iff_index_eq)
    moreover have "j < 19" using r nth_mem [of r rfc_order] by (simp add: bl_order_rfc)
    ultimately show ?thesis using u(3) [of j] z [of r] False r by simp
  qed
qed

text \<open>The header of a dynamic block.\<close>

definition header_ok :: "deflate_state \<Rightarrow> nat list \<Rightarrow> nat list \<Rightarrow> nat list \<Rightarrow> nat \<Rightarrow> bool" where
  "header_ok s llens dlens bl blcodes \<longleftrightarrow>
     coded (bl_tree s) bl \<and> length bl = 19 \<and> (\<forall>l \<in> set bl. l < 8) \<and> 4 \<le> blcodes \<and> blcodes \<le> 19 \<and>
     (\<forall>r. blcodes \<le> r \<and> r < 19 \<longrightarrow> bl ! (rfc_order ! r) = 0) \<and>
     257 \<le> length llens \<and> length llens \<le> 286 \<and> 1 \<le> length dlens \<and> length dlens \<le> 30 \<and>
     length llens < length (dyn_ltree s) \<and> length dlens < length (dyn_dtree s) \<and>
     (let li = tree_items (dyn_ltree s) (int (length llens) - 1); di = tree_items (dyn_dtree s) (int (length dlens) - 1)
      in items_ok [] li \<and> expand [] li = llens \<and> items_ok llens di \<and> expand llens di = llens @ dlens \<and>
         has_codes bl (map fst (li @ di)))"

definition header_bits :: "deflate_state \<Rightarrow> nat list \<Rightarrow> nat list \<Rightarrow> nat \<Rightarrow> bool list" where
  "header_bits s llens dlens blcodes =
     bits_of (of_nat (length llens - 257) :: u32) 5 @ bits_of (of_nat (length dlens - 1) :: u32) 5 @
     bits_of (of_nat (blcodes - 4) :: u32) 4 @
     concat (map (\<lambda>v. bits_of v 3) (map (\<lambda>r. ucast (Len (bl_tree s ! unat (bl_order ! r))) :: u32) [0..<blcodes])) @
     items_bits (bl_tree s) (tree_items (dyn_ltree s) (int (length llens) - 1)) @
     items_bits (bl_tree s) (tree_items (dyn_dtree s) (int (length dlens) - 1))"

lemma emits_loop:
  assumes "\<And>s r. same_trees s0 s \<Longrightarrow> r < n \<Longrightarrow> emits s (f s r) (b r)"
  shows "emits s0 (foldl f s0 [0..<n]) (concat (map b [0..<n]))"
  using assms
proof (induction n)
  case (Suc n)
  let ?s = "foldl f s0 [0..<n]"
  have e: "emits s0 ?s (concat (map b [0..<n]))" using Suc by simp
  moreover have "emits ?s (f ?s n) (b n)" using Suc.prems [of ?s n] e by (simp add: emits_def)
  ultimately show ?case using emits_trans by fastforce
qed simp

lemma bl_len_word:
  assumes "header_ok s llens dlens bl blcodes" "r < 19"
  shows "unat (ucast (Len (bl_tree s ! unat (bl_order ! r))) :: u32) = bl ! (rfc_order ! r)"
    "bl ! (rfc_order ! r) < 8"
proof -
  have "rfc_order ! r < 19" using assms(2) nth_mem [of r rfc_order] by (simp add: bl_order_rfc)
  then have "unat (Len (bl_tree s ! (rfc_order ! r))) = bl ! (rfc_order ! r)" and l: "bl ! (rfc_order ! r) < 8"
    using assms(1) by (auto simp: header_ok_def coded_def)
  then show "unat (ucast (Len (bl_tree s ! unat (bl_order ! r))) :: u32) = bl ! (rfc_order ! r)"
    by (subst unat_ucast_small) (simp_all add: bl_order_nth [OF assms(2)])
  show "bl ! (rfc_order ! r) < 8" by (rule l)
qed

lemma emits_int:
  assumes "x = int n" "n < 2 ^ l" "l \<le> 16"
  shows "emits s (send_bits s (of_int x) (int l)) (bits_of (of_nat n :: u32) l)"
proof -
  have "n < 2 ^ 16" using assms by (meson less_le_trans power_increasing one_le_numeral)
  then have "unat (of_nat n :: u32) = n" by (simp add: unat_of_nat_small)
  then show ?thesis using emits_bits [of "of_nat n" l s] assms by simp
qed

lemma send_all_trees_emits:
  assumes h: "header_ok s llens dlens bl blcodes"
  shows "emits s (send_all_trees s (int (length llens)) (int (length dlens)) (int blcodes)) (header_bits s llens dlens blcodes)"
proof -
  let ?L = "int (length llens)" and ?D = "int (length dlens)"
  have H: "coded (bl_tree s) bl" "length bl = 19" "4 \<le> blcodes" "blcodes \<le> 19" "257 \<le> length llens" "length llens \<le> 286"
    "1 \<le> length dlens" "length dlens \<le> 30" "length llens < length (dyn_ltree s)" "length dlens < length (dyn_dtree s)"
    "items_ok [] (tree_items (dyn_ltree s) (?L - 1))" "items_ok llens (tree_items (dyn_dtree s) (?D - 1))"
    "has_codes bl (map fst (tree_items (dyn_ltree s) (?L - 1)))" "has_codes bl (map fst (tree_items (dyn_dtree s) (?D - 1)))"
    using h by (simp_all add: header_ok_def Let_def)
  have ne: "llens \<noteq> []" "dlens \<noteq> []" using H by auto
  define s1 where "s1 = send_bits s (of_int (?L - 257)) 5"
  define s2 where "s2 = send_bits s1 (of_int (?D - 1)) 5"
  define s3 where "s3 = send_bits s2 (of_int (int blcodes - 4)) 4"
  let ?f = "\<lambda>s rank. send_bits s (ucast (Len (bl_tree s ! unat (bl_order ! rank)))) 3"
  define s4 where "s4 = foldl ?f s3 [0..<blcodes]"
  define s5 where "s5 = send_tree s4 L_TREE (?L - 1)"
  let ?b = "\<lambda>r. bits_of (ucast (Len (bl_tree s ! unat (bl_order ! r))) :: u32) 3"
  have 1: "emits s s1 (bits_of (of_nat (length llens - 257) :: u32) 5)"
    unfolding s1_def by (rule emits_int [where l = 5, unfolded of_nat_numeral]) (use H in auto)
  have 2: "emits s1 s2 (bits_of (of_nat (length dlens - 1) :: u32) 5)"
    unfolding s2_def by (rule emits_int [where l = 5, unfolded of_nat_numeral]) (use H in auto)
  have 3: "emits s2 s3 (bits_of (of_nat (blcodes - 4) :: u32) 4)"
    unfolding s3_def by (rule emits_int [where l = 4, unfolded of_nat_numeral]) (use H in auto)
  have s3: "same_trees s s3"
    unfolding s1_def s2_def s3_def
    by (rule same_trees_trans [OF same_trees_trans [OF same_trees_send_bits(1) same_trees_send_bits(1)] same_trees_send_bits(1)])
  have 4: "emits s3 s4 (concat (map ?b [0..<blcodes]))"
    unfolding s4_def
  proof (rule emits_loop)
    fix q r
    assume q: "same_trees s3 q" and r: "r < blcodes"
    have bl: "bl_tree q = bl_tree s" using q s3 by (simp add: same_trees_def)
    have "unat (ucast (Len (bl_tree s ! unat (bl_order ! r))) :: u32) < 2 ^ 3"
      using bl_len_word [OF h, of r] r H(4) by simp
    then show "emits q (send_bits q (ucast (Len (bl_tree q ! unat (bl_order ! r)))) 3) (?b r)"
      unfolding bl using emits_bits [of _ 3 q] by simp
  qed
  have s4: "same_trees s s4" using 4 s3 by (auto simp: emits_def intro: same_trees_trans)
  have bl4: "bl_tree s4 = bl_tree s" "dyn_ltree s4 = dyn_ltree s" "dyn_dtree s4 = dyn_dtree s"
    using s4 by (simp_all add: same_trees_def)
  have t5: "s5 = send_items s4 (tree_items (dyn_ltree s) (?L - 1))"
    unfolding s5_def using H by (subst send_tree_items) (simp_all add: bl4 ne)
  have 5: "emits s4 s5 (items_bits (bl_tree s) (tree_items (dyn_ltree s) (?L - 1)))"
    unfolding t5 using send_items_emits [of s4 bl "[]"] H by (simp add: bl4)
  have bl5: "bl_tree s5 = bl_tree s" "dyn_dtree s5 = dyn_dtree s"
    using 5 bl4 by (simp_all add: emits_def same_trees_def)
  have t6: "send_tree s5 D_TREE (?D - 1) = send_items s5 (tree_items (dyn_dtree s) (?D - 1))"
    using H by (subst send_tree_items) (simp_all add: bl5 ne)
  have 6: "emits s5 (send_tree s5 D_TREE (?D - 1)) (items_bits (bl_tree s) (tree_items (dyn_dtree s) (?D - 1)))"
    unfolding t6 using send_items_emits [of s5 bl llens] H by (simp add: bl5)
  have "send_all_trees s ?L ?D (int blcodes) = send_tree s5 D_TREE (?D - 1)"
    by (simp add: send_all_trees_def Let_def s1_def s2_def s3_def s4_def s5_def)
  then show ?thesis
    using emits_trans [OF 1 emits_trans [OF 2 emits_trans [OF 3 emits_trans [OF 4 emits_trans [OF 5 6]]]]]
    unfolding header_bits_def by (simp add: comp_def)
qed

lemma decode_header:
  assumes h: "header_ok s llens dlens bl blcodes"
  shows "decode_dynamic (header_bits s llens dlens blcodes @ rest) = decode_tokens llens dlens rest"
proof -
  let ?li = "tree_items (dyn_ltree s) (int (length llens) - 1)" and ?di = "tree_items (dyn_dtree s) (int (length dlens) - 1)"
  let ?vs = "map (\<lambda>r. ucast (Len (bl_tree s ! unat (bl_order ! r))) :: u32) [0..<blcodes]"
  have H: "coded (bl_tree s) bl" "length bl = 19" "4 \<le> blcodes" "blcodes \<le> 19" "257 \<le> length llens" "length llens \<le> 286"
    "1 \<le> length dlens" "length dlens \<le> 30" "\<And>r. blcodes \<le> r \<Longrightarrow> r < 19 \<Longrightarrow> bl ! (rfc_order ! r) = 0"
    "items_ok [] (?li @ ?di)" "expand [] (?li @ ?di) = llens @ dlens" "has_codes bl (map fst (?li @ ?di))"
    using h by (simp_all add: header_ok_def Let_def)
  have g: "get_bits k (bits_of (of_nat n :: u32) k @ xs) = Some (n, xs)" if "n < 2 ^ k" "k \<le> 5" for n k xs
  proof -
    have "n < 2 ^ 5" using that by (meson less_le_trans power_increasing one_le_numeral)
    then have "unat (of_nat n :: u32) = n" by (simp add: unat_of_nat_small)
    then show ?thesis using get_bits_word [of "of_nat n :: u32" k xs] that by simp
  qed
  have vs: "map unat ?vs = map (\<lambda>r. bl ! (rfc_order ! r)) [0..<blcodes]"
    using bl_len_word(1) [OF h] H(4) by simp
  have "\<forall>v \<in> set ?vs. unat v < 2 ^ 3"
    using bl_len_word [OF h] H(4) by auto
  then have m: "get_many 3 (blcodes - 4 + 4) (concat (map (\<lambda>v. bits_of v 3) ?vs) @ xs) = Some (map unat ?vs, xs)" for xs
    using get_many_words [of 3 ?vs xs] H(3) by simp
  have p: "place_lens (map unat ?vs) = bl"
    unfolding vs by (rule place_lens_order [OF H(2,4,9)])
  have n: "length llens + (length dlens - 1 + 1) = length (llens @ dlens)" "length llens - 257 + 257 = length llens"
    using H by simp_all
  have d: "decode_lens bl (length (llens @ dlens)) [] (items_bits (bl_tree s) (?li @ ?di) @ xs) = Some (llens @ dlens, xs)" for xs
    using decode_lens_items [OF H(1,10,12) refl, of xs] unfolding H(11) .
  have g1: "length llens - 257 < 2 ^ 5" "length dlens - 1 < 2 ^ 5" "blcodes - 4 < 2 ^ 4" "(5::nat) \<le> 5" "(4::nat) \<le> 5"
    using H(4-8) by auto
  show ?thesis
    unfolding decode_dynamic_def header_bits_def append_assoc
    by (simp only: g [OF g1(1,4)] g [OF g1(2,4)] g [OF g1(3,5)] m p n option.case prod.case
        d [unfolded items_bits_simps append_assoc] append_eq_conv_conj take_append drop_append diff_self_eq_0 take_0 drop_0
        append_Nil2 take_all drop_all order_refl append_Nil)
qed

section \<open>Block headers\<close>

lemma decode_kind:
  assumes "b = 0 \<or> b = (1 :: int)" "k = 0 \<or> k = 1 \<or> k = (2 :: int)"
  shows "get_bits 1 (bits_of (of_int (k * 2 + b) :: u32) 3 @ xs) = Some (nat b, drop 1 (bits_of (of_int (k * 2 + b) :: u32) 3) @ xs)"
    "get_bits 2 (drop 1 (bits_of (of_int (k * 2 + b) :: u32) 3) @ xs) = Some (nat k, xs)"
    "unat (of_int (k * 2 + b) :: u32) < 2 ^ 3"
proof -
  show "unat (of_int (k * 2 + b) :: u32) < 2 ^ 3" using assms by auto
  show "get_bits 1 (bits_of (of_int (k * 2 + b) :: u32) 3 @ xs) = Some (nat b, drop 1 (bits_of (of_int (k * 2 + b) :: u32) 3) @ xs)"
    "get_bits 2 (drop 1 (bits_of (of_int (k * 2 + b) :: u32) 3) @ xs) = Some (nat k, xs)"
    using assms by (auto simp: get_bits_def bits_of_def numeral_3_eq_3 numeral_2_eq_2)
qed

lemma fixed_static: "fixed_lens = static_lens" "fixed_dist_lens = static_dist_lens"
  by (simp_all add: fixed_lens_def static_lens_def fixed_dist_lens_def static_dist_lens_def)

lemma emits_kind:
  assumes "b = 0 \<or> b = (1 :: int)" "k = 0 \<or> k = 1 \<or> k = (2 :: int)"
  shows "emits s (send_bits s (of_int (k * 2 + b)) 3) (bits_of (of_int (k * 2 + b) :: u32) 3)"
  using emits_bits [OF decode_kind(3) [OF assms], of s] by simp

section \<open>\_tr\_stored\_block\<close>

lemma length_sent: "sink_ok s \<Longrightarrow> length (sent s) = 8 * length (pending s) + nat (bi_valid s)"
  by (simp add: sent_def length_byte_stream)

lemma bits_of_0 [simp]: "bits_of v 0 = []"
  by (simp add: bits_of_def)

lemma pad_to_byte:
  fixes L P k :: nat
  assumes "8 * P = L + k" "k < 8"
  shows "(8 - L mod 8) mod 8 = k"
proof (cases "k = 0")
  case True
  then show ?thesis using assms by (metis add_0_right diff_zero mod_mult_self1_is_0 mod_self)
next
  case False
  then have "L = (8 - k) + 8 * (P - 1)" using assms by (cases P) auto
  then have "L mod 8 = (8 - k) mod 8" by (simp only: mod_mult_self2)
  then show ?thesis using assms(2) False by simp
qed

lemma bi_windup_pad:
  assumes "sink_ok s"
  shows "sent (bi_windup s) = sent s @ replicate ((8 - length (sent s) mod 8) mod 8) False"
proof -
  obtain k where k: "k < 8" "sent (bi_windup s) = sent s @ replicate k False"
    using bi_windup_ok(3) [OF assms] by blast
  have "length (sent (bi_windup s)) = 8 * length (pending (bi_windup s))"
    using length_sent [OF bi_windup_ok(1) [OF assms]] bi_windup_ok(2) [OF assms] by simp
  then have "8 * length (pending (bi_windup s)) = length (sent s) + k" unfolding k(2) by simp
  then have "(8 - length (sent s) mod 8) mod 8 = k" using k(1) by (rule pad_to_byte)
  then show ?thesis using k(2) by simp
qed

lemma same_trees_byte: "same_trees s (put_byte s c)"
  by (simp add: same_trees_def overlay_kept_byte)

lemma same_trees_sink [simp]:
  "same_trees s (bi_windup s)" "same_trees s (put_short s w)" "same_trees s (foldl put_byte s bs)" "same_trees s (bi_flush s)"
proof -
  show "same_trees s (foldl put_byte s bs)"
    by (induction bs arbitrary: s) (auto intro: same_trees_trans [OF same_trees_byte])
  show "same_trees s (bi_windup s)" "same_trees s (bi_flush s)"
    by (simp_all add: same_trees_def) (simp_all add: bi_windup_def bi_flush_def put_short_def Let_def)
  show "same_trees s (put_short s w)"
    unfolding put_short_def by (rule same_trees_trans [OF same_trees_byte same_trees_byte])
qed

lemma put_bytes_fields:
  "pending (foldl put_byte s bs) = pending s @ bs" "bi_buf (foldl put_byte s bs) = bi_buf s" "bi_valid (foldl put_byte s bs) = bi_valid s"
  by (induction bs arbitrary: s) simp_all

definition stored_bits :: "nat \<Rightarrow> u8 list \<Rightarrow> u64 \<Rightarrow> int \<Rightarrow> bool list" where
  "stored_bits pos buf stored_len b =
     bits_of (of_int (STORED_BLOCK * 2 + b) :: u32) 3 @ replicate ((8 - (pos + 3) mod 8) mod 8) False @
     bits_of (ucast stored_len :: u16) 16 @ bits_of (ucast (NOT stored_len) :: u16) 16 @
     byte_stream (take (unat stored_len) buf)"

lemma tr_stored_block_emits:
  assumes s: "sink_ok s" and b: "b = 0 \<or> b = 1"
  shows "emits s (tr_stored_block s buf stored_len b) (stored_bits (length (sent s)) buf stored_len b)"
    "bi_valid (tr_stored_block s buf stored_len b) = 0"
proof -
  let ?b3 = "bits_of (of_int (STORED_BLOCK * 2 + b) :: u32) 3"
  define s1 where "s1 = send_bits s (of_int (STORED_BLOCK * 2 + b)) 3"
  have 1: "emits s s1 ?b3" unfolding s1_def by (rule emits_kind) (use b in \<open>simp_all add: STORED_BLOCK_def\<close>)
  then have o1: "sink_ok s1" "sent s1 = sent s @ ?b3" "same_trees s s1" using s by (simp_all add: emits_def)
  define s2 where "s2 = bi_windup s1"
  have o2: "sink_ok s2" "bi_valid s2 = 0" "sent s2 = sent s @ ?b3 @ replicate ((8 - (length (sent s) + 3) mod 8) mod 8) False"
    "sent s2 = byte_stream (pending s2)" "bi_buf s2 = 0"
    using bi_windup_ok [OF o1(1)] bi_windup_pad [OF o1(1)] by (simp_all add: s2_def o1(2)) (simp add: bi_windup_def Let_def)
  define s3 where "s3 = put_short (put_short s2 (ucast stored_len)) (ucast (NOT stored_len))"
  have o3: "bi_valid s3 = 0" "bi_buf s3 = 0" "same_trees s s3"
    "byte_stream (pending s3) = sent s2 @ bits_of (ucast stored_len :: u16) 16 @ bits_of (ucast (NOT stored_len) :: u16) 16"
    using o2 by (simp_all add: s3_def put_short_stream) 
      (simp add: s2_def same_trees_trans [OF same_trees_trans [OF same_trees_trans [OF o1(3) same_trees_sink(1)] same_trees_sink(2)] same_trees_sink(2)])
  have r: "tr_stored_block s buf stored_len b = foldl put_byte s3 (take (unat stored_len) buf)"
    by (simp add: tr_stored_block_def Let_def s1_def s2_def s3_def)
  show "bi_valid (tr_stored_block s buf stored_len b) = 0" by (simp add: r o3 put_bytes_fields)
  have "same_trees s (tr_stored_block s buf stored_len b)"
    unfolding r by (rule same_trees_trans [OF o3(3)]) simp
  then show "emits s (tr_stored_block s buf stored_len b) (stored_bits (length (sent s)) buf stored_len b)"
    by (simp add: emits_def sink_ok_def sent_def [of "foldl put_byte s3 bs" for bs] r o3 stored_bits_def o2(3) put_bytes_fields)
qed

lemma unat_NOT_u16: "unat (NOT w) = 2 ^ 16 - 1 - unat (w :: u16)"
proof -
  have "NOT w = - 1 - w" by (simp add: not_eq_complement)
  moreover have m: "unat (- 1 :: u16) = 2 ^ 16 - 1" by (simp add: unsigned_minus_1_eq_mask mask_eq_exp_minus_1)
  moreover have "unat (- 1 - w) = unat (- 1 :: u16) - unat w"
    by (rule unat_sub_small) (use unat_lt_len [of w] m in simp)
  ultimately show ?thesis by simp
qed

lemma decode_stored_bits:
  assumes len: "unat stored_len < 2 ^ 16" "unat stored_len \<le> length buf" and b: "b = 0 \<or> b = 1"
  shows "decode_block pos (stored_bits pos buf stored_len b @ rest) =
    Some (b = 1, Stored (take (unat stored_len) buf), rest)"
proof -
  let ?n = "unat stored_len" and ?p = "(8 - (pos + 3) mod 8) mod 8"
  have n: "unat (ucast stored_len :: u16) = ?n" using len(1) by (simp add: unat_ucast_small)
  have "(ucast (NOT stored_len) :: u16) = NOT (ucast stored_len)" by (rule bit_word_eqI) (simp add: bit_simps)
  then have m: "unat (ucast (NOT stored_len) :: u16) = 2 ^ 16 - 1 - ?n" using n by (simp only: unat_NOT_u16)
  have pad: "get_bits ?p (replicate ?p False @ xs) = Some (horner_sum of_bool 2 (replicate ?p False), xs)" for xs
    by (simp add: get_bits_def)
  have w: "get_bits 16 (bits_of (v :: u16) 16 @ xs) = Some (unat v, xs)" for v xs
    using get_bits_word [of v 16 xs] unat_lt_len [of v] by simp
  have bytes: "get_many 8 ?n (byte_stream (take ?n buf) @ rest) = Some (map unat (take ?n buf), rest)"
    using get_many_words [of 8 "take ?n buf" rest] len(2) unat_lt_len [where 'a = 8] by (simp add: byte_stream_def min_absorb2)
  have s: "decode_stored (pos + 3) (replicate ?p False @ bits_of (ucast stored_len :: u16) 16 @
      bits_of (ucast (NOT stored_len) :: u16) 16 @ byte_stream (take ?n buf) @ rest) = Some (take ?n buf, rest)"
    unfolding decode_stored_def using len(1) by (simp add: pad w n m bytes o_def)
  note k = decode_kind [OF b, of STORED_BLOCK]
  show ?thesis
    unfolding decode_block_def stored_bits_def append_assoc
    using k s b by (auto simp: STORED_BLOCK_def)
qed

section \<open>\_tr\_align and static blocks\<close>

lemma static_code_ok: "n < 288 \<Longrightarrow> n < length static_lens" "n < 288 \<Longrightarrow> 0 < static_lens ! n"
  by (simp_all add: length_static_lens static_lens_nth)

lemma emits_flush: "emits s (bi_flush s) []"
  using bi_flush_ok [of s] by (simp add: emits_def)

lemma tr_align_emits:
  "emits s (tr_align s) (bits_of (of_int (STATIC_TREES * 2 + 0) :: u32) 3 @ tokens_bits static_ltree static_dtree [])"
proof -
  have 1: "emits s (send_bits s (of_int (STATIC_TREES * 2 + 0)) 3) (bits_of (of_int (STATIC_TREES * 2 + 0) :: u32) 3)"
    by (rule emits_kind) (simp_all add: STATIC_TREES_def)
  have 2: "emits r (send_code r END_BLOCK static_ltree) (tree_word static_ltree END_BLOCK)" for r
    by (rule emits_code [OF static_ltree_coded]) (simp_all add: static_code_ok END_BLOCK_def)
  show ?thesis
    using emits_trans [OF emits_trans [OF 1 2] emits_flush] by (simp add: tr_align_def Let_def tokens_bits_def)
qed

lemma has_codes_static:
  assumes "list_all valid_token toks"
  shows "has_codes static_lens (lit_syms toks)" "has_codes static_dist_lens (concat (map dist_syms toks))"
proof -
  have "lit_sym t < 288" "\<forall>d \<in> set (dist_syms t). d < 30" if "t \<in> set toks" for t
    using sym_range [of t] assms that by (auto simp: list_all_iff code_numbers)
  then show "has_codes static_lens (lit_syms toks)" "has_codes static_dist_lens (concat (map dist_syms toks))"
    by (auto simp: has_codes_def lit_syms_def static_code_ok static_dist_nth END_BLOCK_def)
qed

lemma decode_static_block:
  assumes "list_all valid_token toks" and b: "b = 0 \<or> b = 1"
  shows "decode_block pos (bits_of (of_int (STATIC_TREES * 2 + b) :: u32) 3 @ tokens_bits static_ltree static_dtree toks @ rest)
    = Some (b = 1, Codes toks, rest)"
proof -
  have "decode_tokens fixed_lens fixed_dist_lens (tokens_bits static_ltree static_dtree toks @ rest) = Some (toks, rest)"
    unfolding fixed_static
    by (rule decode_tokens_bits [OF static_ltree_coded static_dtree_coded assms(1) has_codes_static [OF assms(1)]])
  then show ?thesis
    using decode_kind [OF b, of STATIC_TREES] b by (auto simp: STATIC_TREES_def decode_block_def)
qed

section \<open>Properties\<close>

text \<open>
  C4: \<open>compress_block\<close> with trees that are coded by some code lengths, on a state whose buffers hold
  tokens for which these lengths have codes. When the output starts before \<open>d_buf\<close> and the assertion
  on the overlay holds after every token, then no token is overwritten before it is read: whatever
  follows, the reference decoder that knows the lengths reads the tokens back from the bits that are sent, up
  to the end of block, and the output ends before \<open>l_buf\<close>.
\<close>
theorem compress_block_roundtrip:
  assumes "coded ltree llens" "coded dtree dlens" "tallied s toks" "sink_ok s" "overlay_ok s ltree dtree"
    and "has_codes llens (lit_syms toks)" "has_codes dlens (concat (map dist_syms toks))"
  shows "\<exists>bs. sink_ok (compress_block s ltree dtree) \<and> sent (compress_block s ltree dtree) = sent s @ bs \<and>
    length (pending (compress_block s ltree dtree)) \<le> l_start s \<and>
    (\<forall>rest. decode_tokens llens dlens (bs @ rest) = Some (toks, rest))"
proof (intro exI conjI allI)
  have "emits s (compress_block s ltree dtree) (tokens_bits ltree dtree toks)"
    by (rule compress_block_emits [OF assms(1,2) tallied_holds [OF assms(3)] assms(5-7)])
  then show "sink_ok (compress_block s ltree dtree)" "sent (compress_block s ltree dtree) = sent s @ tokens_bits ltree dtree toks"
    using assms(4) by (simp_all add: emits_def)
  show "length (pending (compress_block s ltree dtree)) \<le> l_start s"
    using compress_block_room(1) [OF assms(1,2) tallied_holds [OF assms(3)] assms(4,5) _ assms(6,7)] assms(3) by (simp add: tallied_def)
  show "decode_tokens llens dlens (tokens_bits ltree dtree toks @ rest) = Some (toks, rest)" for rest
    using assms(3) by (intro decode_tokens_bits [OF assms(1,2) _ assms(6,7)]) (simp add: tallied_def)
qed

lemma sample_tallied:
  "tallied (tally_all (tr_init sample_state) [Literal 97, Match 3 1]) [Literal 97, Match 3 1]"
  "sink_ok (tally_all (tr_init sample_state) [Literal 97, Match 3 1])"
proof -
  have "sizes_ok (sample_state\<lparr>bi_buf := 0, bi_valid := 0\<rparr>)" using sample_state_sizes by (simp add: sizes_ok_def)
  then have t: "tallied (tr_init sample_state) []" by (simp add: tr_init_def init_block_tallied)
  have "lit_bufsize (tr_init sample_state) = 8" by (simp add: tr_init_def init_block_def Let_def sample_state_def)
  note a = tally_all_tallied [OF t, of "[Literal 97, Match 3 1]", unfolded this]
  then show "tallied (tally_all (tr_init sample_state) [Literal 97, Match 3 1]) [Literal 97, Match 3 1]" by simp
  show "sink_ok (tally_all (tr_init sample_state) [Literal 97, Match 3 1])"
    using a by (simp add: sink_ok_def out_fields_def tr_init_def)
qed

lemma sample_overlay: "overlay_ok (tally_all (tr_init sample_state) [Literal 97, Match 3 1]) static_ltree static_dtree"
  by code_simp

lemma compress_block_roundtrip_witness:
  "\<exists>bs. sent (compress_block (tally_all (tr_init sample_state) [Literal 97, Match 3 1]) static_ltree static_dtree) =
      sent (tally_all (tr_init sample_state) [Literal 97, Match 3 1]) @ bs \<and>
     decode_tokens static_lens static_dist_lens bs = Some ([Literal 97, Match 3 1], [])"
proof -
  have v: "list_all valid_token [Literal 97, Match 3 1]" by simp
  show ?thesis
    using compress_block_roundtrip [OF static_ltree_coded static_dtree_coded sample_tallied sample_overlay has_codes_static [OF v]]
    by (metis append_Nil2)
qed

text \<open>
  When the assertion fails. With the static trees a match of length 131 at distance 32506, the largest that \<open>deflate\<close> uses, takes 31
  bits: for every buffer of four entries or more, a full block of such matches runs over the
  distances that are still to be sent. Only the assertion, which is compiled for debugging alone, notices.
\<close>

lemma far_match_bits: "length (token_bits static_ltree static_dtree (Match 131 32506)) = 31"
proof -
  have "unat (length_code ! 128) = 24" "unat (d_code 32505) = 29" "extra_lbits ! 24 = 5" "extra_dbits ! 29 = 13"
    "unat (Len (static_ltree ! 281)) = 8" "unat (Len (static_dtree ! 29)) = 5"
    by code_simp+
  then show ?thesis by (simp add: tree_word_def LITERALS_def)
qed

theorem overlay_overrun:
  assumes t: "tallied s (replicate (unat (lit_bufsize s) - 1) (Match 131 32506))" and k: "sink_ok s" and l: "4 \<le> unat (lit_bufsize s)"
  shows "\<not> overlay_ok s static_ltree static_dtree"
proof
  let ?n = "unat (lit_bufsize s) - 1"
  let ?toks = "replicate ?n (Match 131 32506)"
  assume o: "overlay_ok s static_ltree static_dtree"
  have n: "unat (last_lit s) = ?n" and v: "list_all valid_token ?toks" using t by (simp_all add: tallied_def)
  have c: "has_codes static_lens (map lit_sym ?toks)" "has_codes static_dist_lens (concat (map dist_syms ?toks))"
    using has_codes_static [OF v] by (simp_all add: lit_syms_def)
  have "length (concat (map (token_bits static_ltree static_dtree) (replicate m (Match 131 32506)))) = 31 * m" for m
    by (induction m) (simp_all add: far_match_bits del: token_bits.simps)
  then have "31 * ?n \<le> 8 * length (pending (foldl (compress_step static_ltree static_dtree) s [0..<?n])) + 16"
    using compress_loop_pending [OF static_ltree_coded static_dtree_coded tallied_holds [OF t] k c, of ?n] overlay_okD [OF o] n
    by (simp del: token_bits.simps)
  moreover have "length (pending (foldl (compress_step static_ltree static_dtree) s [0..<?n])) < unat (lit_bufsize s) + 2 * ?n"
    using overlay_ok_assert [OF o, of ?n] n l by simp
  ultimately show False using l by linarith
qed

lemma overlay_overrun_witness:
  "\<not> overlay_ok (tally_all (tr_init sample_state) (replicate 7 (Match 131 32506))) static_ltree static_dtree"
proof -
  have "sizes_ok (sample_state\<lparr>bi_buf := 0, bi_valid := 0\<rparr>)" using sample_state_sizes by (simp add: sizes_ok_def)
  then have t: "tallied (tr_init sample_state) []" by (simp add: tr_init_def init_block_tallied)
  have l: "lit_bufsize (tr_init sample_state) = 8" by (simp add: tr_init_def init_block_def Let_def sample_state_def)
  let ?s = "tally_all (tr_init sample_state) (replicate 7 (Match 131 32506))"
  have a: "tallied ?s (replicate 7 (Match 131 32506))" "out_fields ?s = out_fields (tr_init sample_state)" "lit_bufsize ?s = 8"
    using tally_all_tallied [OF t, of "replicate 7 (Match 131 32506)"] l by (simp_all add: list_all_iff)
  then have "sink_ok ?s" by (simp add: sink_ok_def out_fields_def tr_init_def)
  then show ?thesis using overlay_overrun [of ?s] a by simp
qed

lemma length_static_end: "length (tree_word static_ltree END_BLOCK) = 7"
  by code_simp

text \<open>
  C5: stored blocks and the alignment block. \<open>_tr_stored_block\<close> with fewer than 2^16 bytes pads to a byte, and the
  reference decoder reads the bytes and the mark of the last block back; \<open>_tr_align\<close> sends an
  empty static block and leaves fewer than 8 bits unsent. With room in \<open>pending_buf\<close> the output ends in it.
  Nothing else is changed but those entries of \<open>d_buf\<close> and \<open>l_buf\<close> that the output has reached.
\<close>
theorem stored_block_roundtrip:
  assumes "sink_ok s" "b = 0 \<or> b = 1" "unat len < 2 ^ 16" "unat len \<le> length buf"
    and "length (pending s) + 8 + unat len \<le> 4 * unat (lit_bufsize s)"
  shows "let r = tr_stored_block s buf len b; q = tr_align s in
    (\<exists>bs. sink_ok r \<and> bi_valid r = 0 \<and> sent r = sent s @ bs \<and> same_trees s r \<and> length (pending r) \<le> 4 * unat (lit_bufsize s) \<and>
       (\<forall>rest. decode_block (length (sent s)) (bs @ rest) = Some (b = 1, Stored (take (unat len) buf), rest))) \<and>
    (\<exists>bs. sink_ok q \<and> bi_valid q < 8 \<and> sent q = sent s @ bs \<and> same_trees s q \<and> length (pending q) \<le> 4 * unat (lit_bufsize s) \<and>
       (\<forall>rest. decode_block (length (sent s)) (bs @ rest) = Some (False, Codes [], rest)))"
proof -
  note r = tr_stored_block_emits [OF assms(1,2), of buf len] and q = tr_align_emits [of s]
  have a: "bi_valid (tr_align s) < 8"
  proof -
    have "sink_ok (send_bits s (of_int (STATIC_TREES * 2 + 0)) 3)"
      using emits_kind [of 0 STATIC_TREES s] assms(1) by (simp add: emits_def STATIC_TREES_def)
    moreover have "emits (send_bits s (of_int (STATIC_TREES * 2 + 0)) 3)
        (send_code (send_bits s (of_int (STATIC_TREES * 2 + 0)) 3) END_BLOCK static_ltree) (tree_word static_ltree END_BLOCK)"
      by (rule emits_code [OF static_ltree_coded]) (simp_all add: static_code_ok END_BLOCK_def)
    ultimately have "sink_ok (send_code (send_bits s (of_int (STATIC_TREES * 2 + 0)) 3) END_BLOCK static_ltree)"
      by (simp add: emits_def)
    then show ?thesis using bi_flush_ok(3) by (simp add: tr_align_def Let_def)
  qed
  have "decode_block p ((bits_of (of_int (STATIC_TREES * 2 + 0) :: u32) 3 @ tokens_bits static_ltree static_dtree []) @ rest)
      = Some (False, Codes [], rest)" for p rest
    using decode_static_block [of "[]" 0 p rest] by simp
  moreover have "length (pending (tr_stored_block s buf len b)) \<le> 4 * unat (lit_bufsize s)"
    using pending_sent [OF assms(1)] pending_sent [of "tr_stored_block s buf len b"] r(1) assms(1,4,5)
    by (simp add: emits_def stored_bits_def length_byte_stream min_absorb2) linarith
  moreover have "length (pending (tr_align s)) \<le> 4 * unat (lit_bufsize s)"
    using pending_sent [OF assms(1)] pending_sent [of "tr_align s"] q assms(1,5) length_static_end
    by (simp add: emits_def tokens_bits_def)
  ultimately show ?thesis
    using r q a assms(1) decode_stored_bits [OF assms(3,4,2)] unfolding Let_def emits_def by blast
qed

lemma stored_block_roundtrip_witness:
  "\<exists>bs. sent (tr_stored_block sample_state [1, 2, 3] 3 1) = sent sample_state @ bs \<and>
     decode_block 0 bs = Some (True, Stored [1, 2, 3], [])"
proof -
  have "sink_ok sample_state" "length (sent sample_state) = 0" "length (pending sample_state) + 8 + unat (3 :: u64) \<le> 4 * unat (lit_bufsize sample_state)"
    by (simp_all add: sink_ok_def sample_state_def sent_def)
  then show ?thesis
    using stored_block_roundtrip [of sample_state 1 3 "[1, 2, 3]"] by (auto simp: Let_def intro: exI [of _ "[]"] dest: spec [of _ "[]"])
qed

end
