(* ===== verification/Tr_Build.thy ===== *)
theory Tr_Build
  imports Tr_State "HOL-Library.Multiset"
begin

text \<open>
  The construction of Huffman trees in \<open>zlib_archive/trees.c\<close>: \<open>pqdownheap\<close>, \<open>gen_bitlen\<close> with its
  repair of lengths that are too large, and \<open>build_tree\<close>. The argument \<open>tree\<close> of the functions is
  the array that \<open>desc->dyn_tree\<close> points to, which \<open>build_tree\<close> stores back into the state.
\<close>

section \<open>The heap\<close>

definition SMALLEST :: nat where "SMALLEST = 1"

definition smaller :: "ct_data list \<Rightarrow> int \<Rightarrow> int \<Rightarrow> u8 list \<Rightarrow> bool" where
  "smaller tree n m dep \<longleftrightarrow>
     Freq (tree ! nat n) < Freq (tree ! nat m) \<or>
     (Freq (tree ! nat n) = Freq (tree ! nat m) \<and> dep ! nat n \<le> dep ! nat m)"

text \<open>The loop of \<open>pqdownheap\<close>, where \<open>j\<close> is \<open>k << 1\<close>; nodes of the heap are numbered from 1 on.\<close>

function down_loop :: "ct_data list \<Rightarrow> u8 list \<Rightarrow> nat \<Rightarrow> int \<Rightarrow> nat \<Rightarrow> int list \<Rightarrow> int list \<times> nat" where
  "down_loop tree dep hlen v k hp =
     (let j = 2 * k in
      if 0 < k \<and> j \<le> hlen then
        let j = (if j < hlen \<and> smaller tree (hp ! (j + 1)) (hp ! j) dep then j + 1 else j) in
        if smaller tree v (hp ! j) dep then (hp, k)
        else down_loop tree dep hlen v j (hp[k   := hp ! j])
      else (hp, k))"
  by auto
termination
  by (relation "measure (\<lambda>(_, _, hlen, _, k, _). hlen - k)") (auto split: if_splits)

declare down_loop.simps [simp del]

definition pqdownheap :: "deflate_state \<Rightarrow> ct_data list \<Rightarrow> nat \<Rightarrow> deflate_state" where
  "pqdownheap s tree k =
     (let v = heap s ! k;
          (hp, k) = down_loop tree (depth s) (nat (heap_len s)) v k (heap s)
      in s\<lparr>heap := hp[k := v]\<rparr>)"

text \<open>The macro \<open>pqremove\<close>, which returns the node in \<open>top\<close>.\<close>

definition pqremove :: "deflate_state \<Rightarrow> ct_data list \<Rightarrow> deflate_state \<times> int" where
  "pqremove s tree =
     (let top = heap s ! SMALLEST;
          s = s\<lparr>heap := (heap s)[SMALLEST := heap s ! nat (heap_len s)], heap_len := heap_len s - 1\<rparr>
      in (pqdownheap s tree SMALLEST, top))"

section \<open>gen\_bitlen\<close>

definition set_len :: "int \<Rightarrow> u16 \<Rightarrow> ct_data list \<Rightarrow> ct_data list" where
  "set_len n l t = t[nat n := (t ! nat n)\<lparr>dl := l\<rparr>]"

text \<open>The first pass, for the entry \<open>h\<close> of the heap array.\<close>

definition bitlen_step :: "tree_id \<Rightarrow> int \<Rightarrow> deflate_state \<times> ct_data list \<times> int \<Rightarrow> nat \<Rightarrow> deflate_state \<times> ct_data list \<times> int" where
  "bitlen_step t max_code st h =
     (let (s, tree, overflow) = st;
          n = heap s ! h;
          bits = uint (Len (tree ! unat (Dad (tree ! nat n)))) + 1;
          (bits, overflow) = (if bits > max_length (stat_desc t) then (max_length (stat_desc t), overflow + 1)
                              else (bits, overflow));
          tree = set_len n (of_int bits) tree
      in if n > max_code then (s, tree, overflow)
         else
           let s = s\<lparr>bl_count := (bl_count s)[nat bits := bl_count s ! nat bits + 1]\<rparr>;
               xbits = (if n \<ge> extra_base (stat_desc t) then extra_bits (stat_desc t) ! nat (n - extra_base (stat_desc t)) else 0);
               f = Freq (tree ! nat n);
               s = s\<lparr>opt_len := opt_len s + ucast f * of_int (bits + xbits)\<rparr>;
               s = (case static_tree (stat_desc t) of
                      Some stree \<Rightarrow> s\<lparr>static_len := static_len s + ucast f * of_int (uint (Len (stree ! nat n)) + xbits)\<rparr>
                    | None \<Rightarrow> s)
           in (s, tree, overflow))"

text \<open>\<open>while (s->bl_count[bits] == 0) bits--\<close>; the search ends above 0.\<close>

fun find_bits :: "u16 list \<Rightarrow> nat \<Rightarrow> nat" where
  "find_bits bc 0 = 0"
| "find_bits bc (Suc b) = (if bc ! Suc b = 0 then find_bits bc b else Suc b)"

function overflow_loop :: "nat \<Rightarrow> u16 list \<Rightarrow> int \<Rightarrow> u16 list" where
  "overflow_loop ml bc overflow =
     (let bits = find_bits bc (ml - 1);
          bc = bc[bits := bc ! bits - 1];
          bc = bc[bits + 1 := bc ! (bits + 1) + 2];
          bc = bc[ml := bc ! ml - 1];
          overflow = overflow - 2
      in if overflow > 0 then overflow_loop ml bc overflow else bc)"
  by auto
termination
  by (relation "measure (\<lambda>(_, _, overflow). nat overflow)") auto

declare overflow_loop.simps [simp del]

text \<open>
  The loop \<open>while (n != 0)\<close> that gives \<open>n\<close> leaves the length \<open>bits\<close>, from the entry \<open>h\<close> of the heap
  downwards; there are enough leaves, so that \<open>h\<close> stays above 0.
\<close>

fun assign_loop :: "int \<Rightarrow> nat \<Rightarrow> nat \<Rightarrow> nat \<Rightarrow> deflate_state \<Rightarrow> ct_data list \<Rightarrow> deflate_state \<times> ct_data list \<times> nat" where
  "assign_loop max_code bits 0 n s tree = (s, tree, 0)"
| "assign_loop max_code bits (Suc h) n s tree =
     (if n = 0 then (s, tree, Suc h)
      else
        let m = heap s ! h in
        if m > max_code then assign_loop max_code bits h n s tree
        else
          let (s, tree) =
            (if unat (Len (tree ! nat m)) \<noteq> bits
             then (s\<lparr>opt_len := opt_len s + (of_nat bits - ucast (Len (tree ! nat m))) * ucast (Freq (tree ! nat m))\<rparr>,
                   set_len m (of_nat bits) tree)
             else (s, tree))
          in assign_loop max_code bits h (n - 1) s tree)"

definition assign_step :: "int \<Rightarrow> deflate_state \<times> ct_data list \<times> nat \<Rightarrow> nat \<Rightarrow> deflate_state \<times> ct_data list \<times> nat" where
  "assign_step max_code st bits =
     (let (s, tree, h) = st in assign_loop max_code bits h (unat (bl_count s ! bits)) s tree)"

definition gen_bitlen :: "tree_id \<Rightarrow> int \<Rightarrow> deflate_state \<Rightarrow> ct_data list \<Rightarrow> deflate_state \<times> ct_data list" where
  "gen_bitlen t max_code s tree =
     (let s = s\<lparr>bl_count := map (\<lambda>_. 0) [0..<MAX_BITS + 1]\<rparr>;
          tree = set_len (heap s ! nat (heap_max s)) 0 tree;
          (s, tree, overflow) = foldl (bitlen_step t max_code) (s, tree, 0) [nat (heap_max s) + 1..<HEAP_SIZE]
      in if overflow = 0 then (s, tree)
         else
           let ml = nat (max_length (stat_desc t));
               s = s\<lparr>bl_count := overflow_loop ml (bl_count s) overflow\<rparr>;
               (s, tree, h) = foldl (assign_step max_code) (s, tree, HEAP_SIZE) (rev [1..<ml + 1])
           in (s, tree))"

section \<open>build\_tree\<close>

definition heap_push :: "deflate_state \<Rightarrow> int \<Rightarrow> deflate_state" where
  "heap_push s n = s\<lparr>heap_len := heap_len s + 1, heap := (heap s)[nat (heap_len s + 1) := n]\<rparr>"

definition init_heap_step :: "deflate_state \<times> ct_data list \<times> int \<Rightarrow> nat \<Rightarrow> deflate_state \<times> ct_data list \<times> int" where
  "init_heap_step st n =
     (let (s, tree, max_code) = st in
      if Freq (tree ! n) \<noteq> 0
      then let s = heap_push s (int n) in (s\<lparr>depth := (depth s)[n := 0]\<rparr>, tree, int n)
      else (s, set_len (int n) 0 tree, max_code))"

text \<open>The loop that forces two codes of non-zero frequency.\<close>

function force_two :: "tree_id \<Rightarrow> deflate_state \<Rightarrow> ct_data list \<Rightarrow> int \<Rightarrow> deflate_state \<times> ct_data list \<times> int" where
  "force_two t s tree max_code =
     (if heap_len s < 2 then
        let (node, max_code) = (if max_code < 2 then (max_code + 1, max_code + 1) else (0, max_code));
            s = heap_push s node;
            tree = tree[nat node := (tree ! nat node)\<lparr>fc := 1\<rparr>];
            s = s\<lparr>depth := (depth s)[nat node := 0]\<rparr>;
            s = s\<lparr>opt_len := opt_len s - 1\<rparr>;
            s = (case static_tree (stat_desc t) of
                   Some stree \<Rightarrow> s\<lparr>static_len := static_len s - ucast (Len (stree ! nat node))\<rparr>
                 | None \<Rightarrow> s)
        in force_two t s tree max_code
      else (s, tree, max_code))"
  by auto
termination
  by (relation "measure (\<lambda>(_, s, _, _). nat (2 - heap_len s))")
    (auto simp: heap_push_def Let_def split: if_splits option.splits)

declare force_two.simps [simp del]

definition build_step :: "deflate_state \<Rightarrow> ct_data list \<Rightarrow> nat \<Rightarrow> deflate_state \<times> ct_data list" where
  "build_step s tree node =
     (let (s, n) = pqremove s tree;
          m = heap s ! SMALLEST;
          s = s\<lparr>heap_max := heap_max s - 1\<rparr>;
          s = s\<lparr>heap := (heap s)[nat (heap_max s) := n]\<rparr>;
          s = s\<lparr>heap_max := heap_max s - 1\<rparr>;
          s = s\<lparr>heap := (heap s)[nat (heap_max s) := m]\<rparr>;
          tree = tree[node := (tree ! node)\<lparr>fc := Freq (tree ! nat n) + Freq (tree ! nat m)\<rparr>];
          s = s\<lparr>depth := (depth s)[node := (if depth s ! nat n \<ge> depth s ! nat m then depth s ! nat n else depth s ! nat m) + 1]\<rparr>;
          tree = tree[nat m := (tree ! nat m)\<lparr>dl := of_nat node\<rparr>];
          tree = tree[nat n := (tree ! nat n)\<lparr>dl := of_nat node\<rparr>];
          s = s\<lparr>heap := (heap s)[SMALLEST := int node]\<rparr>
      in (pqdownheap s tree SMALLEST, tree))"

lemma heap_len_pqdownheap [simp]: "heap_len (pqdownheap s tree k) = heap_len s"
  by (simp add: pqdownheap_def Let_def case_prod_beta)

lemma heap_len_build_step: "heap_len (fst (build_step s tree node)) = heap_len s - 1"
  by (simp add: build_step_def pqremove_def Let_def)

function build_loop :: "deflate_state \<Rightarrow> ct_data list \<Rightarrow> nat \<Rightarrow> deflate_state \<times> ct_data list" where
  "build_loop s tree node =
     (let (s', tree') = build_step s tree node in
      if heap_len s' \<ge> 2 then build_loop s' tree' (node + 1) else (s', tree'))"
  by auto
termination
proof (relation "measure (\<lambda>(s, _, _). nat (heap_len s))")
  fix s tree node x s' tree'
  assume "x = build_step s tree node" "(s', tree') = x" "2 \<le> heap_len s'"
  then have "heap_len s' = heap_len s - 1" using heap_len_build_step [of s tree node] by (metis fst_conv)
  then show "((s', tree', node + 1), s, tree, node) \<in> measure (\<lambda>(s, _, _). nat (heap_len s))"
    using \<open>2 \<le> heap_len s'\<close> by simp
qed simp

declare build_loop.simps [simp del]

definition build_tree :: "deflate_state \<Rightarrow> tree_id \<Rightarrow> deflate_state" where
  "build_tree s t =
     (let tree = dyn_tree t s;
          elems = nat (elems (stat_desc t));
          s = s\<lparr>heap_len := 0, heap_max := int HEAP_SIZE\<rparr>;
          (s, tree, max_code) = foldl init_heap_step (s, tree, -1) [0..<elems];
          (s, tree, max_code) = force_two t s tree max_code;
          s = set_max_code t max_code s;
          s = foldl (\<lambda>s n. pqdownheap s tree n) s (rev [1..<nat (heap_len s) div 2 + 1]);
          (s, tree) = build_loop s tree elems;
          s = s\<lparr>heap_max := heap_max s - 1\<rparr>;
          s = s\<lparr>heap := (heap s)[nat (heap_max s) := heap s ! SMALLEST]\<rparr>;
          (s, tree) = gen_bitlen t max_code s tree;
          tree = gen_codes tree max_code (bl_count s)
      in set_tree t tree s)"

section \<open>pqdownheap permutes the heap\<close>

lemma down_loop_perm:
  assumes "down_loop tree dep hlen v k hp = (hp', k')" "1 \<le> k" "k \<le> hlen" "hlen < length hp"
  shows "length hp' = length hp \<and> 1 \<le> k' \<and> k' \<le> hlen \<and> mset (hp'[k' := v]) = mset (hp[k := v]) \<and>
    (\<forall>i. i = 0 \<or> hlen < i \<longrightarrow> hp' ! i = hp ! i)"
  using assms
proof (induction tree dep hlen v k hp arbitrary: hp' k' rule: down_loop.induct)
  case (1 tree dep hlen v k hp)
  show ?case
  proof (cases "2 * k \<le> hlen")
    case False
    then show ?thesis using "1.prems" by (subst (asm) down_loop.simps) auto
  next
    case True
    define j where "j = (if 2 * k < hlen \<and> smaller tree (hp ! (2 * k + 1)) (hp ! (2 * k)) dep then 2 * k + 1 else 2 * k)"
    have j: "1 \<le> j" "j \<le> hlen" "j \<noteq> k" using True "1.prems"(2) by (auto simp: j_def)
    have d: "down_loop tree dep hlen v k hp = (if smaller tree v (hp ! j) dep then (hp, k)
        else down_loop tree dep hlen v j (hp[k := hp ! j]))"
      using True "1.prems"(2) by (subst down_loop.simps) (unfold Let_def, fold j_def, simp)
    show ?thesis
    proof (cases "smaller tree v (hp ! j) dep")
      case True
      then show ?thesis using "1.prems" by (simp add: d)
    next
      case False
      have IH: "length hp' = length (hp[k := hp ! j]) \<and> 1 \<le> k' \<and> k' \<le> hlen \<and> mset (hp'[k' := v]) = mset (hp[k := hp ! j, j := v]) \<and>
          (\<forall>i. i = 0 \<or> hlen < i \<longrightarrow> hp' ! i = hp[k := hp ! j] ! i)"
        using "1.IH" [OF refl _ j_def False, of hp' k'] False True "1.prems" j by (simp add: d)
      have "mset (hp[k := hp ! j, j := v]) = mset ((hp[k := v])[k := hp[k := v] ! j, j := hp[k := v] ! k])"
        using j "1.prems" by (simp add: list_update_swap)
      also have "\<dots> = mset (hp[k := v])"
        using j "1.prems" by (intro mset_swap) simp_all
      finally show ?thesis using IH "1.prems"(2,3) by (auto simp: nth_list_update)
    qed
  qed
qed

definition heap_nodes :: "deflate_state \<Rightarrow> int list" where
  "heap_nodes s = take (nat (heap_len s)) (drop 1 (heap s))"

definition done_nodes :: "deflate_state \<Rightarrow> int list" where
  "done_nodes s = drop (nat (heap_max s)) (heap s)"

lemma heap_split:
  assumes "n < length (hp :: int list)"
  shows "hp = hp ! 0 # take n (drop 1 hp) @ drop (Suc n) hp"
proof -
  have "hp = hp ! 0 # drop 1 hp" using assms by (cases hp) simp_all
  moreover have "drop 1 hp = take n (drop 1 hp) @ drop (Suc n) hp"
    by (metis append_take_drop_id drop_drop plus_1_eq_Suc add.commute)
  ultimately show ?thesis by simp
qed

text \<open>Only the nodes in the heap are moved.\<close>

definition heap_moved :: "deflate_state \<Rightarrow> deflate_state \<Rightarrow> bool" where
  "heap_moved s r \<longleftrightarrow> (\<exists>hp. r = s\<lparr>heap := hp\<rparr> \<and> length hp = length (heap s) \<and>
     drop (Suc (nat (heap_len s))) hp = drop (Suc (nat (heap_len s))) (heap s)) \<and> mset (heap_nodes r) = mset (heap_nodes s)"

lemma heap_moved_refl [simp]: "heap_moved s s"
  unfolding heap_moved_def by (intro conjI exI [of _ "heap s"]) simp_all

lemma heap_moved_trans: "heap_moved s r \<Longrightarrow> heap_moved r q \<Longrightarrow> heap_moved s q"
  by (auto simp: heap_moved_def)

lemma pqdownheap_moved:
  assumes k: "1 \<le> k" "k \<le> nat (heap_len s)" "nat (heap_len s) < length (heap s)"
  shows "heap_moved s (pqdownheap s tree k)"
proof -
  let ?n = "nat (heap_len s)"
  obtain hp' k' where d: "down_loop tree (depth s) ?n (heap s ! k) k (heap s) = (hp', k')" by fastforce
  note p = down_loop_perm [OF d k]
  let ?hp = "hp'[k' := heap s ! k]"
  have r: "pqdownheap s tree k = s\<lparr>heap := ?hp\<rparr>" by (simp add: pqdownheap_def Let_def d)
  have len: "length ?hp = length (heap s)" using p by simp
  have z: "?hp ! 0 = heap s ! 0" using p by simp
  have dr: "drop (Suc ?n) ?hp = drop (Suc ?n) (heap s)"
    by (rule nth_equalityI) (use p in auto)
  have "mset ?hp = mset (heap s)" using p by simp
  then have "mset (?hp ! 0 # take ?n (drop 1 ?hp) @ drop (Suc ?n) ?hp) = mset (heap s ! 0 # take ?n (drop 1 (heap s)) @ drop (Suc ?n) (heap s))"
    using heap_split [of ?n ?hp] heap_split [OF k(3)] k(3) len by metis
  then have "mset (take ?n (drop 1 ?hp)) = mset (take ?n (drop 1 (heap s)))" by (simp add: z dr)
  then show ?thesis
    unfolding heap_moved_def r using len dr
    by (intro conjI exI [of _ ?hp]) (simp_all add: heap_nodes_def)
qed


lemma heap_movedD:
  assumes "heap_moved s r"
  shows "heap_len r = heap_len s" "heap_max r = heap_max s" "length (heap r) = length (heap s)"
    "mset (heap_nodes r) = mset (heap_nodes s)" "depth r = depth s" "bl_count r = bl_count s"
    "nat (heap_len s) < nat (heap_max s) \<Longrightarrow> done_nodes r = done_nodes s"
proof -
  obtain hp where hp: "r = s\<lparr>heap := hp\<rparr>" "length hp = length (heap s)"
    "drop (Suc (nat (heap_len s))) hp = drop (Suc (nat (heap_len s))) (heap s)"
    using assms by (auto simp: heap_moved_def)
  then show "heap_len r = heap_len s" "heap_max r = heap_max s" "length (heap r) = length (heap s)"
    "depth r = depth s" "bl_count r = bl_count s" by simp_all
  show "mset (heap_nodes r) = mset (heap_nodes s)" using assms by (simp add: heap_moved_def)
  show "done_nodes r = done_nodes s" if "nat (heap_len s) < nat (heap_max s)"
  proof -
    define j where "j = nat (heap_max s) - Suc (nat (heap_len s))"
    have j: "nat (heap_max s) = j + Suc (nat (heap_len s))" using that unfolding j_def by linarith
    have "drop (nat (heap_max s)) hp = drop j (drop (Suc (nat (heap_len s))) hp)"
      unfolding j by simp
    also have "\<dots> = drop (nat (heap_max s)) (heap s)" unfolding hp(3) j by simp
    finally show ?thesis by (simp add: done_nodes_def hp(1))
  qed
qed

section \<open>Joining two nodes\<close>

definition dad :: "ct_data list \<Rightarrow> int \<Rightarrow> nat" where
  "dad tree x = unat (Dad (tree ! nat x))"

text \<open>
  The nodes taken from the heap so far have a father, which is an inner node that comes before
  them in the array (that is, it is taken from the heap after them).
\<close>

fun dads_ok :: "ct_data list \<Rightarrow> nat \<Rightarrow> nat \<Rightarrow> int list \<Rightarrow> bool" where
  "dads_ok tree lo hi [] \<longleftrightarrow> True"
| "dads_ok tree lo hi (x # xs) \<longleftrightarrow> lo \<le> dad tree x \<and> dad tree x < hi \<and> int (dad tree x) \<notin> set (x # xs) \<and> dads_ok tree lo hi xs"

definition forest :: "deflate_state \<Rightarrow> ct_data list \<Rightarrow> nat list \<Rightarrow> nat \<Rightarrow> nat \<Rightarrow> bool" where
  "forest s tree leaves lo node \<longleftrightarrow>
     length (heap s) = HEAP_SIZE \<and> lo \<le> node \<and> node - lo < length leaves \<and> length leaves \<le> L_CODES \<and>
     lo + length leaves \<le> length tree \<and> length tree \<le> HEAP_SIZE \<and> (\<forall>l \<in> set leaves. l < lo) \<and> distinct leaves \<and>
     heap_len s = int (length leaves - (node - lo)) \<and> heap_max s = int (HEAP_SIZE - 2 * (node - lo)) \<and>
     mset (heap_nodes s @ done_nodes s) = mset (map int leaves @ map int [lo..<node]) \<and>
     dads_ok tree lo node (done_nodes s) \<and>
     (\<forall>y \<in> {lo..<node}. length (filter (\<lambda>x. dad tree x = y) (done_nodes s)) = 2)"

lemma dads_ok_cong:
  "(\<And>x. x \<in> set xs \<Longrightarrow> dad tree' x = dad tree x) \<Longrightarrow> hi \<le> hi' \<Longrightarrow> dads_ok tree lo hi xs \<Longrightarrow> dads_ok tree' lo hi' xs"
  by (induction xs) auto

lemma dads_ok_range: "dads_ok tree lo hi xs \<Longrightarrow> x \<in> set xs \<Longrightarrow> lo \<le> dad tree x \<and> dad tree x < hi"
  by (induction xs) auto

lemma heap_nodes_remove:
  assumes "2 \<le> heap_len s" "nat (heap_len s) < length (heap s)"
  shows "mset (heap_nodes s) = mset (heap_nodes (fst (pqremove s tree))) + {#snd (pqremove s tree)#}"
    "heap_len (fst (pqremove s tree)) = heap_len s - 1" "heap_max (fst (pqremove s tree)) = heap_max s"
    "length (heap (fst (pqremove s tree))) = length (heap s)"
    "nat (heap_len s) < nat (heap_max s) \<Longrightarrow> done_nodes (fst (pqremove s tree)) = done_nodes s"
    "bl_count (fst (pqremove s tree)) = bl_count s"
proof -
  let ?n = "nat (heap_len s)"
  define q where "q = s\<lparr>heap := (heap s)[SMALLEST := heap s ! ?n], heap_len := heap_len s - 1\<rparr>"
  have n: "?n = Suc (nat (heap_len q))" "1 \<le> nat (heap_len q)" using assms(1) by (simp_all add: q_def)
  have m: "heap_moved q (pqdownheap q tree SMALLEST)"
  proof (rule pqdownheap_moved)
    show "SMALLEST \<le> nat (heap_len q)" using n(2) by (simp add: SMALLEST_def)
    show "nat (heap_len q) < length (heap q)" using n(1) assms(2) by (simp add: q_def)
  qed (simp add: SMALLEST_def)
  have r: "pqremove s tree = (pqdownheap q tree SMALLEST, heap s ! SMALLEST)"
    by (simp add: pqremove_def Let_def q_def)
  note d = heap_movedD [OF m]
  show "heap_len (fst (pqremove s tree)) = heap_len s - 1" "heap_max (fst (pqremove s tree)) = heap_max s"
    "length (heap (fst (pqremove s tree))) = length (heap s)" "bl_count (fst (pqremove s tree)) = bl_count s"
    using d by (simp_all add: r q_def)
  show "done_nodes (fst (pqremove s tree)) = done_nodes s" if "?n < nat (heap_max s)"
  proof -
    have "1 < nat (heap_max s)" using that assms(1) by linarith
    then have "done_nodes q = done_nodes s" by (simp add: done_nodes_def q_def SMALLEST_def)
    moreover have "nat (heap_len q) < nat (heap_max q)" using that assms(1) by (simp add: q_def)
    ultimately show ?thesis using d(7) by (simp add: r)
  qed
  have "length (heap_nodes s) = ?n" using assms(2) by (simp add: heap_nodes_def)
  then obtain a mid b where h: "heap_nodes s = a # mid @ [b]" "length mid = ?n - 2"
  proof -
    obtain a xs where a: "heap_nodes s = a # xs" "length xs = ?n - 1"
      using \<open>length (heap_nodes s) = ?n\<close> assms(1) by (cases "heap_nodes s") auto
    obtain mid b where "xs = mid @ [b]"
      using a(2) assms(1) by (cases xs rule: rev_cases) auto
    then show thesis using that [of a mid b] a by simp
  qed
  have hp: "heap s = heap s ! 0 # (a # mid @ [b]) @ drop (Suc ?n) (heap s)"
    unfolding h(1) [symmetric] heap_nodes_def by (rule heap_split [OF assms(2)])
  have nn: "?n = Suc (Suc (length mid))" using h(2) assms(1) by simp
  have nq: "nat (heap_len s - 1) = Suc (length mid)" using nn by simp
  have "heap s ! ?n = b" by (subst hp) (simp add: nn nth_append)
  moreover have "heap s ! 1 = a" by (subst hp) simp
  moreover have "(heap s)[1 := b] = heap s ! 0 # (b # mid @ [b]) @ drop (Suc ?n) (heap s)"
    by (subst hp) simp
  ultimately have "heap_nodes q = b # mid" "heap s ! SMALLEST = a"
    using nq nn by (simp_all add: heap_nodes_def q_def SMALLEST_def)
  then show "mset (heap_nodes s) = mset (heap_nodes (fst (pqremove s tree))) + {#snd (pqremove s tree)#}"
    using d(4) h(1) by (simp add: r)
qed

lemma build_step_forest:
  assumes f: "forest s tree leaves lo node" and h: "2 \<le> heap_len s"
  defines "r \<equiv> build_step s tree node"
  shows "forest (fst r) (snd r) leaves lo (node + 1)"
    "\<forall>x < lo. Freq (snd r ! x) = Freq (tree ! x)"
    "\<forall>x < lo. x \<notin> set leaves \<longrightarrow> snd r ! x = tree ! x"
    "length (snd r) = length tree"
proof -
  let ?k = "node - lo"
  have F: "length (heap s) = HEAP_SIZE" "lo \<le> node" "?k < length leaves" "length leaves \<le> L_CODES"
    "lo + length leaves \<le> length tree" "length tree \<le> HEAP_SIZE" "\<forall>l \<in> set leaves. l < lo" "distinct leaves"
    "heap_len s = int (length leaves - ?k)" "heap_max s = int (HEAP_SIZE - 2 * ?k)"
    "mset (heap_nodes s @ done_nodes s) = mset (map int leaves @ map int [lo..<node])"
    "dads_ok tree lo node (done_nodes s)"
    "\<forall>y \<in> {lo..<node}. length (filter (\<lambda>x. dad tree x = y) (done_nodes s)) = 2"
    using f by (simp_all add: forest_def)
  have k: "?k + 2 \<le> length leaves" "nat (heap_len s) < nat (heap_max s)" "nat (heap_len s) < length (heap s)"
    "2 * ?k + 2 < HEAP_SIZE" "2 * ?k + 2 \<le> HEAP_SIZE"
    using h F(1,3,4,9,10) by (auto simp: code_numbers)
  obtain s1 n where s1: "pqremove s tree = (s1, n)" by fastforce
  note R = heap_nodes_remove [OF h k(3), where tree = tree, unfolded s1 fst_conv snd_conv]
  have hl1: "heap_len s1 = heap_len s - 1" "heap_max s1 = heap_max s" "length (heap s1) = HEAP_SIZE"
    "done_nodes s1 = done_nodes s" "1 \<le> nat (heap_len s1)"
    using R(2-5) F(1) k(2) h by simp_all
  define m where "m = heap s1 ! SMALLEST"
  obtain rest where hn1: "heap_nodes s1 = m # rest"
  proof
    have "heap s1 = heap s1 ! 0 # heap s1 ! 1 # drop 2 (heap s1)"
      using hl1(3) by (cases "heap s1"; cases "tl (heap s1)") (auto simp: code_numbers)
    then have "drop 1 (heap s1) = m # drop 2 (heap s1)" unfolding m_def SMALLEST_def by (metis drop0 drop_Suc_Cons One_nat_def)
    then show "heap_nodes s1 = m # take (nat (heap_len s1) - 1) (drop 2 (heap s1))"
      using hl1(5) by (simp add: heap_nodes_def take_Cons')
  qed
  have nodes: "mset (n # m # rest @ done_nodes s) = mset (map int leaves @ map int [lo..<node])"
    using F(11) R(1) by (simp add: hn1)
  have set_nodes: "set (n # m # rest @ done_nodes s) = int ` set leaves \<union> int ` {lo..<node}"
    using mset_eq_setD [OF nodes] by simp
  have dist: "distinct (n # m # rest @ done_nodes s)"
  proof -
    have "distinct (map int leaves @ map int [lo..<node])"
      using F(7,8) by (auto simp: distinct_map inj_on_def)
    then show ?thesis using nodes mset_eq_imp_distinct_iff by blast
  qed
  have in_range: "\<exists>i < node. x = int i" if "x \<in> set (n # m # rest @ done_nodes s)" for x
    using that F(2,7) unfolding set_nodes by auto
  obtain i j where ij: "n = int i" "m = int j" "i < node" "j < node"
    using in_range [of n] in_range [of m] by auto
  have nd: "node < length tree" "node < 2 ^ 16" using F(2-6) by (auto simp: code_numbers)
  let ?HM = "nat (heap_max s)"
  have HM: "?HM = HEAP_SIZE - 2 * ?k" using F(10) by simp
  define D where "D = (depth s1)[node := (if depth s1 ! nat n \<ge> depth s1 ! nat m then depth s1 ! nat n else depth s1 ! nat m) + 1]"
  define hp where "hp = (heap s1)[?HM - 1 := n, ?HM - 2 := m, SMALLEST := int node]"
  define s3 where "s3 = s1\<lparr>heap_max := heap_max s1 - 2, depth := D, heap := hp\<rparr>"
  define tree' where "tree' = tree[node := (tree ! node)\<lparr>fc := Freq (tree ! i) + Freq (tree ! j)\<rparr>,
    j := (tree ! j)\<lparr>dl := of_nat node\<rparr>, i := (tree ! i)\<lparr>dl := of_nat node\<rparr>]"
  have ne: "i \<noteq> j" "i \<noteq> node" "j \<noteq> node" using dist ij by auto
  have hm: "nat (heap_max s1 - 1) = ?HM - 1" "nat (heap_max s1 - 1 - 1) = ?HM - 2" "nat (heap_max s1 - 2) = ?HM - 2"
    using hl1(2) by auto
  have r: "r = (pqdownheap s3 tree' SMALLEST, tree')"
    unfolding r_def build_step_def s1 Let_def prod.case m_def [symmetric]
      s3_def hp_def D_def tree'_def
    using ne by (simp add: hm ij(1,2))
  have l: "length hp = HEAP_SIZE" "nat (heap_len s3) = nat (heap_len s1)" "nat (heap_max s3) = ?HM - 2"
    using hl1 k by (simp_all add: hp_def s3_def nat_diff_distrib)
  have gap: "Suc (nat (heap_len s1)) \<le> ?HM - 2" "?HM - 1 = Suc (?HM - 2)" "?HM = Suc (Suc (?HM - 2))" "?HM \<le> HEAP_SIZE"
  proof -
    have nl: "nat (heap_len s1) = length leaves - ?k - 1" using F(9) hl1(1) by linarith
    have "HEAP_SIZE = 573" "length leaves \<le> 286" using F(4) by (simp_all add: code_numbers)
    moreover from this have "?HM + 2 * ?k = 573" "nat (heap_len s1) + ?k + 1 = length leaves"
      using k(1) unfolding HM nl by simp_all
    ultimately show "Suc (nat (heap_len s1)) \<le> ?HM - 2" "?HM - 1 = Suc (?HM - 2)" "?HM = Suc (Suc (?HM - 2))" "?HM \<le> HEAP_SIZE"
      using k(1) by linarith+
  qed
  define e where "e = ?HM - 2"
  have e: "?HM = Suc (Suc e)" "Suc (nat (heap_len s1)) \<le> e" "Suc e < HEAP_SIZE" "1 < e"
    using gap hl1(5) unfolding e_def by linarith+
  have hp: "hp = (heap s1)[Suc e := n, e := m, 1 := int node]"
    by (simp add: hp_def SMALLEST_def e(1))
  have d3: "done_nodes s3 = m # n # done_nodes s"
  proof -
    have "drop e hp = hp ! e # hp ! Suc e # drop (Suc (Suc e)) hp"
      using e(3) l(1) by (simp add: Cons_nth_drop_Suc)
    moreover have "hp ! e = m" "hp ! Suc e = n"
      using e(3,4) hl1(3) by (simp_all add: hp)
    moreover have "drop (Suc (Suc e)) hp = drop (Suc (Suc e)) (heap s1)" using e(4) by (simp add: hp)
    moreover have "drop (Suc (Suc e)) (heap s1) = done_nodes s" using hl1(2,4) e(1) by (simp add: done_nodes_def)
    moreover have "done_nodes s3 = drop e hp" by (simp add: done_nodes_def l(3) e_def) (simp add: s3_def)
    ultimately show ?thesis by simp
  qed
  have h3: "heap_nodes s3 = int node # rest"
  proof -
    let ?l = "nat (heap_len s1)"
    have "drop 1 hp = (drop 1 (heap s1))[e := n, e - 1 := m, 0 := int node]"
      using e(4) by (simp add: hp drop_update_swap)
    moreover have "length (take ?l (drop 1 (heap s1))) \<le> e - 1" using e(2) by simp
    ultimately have "take ?l (drop 1 hp) = (take ?l (drop 1 (heap s1)))[0 := int node]"
      by (simp add: take_update_swap list_update_beyond)
    then show ?thesis using hn1 by (simp add: heap_nodes_def l(2)) (simp add: s3_def)
  qed
  have mv: "heap_moved s3 (fst r)"
    unfolding r fst_conv using l hl1(5) gap by (intro pqdownheap_moved) (simp_all add: SMALLEST_def s3_def)
  note M = heap_movedD [OF mv]
  have dn: "done_nodes (fst r) = m # n # done_nodes s"
    using M(7) d3 l gap by simp
  have dads: "dad tree' x = (if x = n \<or> x = m then node else dad tree x)" if x: "x \<in> set (n # m # done_nodes s)" for x
  proof -
    obtain x' where x': "x = int x'" "x' < node" using in_range [of x] x by auto
    have "unat (of_nat node :: u16) = node" using nd(2) by (simp add: unat_of_nat_small)
    then show ?thesis
      using ne nd(1) ij(3,4) x' by (auto simp: dad_def tree'_def ij(1,2) nth_list_update)
  qed
  have nm: "n \<notin> set (done_nodes s)" "m \<notin> set (done_nodes s)" "n \<noteq> m"
    using dist by auto
  have node_new: "int node \<notin> set (n # m # rest @ done_nodes s)" using in_range [of "int node"] by fastforce
  have dok: "dads_ok tree' lo (node + 1) (m # n # done_nodes s)"
  proof -
    have "dads_ok tree' lo (node + 1) (done_nodes s)"
      using F(12) by (rule dads_ok_cong [rotated 2]) (use dads nm in auto)
    then show ?thesis using dads [of n] dads [of m] F(2) node_new by simp
  qed
  have kids: "length (filter (\<lambda>x. dad tree' x = y) (m # n # done_nodes s)) = 2" if "y \<in> {lo..<node + 1}" for y
  proof -
    have e: "filter (\<lambda>x. dad tree' x = y) (done_nodes s) = filter (\<lambda>x. dad tree x = y) (done_nodes s)"
      using dads nm by (intro filter_cong) auto
    show ?thesis
    proof (cases "y = node")
      case True
      have "filter (\<lambda>x. dad tree x = node) (done_nodes s) = []"
        using dads_ok_range [OF F(12)] by (auto simp: filter_empty_conv)
      then show ?thesis using True dads [of n] dads [of m] e by simp
    next
      case False
      then show ?thesis using that dads [of n] dads [of m] e F(13) by auto
    qed
  qed
  have ms: "mset (heap_nodes (fst r) @ done_nodes (fst r)) = mset (map int leaves @ map int [lo..<node + 1])"
    using M(4) h3 dn nodes F(2) by (simp add: ac_simps)
  have hl: "heap_len (fst r) = int (length leaves - (node + 1 - lo))" "heap_max (fst r) = int (HEAP_SIZE - 2 * (node + 1 - lo))"
    using M(1,2) hl1(1,2) F(2,9,10) k by (auto simp: s3_def of_nat_diff Suc_diff_le)
  have t': "snd r = tree'" by (simp add: r)
  show "length (snd r) = length tree" by (simp add: t' tree'_def)
  show "forest (fst r) (snd r) leaves lo (node + 1)"
    unfolding forest_def t' dn
    using F(2,4,5,6,7,8) k(1) M(3) l(1) hl ms dok kids dn
    by (simp add: s3_def tree'_def Suc_diff_le)
  show "\<forall>x < lo. Freq (snd r ! x) = Freq (tree ! x)"
    using F(2) ij(3,4) nd(1) by (auto simp: t' tree'_def nth_list_update)
  show "\<forall>x < lo. x \<notin> set leaves \<longrightarrow> snd r ! x = tree ! x"
  proof (intro allI impI)
    fix x assume x: "x < lo" "x \<notin> set leaves"
    have "int i \<in> set (n # m # rest @ done_nodes s)" "int j \<in> set (n # m # rest @ done_nodes s)" using ij by auto
    then have "x \<noteq> i" "x \<noteq> j" using x unfolding set_nodes by auto
    then show "snd r ! x = tree ! x" using x F(2) by (simp add: t' tree'_def)
  qed
qed

end
