(* ===== verification/Tr_Huffman.thy ===== *)
theory Tr_Huffman
  imports Tr_Build
begin

text \<open>
  The trees that \<open>build_tree\<close> makes: the forest it starts from, the tree the loop ends with, and
  the code lengths that \<open>gen_bitlen\<close> reads off it. Whatever the frequencies are, the lengths of
  the symbols that occur are between 1 and the limit of the tree, and they satisfy the Kraft
  inequality with equality, so that \<open>gen_codes\<close> makes a complete prefix code.
\<close>

section \<open>The leaves\<close>

definition leaves_ok :: "deflate_state \<Rightarrow> ct_data list \<Rightarrow> int \<Rightarrow> nat list \<Rightarrow> ct_data list \<Rightarrow> nat \<Rightarrow> bool" where
  "leaves_ok s tree max_code leaves t0 n \<longleftrightarrow>
     length (heap s) = HEAP_SIZE \<and> heap_max s = int HEAP_SIZE \<and> heap_len s = int (length leaves) \<and> heap_nodes s = map int leaves \<and>
     distinct leaves \<and> length tree = length t0 \<and>
     (\<forall>l \<in> set leaves. l < n \<and> int l \<le> max_code) \<and>
     (if leaves = [] then max_code = -1 else 0 \<le> max_code \<and> nat max_code \<in> set leaves) \<and>
     (\<forall>i < n. Freq (t0 ! i) \<noteq> 0 \<longrightarrow> i \<in> set leaves) \<and>
     (\<forall>i < n. i \<notin> set leaves \<longrightarrow> Len (tree ! i) = 0) \<and>
     (\<forall>i < length t0. Freq (tree ! i) = Freq (t0 ! i) \<or> i \<in> set leaves \<and> Freq (t0 ! i) = 0)"

lemma heap_push_nodes:
  assumes "0 \<le> heap_len s" "nat (heap_len s) + 1 < length (heap s)"
  shows "heap_nodes (heap_push s x) = heap_nodes s @ [x]"
proof -
  let ?n = "nat (heap_len s)"
  have n: "nat (heap_len s + 1) = Suc ?n" using assms(1) by simp
  have "take (Suc ?n) (drop 1 ((heap s)[Suc ?n := x])) = take ?n (drop 1 (heap s)) @ [x]"
    using assms(2) by (simp add: take_Suc_conv_app_nth drop_update_swap)
  then show ?thesis by (simp add: heap_nodes_def heap_push_def n)
qed

lemma heap_nodes_depth [simp]: "heap_nodes (s\<lparr>depth := d\<rparr>) = heap_nodes s" "heap_nodes (s\<lparr>opt_len := x\<rparr>) = heap_nodes s"
  "heap_nodes (s\<lparr>static_len := y\<rparr>) = heap_nodes s"
  by (simp_all add: heap_nodes_def)

lemma heap_push_fields [simp]:
  "heap_len (heap_push s x) = heap_len s + 1" "heap_max (heap_push s x) = heap_max s"
  "length (heap (heap_push s x)) = length (heap s)"
  by (simp_all add: heap_push_def)

lemma init_heap_step_ok:
  assumes a: "leaves_ok s tree max_code leaves t0 n" and n: "n < length t0" "n < L_CODES"
    and f: "Freq (tree ! n) = Freq (t0 ! n)"
  shows "\<exists>s' tree' max_code' leaves'. init_heap_step (s, tree, max_code) n = (s', tree', max_code') \<and>
    leaves_ok s' tree' max_code' leaves' t0 (Suc n) \<and> (\<forall>i > n. tree' ! i = tree ! i)"
proof (cases "Freq (tree ! n) = 0")
  case True
  have "n \<notin> set leaves" using a by (auto simp: leaves_ok_def)
  then have "leaves_ok s (set_len (int n) 0 tree) max_code leaves t0 (Suc n)"
    using a n True f by (auto simp: leaves_ok_def set_len_def nth_list_update less_Suc_eq)
  then show ?thesis using True by (auto simp: init_heap_step_def set_len_def)
next
  case False
  have d: "distinct leaves" "\<forall>l \<in> set leaves. l < n" using a by (simp_all add: leaves_ok_def)
  then have "length leaves = card (set leaves)" "set leaves \<subseteq> {..<n}" by (auto simp: distinct_card)
  then have len: "length leaves \<le> n" by (metis card_lessThan card_mono finite_lessThan)
  have "heap_nodes (heap_push s (int n)) = heap_nodes s @ [int n]"
    using a len n(2) by (intro heap_push_nodes) (auto simp: leaves_ok_def code_numbers)
  then have "leaves_ok ((heap_push s (int n))\<lparr>depth := (depth s)[n := 0]\<rparr>) tree (int n) (leaves @ [n]) t0 (Suc n)"
    using a n d False f by (auto simp: leaves_ok_def less_Suc_eq heap_push_def)
  then show ?thesis using False by (auto simp: init_heap_step_def heap_push_def Let_def)
qed

lemma init_heap_ok:
  assumes l: "length (heap s) = HEAP_SIZE" "heap_max s = int HEAP_SIZE" "heap_len s = 0"
  shows "n \<le> length t0 \<Longrightarrow> n \<le> L_CODES \<Longrightarrow>
    \<exists>s' tree' max_code' leaves'. foldl init_heap_step (s, t0, -1) [0..<n] = (s', tree', max_code') \<and>
      leaves_ok s' tree' max_code' leaves' t0 n"
proof (induction n)
  case 0
  have "leaves_ok s t0 (-1) [] t0 0" using l by (simp add: leaves_ok_def heap_nodes_def)
  then show ?case by auto
next
  case (Suc n)
  then obtain s' tree' mc' leaves' where f: "foldl init_heap_step (s, t0, -1) [0..<n] = (s', tree', mc')"
    and a: "leaves_ok s' tree' mc' leaves' t0 n" by auto
  have "n \<notin> set leaves'" "Freq (tree' ! n) = Freq (t0 ! n) \<or> n \<in> set leaves'"
    using a Suc.prems unfolding leaves_ok_def by (metis less_irrefl, metis Suc_le_lessD)
  then have "Freq (tree' ! n) = Freq (t0 ! n)" by blast
  then show ?case using init_heap_step_ok [OF a _ _] Suc.prems f by fastforce
qed

lemma force_step_ok:
  assumes a: "leaves_ok s tree mc leaves t0 N" and N: "3 \<le> N" "N \<le> length t0" and l: "length leaves < 2"
    and node: "(node, mc') = (if mc < 2 then (mc + 1, mc + 1) else (0, mc))"
    and r: "heap r = heap (heap_push s node)" "heap_len r = heap_len (heap_push s node)" "heap_max r = heap_max (heap_push s node)"
  shows "leaves_ok r (tree[nat node := (tree ! nat node)\<lparr>fc := 1\<rparr>]) mc' (leaves @ [nat node]) t0 N"
proof -
  have len: "length (heap s) = HEAP_SIZE" "heap_len s = int (length leaves)" using a by (simp_all add: leaves_ok_def)
  have hn: "heap_nodes r = heap_nodes s @ [node]"
    using heap_push_nodes [of s node] len l r by (simp add: heap_nodes_def code_numbers)
  consider "leaves = []" "node = 0" "mc' = 0"
    | c where "leaves = [c]" "node = int (Suc c)" "mc' = int (Suc c)" "c < 2"
    | c where "leaves = [c]" "node = 0" "mc' = int c" "2 \<le> c"
  proof (cases leaves)
    case Nil
    then have "mc = -1" using a by (simp add: leaves_ok_def)
    then show thesis using that(1) Nil node by simp
  next
    case (Cons c cs)
    then have c: "leaves = [c]" using l by simp
    then have "mc = int c" using a by (auto simp: leaves_ok_def)
    then show thesis using that(2) [of c] that(3) [of c] c node by (cases "c < 2") auto
  qed
  then have n: "0 \<le> node \<and> nat node < N \<and> nat node \<notin> set leaves \<and> 0 \<le> mc' \<and> nat mc' \<in> set (leaves @ [nat node]) \<and>
    (\<forall>l \<in> set (leaves @ [nat node]). int l \<le> mc')"
    using N(1) by cases auto
  have z: "Freq (t0 ! nat node) = 0" using a n by (auto simp: leaves_ok_def)
  show ?thesis
    using a hn n z N r l unfolding leaves_ok_def
    by (auto simp: nth_list_update)
qed

lemma force_two_ok:
  "leaves_ok s tree mc leaves t0 N \<Longrightarrow> 3 \<le> N \<Longrightarrow> N \<le> length t0 \<Longrightarrow>
    \<exists>s' tree' mc' leaves'. force_two t s tree mc = (s', tree', mc') \<and> leaves_ok s' tree' mc' leaves' t0 N \<and> 2 \<le> length leaves'"
proof (induction "2 - length leaves" arbitrary: s tree mc leaves)
  case 0
  then have "force_two t s tree mc = (s, tree, mc)"
    by (subst force_two.simps) (simp add: leaves_ok_def)
  then show ?case using 0 by auto
next
  case (Suc k)
  have "length leaves < 2" using Suc.hyps(2) by linarith
  moreover have "heap_len s = int (length leaves)" using Suc.prems(1) by (simp add: leaves_ok_def)
  ultimately have l: "length leaves < 2" "heap_len s < 2" by simp_all
  obtain node mc' where n: "(node, mc') = (if mc < 2 then (mc + 1, mc + 1) else (0, mc))" by (metis surj_pair)
  define r where "r = (case static_tree (stat_desc t) of
      Some stree \<Rightarrow> (heap_push s node)\<lparr>depth := (depth (heap_push s node))[nat node := 0],
        opt_len := opt_len (heap_push s node) - 1, static_len := static_len (heap_push s node) - ucast (Len (stree ! nat node))\<rparr>
    | None \<Rightarrow> (heap_push s node)\<lparr>depth := (depth (heap_push s node))[nat node := 0], opt_len := opt_len (heap_push s node) - 1\<rparr>)"
  have e: "force_two t s tree mc = force_two t r (tree[nat node := (tree ! nat node)\<lparr>fc := 1\<rparr>]) mc'"
    using l(2) n by (subst force_two.simps) (auto simp: Let_def r_def split: option.splits if_splits)
  have "leaves_ok r (tree[nat node := (tree ! nat node)\<lparr>fc := 1\<rparr>]) mc' (leaves @ [nat node]) t0 N"
    by (rule force_step_ok [OF Suc.prems(1,2,3) l(1) n]) (simp_all add: r_def split: option.splits)
  then show ?case
    unfolding e using Suc.hyps(2) Suc.prems(2,3) by (intro Suc.hyps(1)) simp_all
qed

section \<open>The tree\<close>

lemma heapify_moved:
  assumes "heap_len s = int l" "l < length (heap s)"
  shows "\<forall>k \<in> set ks. 1 \<le> k \<and> k \<le> l \<Longrightarrow> heap_moved s (foldl (\<lambda>s n. pqdownheap s tree n) s ks)"
proof (induction ks rule: rev_induct)
  case (snoc k ks)
  let ?s = "foldl (\<lambda>s n. pqdownheap s tree n) s ks"
  have m: "heap_moved s ?s" using snoc by simp
  have "heap_moved ?s (pqdownheap ?s tree k)"
    using heap_movedD [OF m] assms snoc.prems by (intro pqdownheap_moved) simp_all
  then show ?case using heap_moved_trans [OF m] by simp
qed simp

lemma start_forest:
  assumes a: "leaves_ok s tree mc leaves t0 N" and m: "heap_moved s r" and l: "2 \<le> length leaves" "N \<le> L_CODES"
    and t: "N + length leaves \<le> length t0" "length t0 \<le> HEAP_SIZE"
  shows "forest r tree leaves N N"
proof -
  note M = heap_movedD [OF m]
  have A: "length (heap s) = HEAP_SIZE" "heap_max s = int HEAP_SIZE" "heap_len s = int (length leaves)" "heap_nodes s = map int leaves"
    "distinct leaves" "length tree = length t0" "\<forall>l \<in> set leaves. l < N"
    using a by (simp_all add: leaves_ok_def)
  have "length leaves = card (set leaves)" "set leaves \<subseteq> {..<N}" using A(5,7) by (auto simp: distinct_card)
  then have ln: "length leaves \<le> N" by (metis card_lessThan card_mono finite_lessThan)
  have "done_nodes r = []" using M(2,3) A(1,2) by (simp add: done_nodes_def)
  then show ?thesis
    unfolding forest_def using A M l t ln by auto
qed

text \<open>The loop ends with a single node in the heap, and all the nodes but it are done.\<close>

lemma build_loop_forest:
  "forest s tree leaves lo node \<Longrightarrow> 2 \<le> heap_len s \<Longrightarrow>
    \<exists>s' tree'. build_loop s tree node = (s', tree') \<and> forest s' tree' leaves lo (lo + length leaves - 1) \<and> heap_len s' = 1 \<and>
      (\<forall>x < lo. Freq (tree' ! x) = Freq (tree ! x)) \<and> (\<forall>x < lo. x \<notin> set leaves \<longrightarrow> tree' ! x = tree ! x) \<and>
      length tree' = length tree"
proof (induction s tree node rule: build_loop.induct)
  case (1 s tree node)
  obtain s' tree' where st: "build_step s tree node = (s', tree')" by fastforce
  note F = build_step_forest [OF 1(2,3), unfolded st fst_conv snd_conv]
  show ?case
  proof (cases "2 \<le> heap_len s'")
    case True
    obtain s'' tree'' where r: "build_loop s' tree' (node + 1) = (s'', tree'')" "forest s'' tree'' leaves lo (lo + length leaves - 1)"
      "heap_len s'' = 1" "\<forall>x < lo. Freq (tree'' ! x) = Freq (tree' ! x)" "\<forall>x < lo. x \<notin> set leaves \<longrightarrow> tree'' ! x = tree' ! x"
      "length tree'' = length tree'"
      using 1(1) [OF st [symmetric] refl True F(1) True] by blast
    have "build_loop s tree node = (s'', tree'')" using True r(1) by (subst build_loop.simps) (simp add: st)
    then show ?thesis using r F by auto
  next
    case False
    then have "build_loop s tree node = (s', tree')" by (subst build_loop.simps) (simp add: st)
    moreover have "heap_len s' = 1" "node + 1 = lo + length leaves - 1"
      using False F(1) unfolding forest_def by auto
    ultimately show ?thesis using F by auto
  qed
qed

end
