(* ===== verification/Tr_Bitlen.thy ===== *)
theory Tr_Bitlen
  imports Tr_Huffman
begin

text \<open>
  The code lengths that \<open>gen_bitlen\<close> reads off the finished tree: the first pass, which cuts the
  depths off at the limit of the tree, the repair of the counts, and the second pass. The Kraft sum
  of the leaves is followed through all of them, and is 1 in the end.
\<close>

section \<open>The Kraft sum of a binary tree with bounded depth\<close>

text \<open>
  Every node of \<open>B\<close> is the father of two nodes, every node but the root has a father, and depths
  are cut off at \<open>ml\<close>: each father at the limit raises the sum over the leaves \<open>A\<close> by one.
\<close>

lemma card_filter: "distinct xs \<Longrightarrow> length (filter P xs) = card {x \<in> set xs. P x}"
  by (metis distinct_card distinct_filter set_filter)

lemma tree_kraft:
  fixes len :: "'a \<Rightarrow> nat"
  assumes d: "distinct (root # xs)" "set (root # xs) = A \<union> B" "A \<inter> B = {}" "root \<in> B" "\<forall>x \<in> set xs. f x \<in> B"
    and two: "\<forall>y \<in> B. length (filter (\<lambda>x. f x = y) xs) = 2"
    and len: "len root = 0" "\<forall>x \<in> set xs. len x = min ml (len (f x) + 1)" "0 < ml"
  defines "c \<equiv> card {y \<in> B. ml \<le> len y}"
  shows "(\<Sum>x \<in> A. 2 ^ (ml - len x)) = 2 ^ ml + c"
    and "length (filter (\<lambda>x. ml \<le> len (f x)) xs) = 2 * c"
    and "c \<le> card {x \<in> A. len x = ml}"
proof -
  let ?w = "\<lambda>x. 2 ^ (ml - len x) :: nat"
  have fin: "finite A" "finite B" using d(2) by (metis List.finite_set finite_Un)+
  have xs: "set xs = A \<union> (B - {root})" "root \<notin> A" using d(1-4) by auto
  have kids: "card {x \<in> set xs. f x = y} = 2" if "y \<in> B" for y
    using two that d(1) by (simp add: card_filter)
  have group: "sum h (set xs) = (\<Sum>y \<in> B. sum h {x \<in> set xs. f x = y})" for h :: "'a \<Rightarrow> nat"
    using d(5) fin by (intro sum.group [symmetric]) auto
  have e: "sum ?w {x \<in> set xs. f x = y} = ?w y + (if ml \<le> len y then 1 else 0)" if y: "y \<in> B" for y
  proof -
    have "sum ?w {x \<in> set xs. f x = y} = (\<Sum>x \<in> {x \<in> set xs. f x = y}. 2 ^ (ml - min ml (len y + 1)))"
      using len(2) by (intro sum.cong) auto
    also have "\<dots> = 2 * 2 ^ (ml - min ml (len y + 1))" using kids [OF y] by simp
    also have "\<dots> = ?w y + (if ml \<le> len y then 1 else 0)"
    proof (cases "ml \<le> len y")
      case False
      then have "ml - len y = Suc (ml - (len y + 1))" by simp
      then show ?thesis using False by simp
    qed simp
    finally show ?thesis .
  qed
  have cc: "(\<Sum>y \<in> B. if ml \<le> len y then 1 else 0) = c"
    using fin by (simp add: c_def sum.If_cases Int_def)
  have "sum ?w A + sum ?w (B - {root}) = sum ?w (set xs)"
    unfolding xs(1) using fin d(3) by (intro sum.union_disjoint [symmetric]) auto
  also have "\<dots> = (\<Sum>y \<in> B. ?w y + (if ml \<le> len y then 1 else 0))" unfolding group using e by (rule sum.cong [OF refl])
  also have "\<dots> = sum ?w B + c" unfolding sum.distrib cc ..
  also have "sum ?w B = ?w root + sum ?w (B - {root})" using fin(2) d(4) by (rule sum.remove)
  finally show "sum ?w A = 2 ^ ml + c" using len(1) by simp
  have "length (filter (\<lambda>x. ml \<le> len (f x)) xs) = (\<Sum>x \<in> set xs. if ml \<le> len (f x) then 1 else 0)"
    using d(1) by (simp add: card_filter sum.If_cases Int_def)
  also have "\<dots> = (\<Sum>y \<in> B. \<Sum>x \<in> {x \<in> set xs. f x = y}. if ml \<le> len y then 1 else 0)"
    unfolding group by (intro sum.cong refl) auto
  also have "\<dots> = (\<Sum>y \<in> B. 2 * (if ml \<le> len y then 1 else 0))"
    using kids by (intro sum.cong refl) simp
  also have "\<dots> = 2 * c" unfolding sum_distrib_left [symmetric] cc ..
  finally show two_c: "length (filter (\<lambda>x. ml \<le> len (f x)) xs) = 2 * c" .
  have le: "len y \<le> ml" if "y \<in> A \<union> B" for y
  proof -
    have "y = root \<or> y \<in> set xs" using that unfolding d(2) [symmetric] by simp
    then show ?thesis using len(1,2) by auto
  qed
  have "2 * c \<le> card {x \<in> set xs. len x = ml}"
    unfolding two_c [symmetric] using d(1) len(2) by (auto simp: card_filter intro!: card_mono)
  also have "{x \<in> set xs. len x = ml} = {x \<in> A. len x = ml} \<union> {y \<in> B. ml \<le> len y}"
    using xs len(1,3) le by (auto dest: le_antisym)
  also have "card \<dots> \<le> card {x \<in> A. len x = ml} + c"
    unfolding c_def by (rule card_Un_le)
  finally show "c \<le> card {x \<in> A. len x = ml}" by simp
qed

section \<open>The repair of lengths that are too large\<close>

definition count_sum :: "u16 list \<Rightarrow> nat \<Rightarrow> (nat \<Rightarrow> nat) \<Rightarrow> nat" where
  "count_sum bc ml g = (\<Sum>b \<in> {1..ml}. unat (bc ! b) * g b)"

lemma count_sum_update:
  assumes "1 \<le> j" "j \<le> ml" "j < length bc"
  shows "count_sum (bc[j := v]) ml g + unat (bc ! j) * g j = count_sum bc ml g + unat v * g j"
proof -
  have j: "j \<in> {1..ml}" "finite {1..ml}" using assms by auto
  have "(\<Sum>b \<in> {1..ml} - {j}. unat (bc[j := v] ! b) * g b) = (\<Sum>b \<in> {1..ml} - {j}. unat (bc ! b) * g b)"
    by (intro sum.cong) auto
  then show ?thesis
    unfolding count_sum_def sum.remove [OF j(2,1)] using assms by simp
qed

lemma find_bits_ok:
  assumes "1 \<le> j" "j \<le> n" "bc ! j \<noteq> 0"
  shows "1 \<le> find_bits bc n \<and> find_bits bc n \<le> n \<and> bc ! find_bits bc n \<noteq> 0"
  using assms by (induction n) (auto simp: le_Suc_eq)

lemma find_bits_counts:
  assumes k: "2 ^ ml < count_sum bc ml (\<lambda>b. 2 ^ (ml - b))" and n: "count_sum bc ml (\<lambda>_. 1) \<le> 2 ^ ml" and ml: "0 < ml"
  shows "1 \<le> find_bits bc (ml - 1)" "find_bits bc (ml - 1) < ml" "bc ! find_bits bc (ml - 1) \<noteq> 0"
proof -
  have "\<exists>j \<in> {1..ml - 1}. bc ! j \<noteq> 0"
  proof (rule ccontr)
    assume "\<not> ?thesis"
    then have z: "unat (bc ! b) = 0" if "b \<in> {1..ml}" "b \<noteq> ml" for b using that by auto
    have "count_sum bc ml (\<lambda>b. 2 ^ (ml - b)) = count_sum bc ml (\<lambda>_. 1)"
      unfolding count_sum_def
    proof (rule sum.cong [OF refl])
      fix b assume b: "b \<in> {1..ml}"
      show "unat (bc ! b) * 2 ^ (ml - b) = unat (bc ! b) * 1" using z [OF b] by (cases "b = ml") simp_all
    qed
    then show False using k n by simp
  qed
  then obtain j where "1 \<le> j" "j \<le> ml - 1" "bc ! j \<noteq> 0" by auto
  from find_bits_ok [OF this] show "1 \<le> find_bits bc (ml - 1)" "find_bits bc (ml - 1) < ml" "bc ! find_bits bc (ml - 1) \<noteq> 0"
    using ml by auto
qed

lemma overflow_loop_ok:
  assumes "0 < c" "length bc = MAX_BITS + 1" "0 < ml" "ml \<le> MAX_BITS" "bc ! 0 = 0" "\<forall>b. ml < b \<and> b \<le> MAX_BITS \<longrightarrow> bc ! b = 0"
    and "count_sum bc ml (\<lambda>b. 2 ^ (ml - b)) = 2 ^ ml + c" "count_sum bc ml (\<lambda>_. 1) = n" "n \<le> 2 ^ ml" "n < 2 ^ 15" "c \<le> unat (bc ! ml)"
  defines "r \<equiv> overflow_loop ml bc (int (2 * c))"
  shows "length r = MAX_BITS + 1 \<and> r ! 0 = 0 \<and> (\<forall>b. ml < b \<and> b \<le> MAX_BITS \<longrightarrow> r ! b = 0) \<and>
    count_sum r ml (\<lambda>b. 2 ^ (ml - b)) = 2 ^ ml \<and> count_sum r ml (\<lambda>_. 1) = n"
  using assms(1-11) unfolding r_def
proof (induction c arbitrary: bc)
  case (Suc c)
  define b where "b = find_bits bc (ml - 1)"
  have b: "1 \<le> b" "b < ml" "bc ! b \<noteq> 0"
    unfolding b_def using Suc.prems by (intro find_bits_counts; simp)+
  define bc1 where "bc1 = bc[b := bc ! b - 1]"
  define bc2 where "bc2 = bc1[b + 1 := bc1 ! (b + 1) + 2]"
  define bc3 where "bc3 = bc2[ml := bc2 ! ml - 1]"
  have step: "overflow_loop ml bc (int (2 * Suc c)) = (if 0 < c then overflow_loop ml bc3 (int (2 * c)) else bc3)"
    by (subst overflow_loop.simps) (unfold Let_def, fold b_def, fold bc1_def, fold bc2_def, fold bc3_def, simp)
  have le: "unat (bc ! j) \<le> n" if "j \<in> {1..ml}" for j
    using member_le_sum [OF that, of "\<lambda>b. unat (bc ! b) * 1"]
    unfolding Suc.prems(8) [symmetric] count_sum_def by simp
  have v1: "unat (bc ! b - 1) = unat (bc ! b) - 1" "1 \<le> unat (bc ! b)"
    using b(3) by (simp_all add: unat_minus_one unat_gt_0 Suc_le_eq)
  have i1: "bc1 ! (b + 1) = bc ! (b + 1)" by (simp add: bc1_def)
  have v2: "unat (bc1 ! (b + 1) + 2) = unat (bc ! (b + 1)) + 2"
    using le [of "b + 1"] b Suc.prems(10) unfolding i1 by (subst unat_add_small) simp_all
  have i2: "unat (bc2 ! ml) = (if b + 1 = ml then unat (bc ! ml) + 2 else unat (bc ! ml))"
    using b Suc.prems(2,4) v2 by (auto simp: bc2_def bc1_def)
  have v3: "unat (bc2 ! ml - 1) = unat (bc2 ! ml) - 1" "1 \<le> unat (bc2 ! ml)"
  proof -
    show "1 \<le> unat (bc2 ! ml)" using i2 Suc.prems(11) by simp
    then show "unat (bc2 ! ml - 1) = unat (bc2 ! ml) - 1" by (subst unat_sub_small) simp_all
  qed
  have s1: "count_sum bc1 ml g + g b = count_sum bc ml g" for g
    using count_sum_update [of b ml bc "bc ! b - 1" g] b Suc.prems(2,4) v1
    by (cases "unat (bc ! b)") (simp_all add: bc1_def)
  have s2: "count_sum bc2 ml g = count_sum bc1 ml g + 2 * g (b + 1)" for g
    using count_sum_update [of "b + 1" ml bc1 "bc1 ! (b + 1) + 2" g] b Suc.prems(2,4) v2
    by (simp add: bc2_def add_mult_distrib) (simp add: bc1_def)
  have s3: "count_sum bc3 ml g + g ml = count_sum bc2 ml g" for g
    using count_sum_update [of ml ml bc2 "bc2 ! ml - 1" g] b Suc.prems(2,4) v3
    by (cases "unat (bc2 ! ml)") (simp_all add: bc3_def bc2_def bc1_def)
  have p: "(2::nat) ^ (ml - b) = 2 * 2 ^ (ml - (b + 1))"
    using b(2) by (metis Suc_diff_Suc Suc_eq_plus1 power_Suc)
  have K: "count_sum bc3 ml (\<lambda>b. 2 ^ (ml - b)) = 2 ^ ml + c"
    using s1 [of "\<lambda>b. 2 ^ (ml - b)"] s2 [of "\<lambda>b. 2 ^ (ml - b)"] s3 [of "\<lambda>b. 2 ^ (ml - b)"] Suc.prems(7) p by simp
  have N: "count_sum bc3 ml (\<lambda>_. 1) = n"
    using s1 [of "\<lambda>_. 1"] s2 [of "\<lambda>_. 1"] s3 [of "\<lambda>_. 1"] Suc.prems(8) by simp
  have L: "length bc3 = MAX_BITS + 1" "bc3 ! 0 = 0" "\<forall>b. ml < b \<and> b \<le> MAX_BITS \<longrightarrow> bc3 ! b = 0"
    using Suc.prems(2,3,5,6) b by (auto simp: bc3_def bc2_def bc1_def)
  have M: "c \<le> unat (bc3 ! ml)"
    using v3 i2 Suc.prems(2,4,11) by (auto simp: bc3_def bc2_def bc1_def)
  show ?case
  proof (cases "0 < c")
    case True
    then have st: "overflow_loop ml bc (int (2 * Suc c)) = overflow_loop ml bc3 (int (2 * c))" by (simp only: step if_True)
    show ?thesis
      unfolding st by (rule Suc.IH [OF True L(1) Suc.prems(3,4) L(2,3) K N Suc.prems(9,10) M])
  next
    case False
    then show ?thesis using L K N by (simp only: step if_False simp_thms) simp
  qed
qed simp

section \<open>The first pass\<close>

text \<open>The shape of the finished tree: its nodes in the order of the heap array, the root first.\<close>

definition shape :: "ct_data list \<Rightarrow> nat list \<Rightarrow> nat \<Rightarrow> nat \<Rightarrow> int \<Rightarrow> int list \<Rightarrow> bool" where
  "shape tree leaves lo hi root xs \<longleftrightarrow>
     distinct (root # xs) \<and> set (root # xs) = int ` set leaves \<union> int ` {lo..<hi} \<and> int lo \<le> root \<and>
     (\<forall>l \<in> set leaves. l < lo) \<and> hi \<le> length tree \<and> lo \<le> hi \<and>
     dads_ok tree lo hi xs \<and> (\<forall>y \<in> {lo..<hi}. length (filter (\<lambda>x. dad tree x = y) xs) = 2)"

lemma forest_shape:
  assumes f: "forest s tree leaves lo hi" and h: "heap_len s = 1" and l: "2 \<le> length leaves"
  obtains "heap_nodes s = [heap s ! 1]" "shape tree leaves lo hi (heap s ! 1) (done_nodes s)"
proof -
  let ?xs = "done_nodes s"
  have F: "length (heap s) = HEAP_SIZE" "lo \<le> hi" "length leaves \<le> L_CODES" "lo + length leaves \<le> length tree"
    "\<forall>l \<in> set leaves. l < lo" "distinct leaves" "mset (heap_nodes s @ ?xs) = mset (map int leaves @ map int [lo..<hi])"
    "dads_ok tree lo hi ?xs" "\<forall>y \<in> {lo..<hi}. length (filter (\<lambda>x. dad tree x = y) ?xs) = 2"
    "heap_max s = int (HEAP_SIZE - 2 * (hi - lo))" "hi - lo < length leaves"
    "heap_len s = int (length leaves - (hi - lo))"
    using f by (simp_all add: forest_def)
  have root: "heap_nodes s = [heap s ! 1]"
    using F(1) h by (simp add: heap_nodes_def take_Suc_conv_app_nth code_numbers)
  have k: "hi - lo + 1 = length leaves" using F(11,12) h by simp
  have ms: "mset (heap s ! 1 # ?xs) = mset (map int leaves @ map int [lo..<hi])"
    using F(7) by (simp add: root)
  have d: "distinct (heap s ! 1 # ?xs)"
  proof -
    have "distinct (map int leaves @ map int [lo..<hi])" using F(5,6) by (auto simp: distinct_map inj_on_def)
    then show ?thesis using ms mset_eq_imp_distinct_iff by blast
  qed
  have st: "set (heap s ! 1 # ?xs) = int ` set leaves \<union> int ` {lo..<hi}" using mset_eq_setD [OF ms] by simp
  have "int lo \<le> heap s ! 1"
  proof (cases ?xs)
    case Nil
    then have "length leaves + (hi - lo) = 1" using arg_cong [OF ms, of size] by simp
    then show ?thesis using l by simp
  next
    case (Cons x zs)
    then have x: "lo \<le> dad tree x" "dad tree x < hi" "int (dad tree x) \<notin> set ?xs" using F(8) by auto
    then have "int (dad tree x) \<in> set (heap s ! 1 # ?xs)" unfolding st by auto
    then show ?thesis using x by auto
  qed
  then have "shape tree leaves lo hi (heap s ! 1) ?xs"
    unfolding shape_def using d st F k by simp
  then show thesis using that root by blast
qed

lemma shape_cases:
  assumes "shape tree leaves lo hi root xs" "x \<in> set (root # xs)"
  shows "0 \<le> x" "nat x < hi \<or> nat x \<in> set leaves" "nat x < length tree"
proof -
  have x: "x \<in> int ` set leaves \<union> int ` {lo..<hi}" and S: "\<forall>l \<in> set leaves. l < lo" "hi \<le> length tree" "lo \<le> hi"
    using assms unfolding shape_def by blast+
  then show "0 \<le> x" "nat x < hi \<or> nat x \<in> set leaves" by auto
  then show "nat x < length tree" using S by (auto dest: order_less_le_trans)
qed

text \<open>The father of a node comes before it.\<close>

lemma dads_ok_drop: "dads_ok tree lo hi xs \<Longrightarrow> dads_ok tree lo hi (drop k xs)"
proof (induction xs arbitrary: k)
  case (Cons x xs)
  then show ?case by (cases k) simp_all
qed simp

lemma dad_before:
  assumes s: "shape tree leaves lo hi root xs" and k: "k < length xs"
  shows "int (dad tree (xs ! k)) \<in> set (root # take k xs)" "dad tree (xs ! k) \<in> {lo..<hi}"
proof -
  have "dads_ok tree lo hi (drop k xs)" using s by (intro dads_ok_drop) (simp add: shape_def)
  then have d: "lo \<le> dad tree (xs ! k)" "dad tree (xs ! k) < hi" "int (dad tree (xs ! k)) \<notin> set (drop k xs)"
    using k by (simp_all add: Cons_nth_drop_Suc [symmetric])
  then show "dad tree (xs ! k) \<in> {lo..<hi}" by simp
  have "int (dad tree (xs ! k)) \<in> set (root # xs)" using s d(1,2) by (auto simp: shape_def)
  moreover have "set xs = set (take k xs) \<union> set (drop k xs)" by (metis append_take_drop_id set_append)
  ultimately show "int (dad tree (xs ! k)) \<in> set (root # take k xs)" using d(3) by auto
qed

definition len_of :: "ct_data list \<Rightarrow> nat \<Rightarrow> nat" where
  "len_of T n = unat (Len (T ! n))"

text \<open>The state of the first pass of \<open>gen_bitlen\<close> after the first \<open>k\<close> nodes below the root.\<close>

definition pass_inv :: "int list \<Rightarrow> ct_data list \<Rightarrow> nat \<Rightarrow> int \<Rightarrow> int \<Rightarrow> int list \<Rightarrow> nat \<Rightarrow> deflate_state \<times> ct_data list \<times> int \<Rightarrow> bool" where
  "pass_inv hp tree ml max_code root xs k st \<longleftrightarrow>
     (let (s, T, overflow) = st in
      heap s = hp \<and> length T = length tree \<and>
      (\<forall>n. int n \<notin> set (root # take k xs) \<longrightarrow> T ! n = tree ! n) \<and> (\<forall>n < length tree. Freq (T ! n) = Freq (tree ! n)) \<and>
      len_of T (nat root) = 0 \<and>
      (\<forall>x \<in> set (take k xs). len_of T (nat x) = min ml (len_of T (dad tree x) + 1)) \<and>
      overflow = int (length (filter (\<lambda>x. ml \<le> len_of T (dad tree x)) (take k xs))) \<and>
      length (bl_count s) = MAX_BITS + 1 \<and> bl_count s ! 0 = 0 \<and>
      (\<forall>b. 0 < b \<and> b \<le> MAX_BITS \<longrightarrow>
         unat (bl_count s ! b) = length (filter (\<lambda>x. x \<le> max_code \<and> len_of T (nat x) = b) (take k xs))))"

text \<open>One step of the first pass changes the counts, the two sums and the length of one node.\<close>

lemma bitlen_step_eq:
  assumes ml: "max_length (stat_desc t) = int ml" and T: "d = unat (Dad (T ! nat (heap s ! h)))"
  defines "bits \<equiv> min ml (len_of T d + 1)"
  obtains q r where "bitlen_step t max_code (s, T, ov) h =
    (s\<lparr>bl_count := (if heap s ! h > max_code then bl_count s else (bl_count s)[bits := bl_count s ! bits + 1]),
       opt_len := q, static_len := r\<rparr>,
     set_len (heap s ! h) (of_nat bits) T, if ml \<le> len_of T d then ov + 1 else ov)"
proof -
  define b0 where "b0 = uint (Len (T ! d)) + 1"
  have b0: "b0 = int (len_of T d + 1)" by (simp add: b0_def len_of_def)
  have c: "(if b0 > max_length (stat_desc t) then (max_length (stat_desc t), ov + 1) else (b0, ov))
      = (int bits, if ml \<le> len_of T d then ov + 1 else ov)"
    by (auto simp: ml b0 bits_def)
  have e: "bitlen_step t max_code (s, T, ov) h =
      (let (bits', ov') = (int bits, if ml \<le> len_of T d then ov + 1 else ov); n = heap s ! h; T' = set_len n (of_int bits') T in
       if n > max_code then (s, T', ov')
       else
         let s = s\<lparr>bl_count := (bl_count s)[nat bits' := bl_count s ! nat bits' + 1]\<rparr>;
             xbits = (if n \<ge> extra_base (stat_desc t) then extra_bits (stat_desc t) ! nat (n - extra_base (stat_desc t)) else 0);
             f = Freq (T' ! nat n);
             s = s\<lparr>opt_len := opt_len s + ucast f * of_int (bits' + xbits)\<rparr>;
             s = (case static_tree (stat_desc t) of
                    Some stree \<Rightarrow> s\<lparr>static_len := static_len s + ucast f * of_int (uint (Len (stree ! nat n)) + xbits)\<rparr>
                  | None \<Rightarrow> s)
         in (s, T', ov'))"
    unfolding c [symmetric] unfolding b0_def T by (simp only: bitlen_step_def prod.case Let_def)
  show thesis
  proof (cases "heap s ! h > max_code")
    case True
    then show ?thesis by (intro that [where q = "opt_len s" and r = "static_len s"]) (simp add: e)
  next
    case False
    define x where "x = (if heap s ! h \<ge> extra_base (stat_desc t)
      then extra_bits (stat_desc t) ! nat (heap s ! h - extra_base (stat_desc t)) else 0)"
    define f where "f = Freq (set_len (heap s ! h) (of_int (int bits)) T ! nat (heap s ! h))"
    note e = e [unfolded Let_def prod.case, folded x_def f_def]
    show ?thesis
    proof (cases "static_tree (stat_desc t)")
      case None
      then show ?thesis
        using False by (intro that [where q = "opt_len s + ucast f * of_int (int bits + x)" and r = "static_len s"])
          (simp add: e)
    next
      case (Some stree)
      then show ?thesis
        using False by (intro that [where q = "opt_len s + ucast f * of_int (int bits + x)"
              and r = "static_len s + ucast f * of_int (uint (Len (stree ! nat (heap s ! h))) + x)"])
          (simp add: e)
    qed
  qed
qed

lemma bitlen_step_ok:
  assumes sh: "shape tree leaves lo hi root xs" and k: "k < length xs" and h: "hp ! h = xs ! k"
    and ml: "nat (max_length (stat_desc t)) = ml" "0 < ml" "ml \<le> MAX_BITS" "max_code < int lo"
    and xs: "length xs < 2 ^ 16"
    and inv: "pass_inv hp tree ml max_code root xs k (s, T, ov)"
  shows "pass_inv hp tree ml max_code root xs (Suc k) (bitlen_step t max_code (s, T, ov) h)"
proof -
  let ?x = "xs ! k"
  define d where "d = dad tree ?x"
  have I: "heap s = hp" "length T = length tree" "\<And>n. int n \<notin> set (root # take k xs) \<Longrightarrow> T ! n = tree ! n"
    "\<And>n. n < length tree \<Longrightarrow> Freq (T ! n) = Freq (tree ! n)" "len_of T (nat root) = 0"
    "\<And>x. x \<in> set (take k xs) \<Longrightarrow> len_of T (nat x) = min ml (len_of T (dad tree x) + 1)"
    "ov = int (length (filter (\<lambda>x. ml \<le> len_of T (dad tree x)) (take k xs)))"
    "length (bl_count s) = MAX_BITS + 1" "bl_count s ! 0 = 0"
    "\<And>b. 0 < b \<Longrightarrow> b \<le> MAX_BITS \<Longrightarrow> unat (bl_count s ! b) = length (filter (\<lambda>x. x \<le> max_code \<and> len_of T (nat x) = b) (take k xs))"
    using inv unfolding pass_inv_def by simp_all
  have x: "?x \<in> set (root # xs)" "?x \<notin> set (root # take k xs)"
  proof -
    show "?x \<in> set (root # xs)" using k by simp
    have "distinct (take (Suc k) xs)" "root \<notin> set xs" using sh by (simp_all add: shape_def)
    then show "?x \<notin> set (root # take k xs)" using k by (auto simp: take_Suc_conv_app_nth)
  qed
  note X = shape_cases [OF sh x(1)]
  have Tx: "T ! nat ?x = tree ! nat ?x" using I(3) [of "nat ?x"] x(2) X(1) by simp
  have d: "int d \<in> set (root # take k xs)" "d \<in> {lo..<hi}" using dad_before [OF sh k] by (simp_all add: d_def)
  have dl: "len_of T d \<le> ml"
  proof (cases "int d = root")
    case True
    then show ?thesis using I(5) by (metis nat_int zero_le)
  next
    case False
    then have "len_of T (nat (int d)) = min ml (len_of T (dad tree (int d)) + 1)" using d(1) by (intro I(6)) simp
    then show ?thesis by simp
  qed
  define bits where "bits = min ml (len_of T d + 1)"
  have b: "0 < bits" "bits \<le> MAX_BITS" using ml by (simp_all add: bits_def)
  define T' where "T' = set_len ?x (of_nat bits) T"
  have lenx: "len_of T' (nat ?x) = bits"
  proof -
    have "bits < 2 ^ 16" using b by (simp add: MAX_BITS_def)
    then show ?thesis using X(3) I(2) by (simp add: len_of_def T'_def set_len_def unat_of_nat_small)
  qed
  have other: "len_of T' n = len_of T n" if "n \<noteq> nat ?x" for n
    using that by (simp add: len_of_def T'_def set_len_def)
  have before: "len_of T' n = len_of T n" if "int n \<in> set (root # take k xs)" for n
    using that x(2) X(1) by (intro other) auto
  have dads: "len_of T' (dad tree x) = len_of T (dad tree x)" if xk: "x \<in> set (take k xs)" for x
  proof -
    obtain i where i: "i < k" "x = xs ! i" using xk k by (auto simp: in_set_conv_nth)
    have "set (take i xs) \<subseteq> set (take k xs)" using i(1) by (intro set_take_subset_set_take) simp
    then have "int (dad tree x) \<in> set (root # take k xs)" using dad_before(1) [OF sh, of i] i k by auto
    then show ?thesis by (rule before)
  qed
  have lens: "len_of T' (nat x) = len_of T (nat x)" if "x \<in> set (take k xs)" for x
    using that shape_cases(1) [OF sh, of x] by (intro before) (auto dest: in_set_takeD)
  have dx: "len_of T' (dad tree ?x) = len_of T d" unfolding d_def [symmetric] using d(1) by (rule before)
  have "max_length (stat_desc t) = int ml" using ml(1,2) by (cases "0 \<le> max_length (stat_desc t)") auto
  moreover have "d = unat (Dad (T ! nat (heap s ! h)))" by (simp add: I(1) h Tx d_def dad_def)
  ultimately obtain q r where "bitlen_step t max_code (s, T, ov) h =
    (s\<lparr>bl_count := (if heap s ! h > max_code then bl_count s
         else (bl_count s)[min ml (len_of T d + 1) := bl_count s ! min ml (len_of T d + 1) + 1]), opt_len := q, static_len := r\<rparr>,
     set_len (heap s ! h) (of_nat (min ml (len_of T d + 1))) T, if ml \<le> len_of T d then ov + 1 else ov)"
    by (rule bitlen_step_eq)
  note st = this [unfolded I(1) h, folded bits_def, folded T'_def]
  have count: "unat ((if ?x > max_code then bl_count s else (bl_count s)[bits := bl_count s ! bits + 1]) ! b)
      = length (filter (\<lambda>x. x \<le> max_code \<and> len_of T' (nat x) = b) (take (Suc k) xs))" if b': "0 < b" "b \<le> MAX_BITS" for b
  proof -
    have e: "filter (\<lambda>x. x \<le> max_code \<and> len_of T' (nat x) = b) (take k xs)
        = filter (\<lambda>x. x \<le> max_code \<and> len_of T (nat x) = b) (take k xs)"
      using lens by (intro filter_cong) auto
    have "length (filter (\<lambda>x. x \<le> max_code \<and> len_of T (nat x) = b) (take k xs)) \<le> k"
      using k by (metis length_filter_le length_take min.absorb4)
    then have "unat (bl_count s ! b + 1) = unat (bl_count s ! b) + 1"
      using I(10) [OF b'] k xs by (subst unat_add_small) simp_all
    then show ?thesis
      using I(8) I(10) [OF b'] b' k e lenx
      by (auto simp: take_Suc_conv_app_nth nth_list_update)
  qed
  show ?thesis
    unfolding pass_inv_def st Let_def prod.case
  proof (intro conjI allI ballI impI)
    fix n assume "int n \<notin> set (root # take (Suc k) xs)"
    then have "n \<noteq> nat ?x" "int n \<notin> set (root # take k xs)" using k X(1) by (auto simp: take_Suc_conv_app_nth)
    then show "T' ! n = tree ! n" using I(3) by (simp add: T'_def set_len_def)
  next
    fix n assume "n < length tree"
    then show "Freq (T' ! n) = Freq (tree ! n)" using I(2,4) by (cases "n = nat ?x") (simp_all add: T'_def set_len_def)
  next
    fix x assume "x \<in> set (take (Suc k) xs)"
    then show "len_of T' (nat x) = min ml (len_of T' (dad tree x) + 1)"
      using k I(6) dads lens lenx dx by (auto simp: take_Suc_conv_app_nth bits_def)
  next
    have "filter (\<lambda>x. ml \<le> len_of T' (dad tree x)) (take k xs) = filter (\<lambda>x. ml \<le> len_of T (dad tree x)) (take k xs)"
      using dads by (intro filter_cong) auto
    then show "(if ml \<le> len_of T d then ov + 1 else ov) = int (length (filter (\<lambda>x. ml \<le> len_of T' (dad tree x)) (take (Suc k) xs)))"
      using I(7) k dx by (simp add: take_Suc_conv_app_nth)
  next
    have "len_of T' (nat root) = len_of T (nat root)"
      using shape_cases(1) [OF sh, of root] by (intro before) simp
    then show "len_of T' (nat root) = 0" using I(5) by simp
  qed (use I b count in \<open>simp_all add: T'_def set_len_def\<close>)
qed

lemma bitlen_pass:
  assumes sh: "shape tree leaves lo hi root xs" and h: "length hp = HEAP_SIZE" "Suc hm \<le> HEAP_SIZE" "xs = drop (Suc hm) hp"
    and ml: "nat (max_length (stat_desc t)) = ml" "0 < ml" "ml \<le> MAX_BITS" "max_code < int lo"
    and inv: "pass_inv hp tree ml max_code root xs 0 st"
  shows "pass_inv hp tree ml max_code root xs (length xs) (foldl (bitlen_step t max_code) st [Suc hm..<HEAP_SIZE])"
proof -
  have "length xs < 2 ^ 16" using h by (simp add: code_numbers)
  then have "k \<le> length xs \<Longrightarrow> pass_inv hp tree ml max_code root xs k (foldl (bitlen_step t max_code) st [Suc hm..<Suc hm + k])" for k
  proof (induction k)
    case 0
    then show ?case using inv by simp
  next
    case (Suc k)
    obtain s T ov where st: "foldl (bitlen_step t max_code) st [Suc hm..<Suc hm + k] = (s, T, ov)" by (metis surj_pair)
    have e: "[Suc hm..<Suc hm + Suc k] = [Suc hm..<Suc hm + k] @ [Suc hm + k]" by simp
    have "hp ! (Suc hm + k) = xs ! k" using Suc.prems(1) h by simp
    then have "pass_inv hp tree ml max_code root xs (Suc k) (bitlen_step t max_code (s, T, ov) (Suc hm + k))"
      using Suc st by (intro bitlen_step_ok [OF sh _ _ ml]) simp_all
    then show ?case by (simp only: e foldl_append st foldl.simps)
  qed
  from this [of "length xs"] show ?thesis using h by simp
qed

section \<open>The second pass\<close>

definition set_lengths :: "(int \<times> nat) list \<Rightarrow> ct_data list \<Rightarrow> ct_data list" where
  "set_lengths ps T = foldl (\<lambda>T (m, b). set_len m (of_nat b) T) T ps"

lemma set_lengths_simps [simp]: "set_lengths [] T = T" "set_lengths ((m, b) # ps) T = set_lengths ps (set_len m (of_nat b) T)"
  "set_lengths (ps @ qs) T = set_lengths qs (set_lengths ps T)"
  by (simp_all add: set_lengths_def)

lemma set_len_same: "unat (Len (T ! nat m)) = b \<Longrightarrow> set_len m (of_nat b) T = T"
  by (auto simp: set_len_def)

text \<open>The nodes that the pass still has before it when it stands at entry \<open>h\<close>.\<close>

definition leaves_before :: "int \<Rightarrow> int list \<Rightarrow> nat \<Rightarrow> int list" where
  "leaves_before max_code hp h = filter (\<lambda>m. m \<le> max_code) (rev (take h hp))"

lemma leaves_before_Suc:
  "h < length hp \<Longrightarrow> leaves_before max_code hp (Suc h) = (if hp ! h \<le> max_code then [hp ! h] else []) @ leaves_before max_code hp h"
  by (simp add: leaves_before_def take_Suc_conv_app_nth)

lemma assign_loop_ok:
  "h \<le> length (heap s) \<Longrightarrow> n \<le> length (leaves_before max_code (heap s) h) \<Longrightarrow>
    \<exists>q h'. assign_loop max_code bits h n s T =
      (s\<lparr>opt_len := q\<rparr>, set_lengths (map (\<lambda>m. (m, bits)) (take n (leaves_before max_code (heap s) h))) T, h') \<and> h' \<le> h \<and>
      leaves_before max_code (heap s) h' = drop n (leaves_before max_code (heap s) h)"
proof (induction max_code bits h n s T rule: assign_loop.induct)
  case (1 max_code bits n s T)
  then show ?case by (intro exI [of _ "opt_len s"] exI [of _ 0]) (simp add: leaves_before_def)
next
  case (2 max_code bits h n s T)
  let ?m = "heap s ! h"
  have h: "h < length (heap s)" using 2(3) by simp
  note L = leaves_before_Suc [OF h, of max_code]
  consider "n = 0" | "n \<noteq> 0" "max_code < ?m" | "n \<noteq> 0" "?m \<le> max_code" by linarith
  then show ?case
  proof cases
    case 1
    then show ?thesis by (intro exI [of _ "opt_len s"] exI [of _ "Suc h"]) simp
  next
    case c: 2
    obtain q h' where "assign_loop max_code bits h n s T =
      (s\<lparr>opt_len := q\<rparr>, set_lengths (map (\<lambda>m. (m, bits)) (take n (leaves_before max_code (heap s) h))) T, h')" "h' \<le> h"
      "leaves_before max_code (heap s) h' = drop n (leaves_before max_code (heap s) h)"
      using 2(1) [OF c(1) refl c(2)] 2(3,4) L c(2) by auto
    then show ?thesis using c L by (intro exI [of _ q] exI [of _ h']) simp
  next
    case c: 3
    define st where "st = (if unat (Len (T ! nat ?m)) \<noteq> bits
             then (s\<lparr>opt_len := opt_len s + (of_nat bits - ucast (Len (T ! nat ?m))) * ucast (Freq (T ! nat ?m))\<rparr>,
                   set_len ?m (of_nat bits) T)
             else (s, T))"
    obtain q1 where st: "st = (s\<lparr>opt_len := q1\<rparr>, set_len ?m (of_nat bits) T)"
    proof (cases "unat (Len (T ! nat ?m)) \<noteq> bits")
      case True
      then show thesis by (intro that) (simp add: st_def)
    next
      case False
      then show thesis by (intro that [of "opt_len s"]) (simp add: st_def set_len_same)
    qed
    have n1: "n - 1 \<le> length (leaves_before max_code (heap s) h)" using 2(4) L c by simp
    obtain q h' where IH: "assign_loop max_code bits h (n - 1) (s\<lparr>opt_len := q1\<rparr>) (set_len ?m (of_nat bits) T) =
      (s\<lparr>opt_len := q\<rparr>, set_lengths (map (\<lambda>m. (m, bits)) (take (n - 1) (leaves_before max_code (heap s) h))) (set_len ?m (of_nat bits) T), h')"
      "h' \<le> h" "leaves_before max_code (heap s) h' = drop (n - 1) (leaves_before max_code (heap s) h)"
      using 2(2) [OF c(1) refl _ st_def [unfolded st, simplified]] 2(3) n1 c by auto
    have e: "leaves_before max_code (heap s) (Suc h) = ?m # leaves_before max_code (heap s) h" using L c by simp
    have t: "map (\<lambda>m. (m, bits)) (take n (leaves_before max_code (heap s) (Suc h)))
        = (?m, bits) # map (\<lambda>m. (m, bits)) (take (n - 1) (leaves_before max_code (heap s) h))"
      "drop n (leaves_before max_code (heap s) (Suc h)) = drop (n - 1) (leaves_before max_code (heap s) h)"
      unfolding e using c(1) by (cases n; simp)+
    have "assign_loop max_code bits (Suc h) n s T =
        assign_loop max_code bits h (n - 1) (s\<lparr>opt_len := q1\<rparr>) (set_len ?m (of_nat bits) T)"
      using c by (simp add: Let_def st_def [symmetric] st)
    then show ?thesis
      unfolding t IH set_lengths_simps using IH(2,3) by (intro exI [of _ q] exI [of _ h']) simp
  qed
qed

text \<open>The lengths in the order in which they are given out.\<close>

definition given :: "u16 list \<Rightarrow> nat list \<Rightarrow> nat list" where
  "given bc bs = concat (map (\<lambda>b. replicate (unat (bc ! b)) b) bs)"

lemma assign_fold_ok:
  "h \<le> length (heap s) \<Longrightarrow> length (given (bl_count s) bs) \<le> length (leaves_before max_code (heap s) h) \<Longrightarrow>
    \<exists>q h'. foldl (assign_step max_code) (s, T, h) bs =
      (s\<lparr>opt_len := q\<rparr>, set_lengths (zip (leaves_before max_code (heap s) h) (given (bl_count s) bs)) T, h')"
proof (induction bs arbitrary: s T h)
  case Nil
  show ?case by (intro exI [of _ "opt_len s"] exI [of _ h]) (simp add: given_def)
next
  case (Cons b bs)
  let ?L = "leaves_before max_code (heap s) h" and ?n = "unat (bl_count s ! b)"
  have g: "given (bl_count s) (b # bs) = replicate ?n b @ given (bl_count s) bs" by (simp add: given_def)
  have n: "?n \<le> length ?L" using Cons.prems(2) g by simp
  obtain q h' where a: "assign_loop max_code b h ?n s T = (s\<lparr>opt_len := q\<rparr>, set_lengths (map (\<lambda>m. (m, b)) (take ?n ?L)) T, h')"
    "h' \<le> h" "leaves_before max_code (heap s) h' = drop ?n ?L"
    using assign_loop_ok [OF Cons.prems(1) n] by blast
  obtain q' h'' where IH: "foldl (assign_step max_code) (s\<lparr>opt_len := q\<rparr>, set_lengths (map (\<lambda>m. (m, b)) (take ?n ?L)) T, h') bs =
      (s\<lparr>opt_len := q'\<rparr>, set_lengths (zip (drop ?n ?L) (given (bl_count s) bs)) (set_lengths (map (\<lambda>m. (m, b)) (take ?n ?L)) T), h'')"
    using Cons.IH [where s = "s\<lparr>opt_len := q\<rparr>" and h = h' and T = "set_lengths (map (\<lambda>m. (m, b)) (take ?n ?L)) T"]
      Cons.prems a(2,3) g by fastforce
  have z: "zip ?L (replicate ?n b @ given (bl_count s) bs) = map (\<lambda>m. (m, b)) (take ?n ?L) @ zip (drop ?n ?L) (given (bl_count s) bs)"
    using n by (simp add: zip_append2 zip_replicate2 min_absorb1)
  have "assign_step max_code (s, T, h) b = (s\<lparr>opt_len := q\<rparr>, set_lengths (map (\<lambda>m. (m, b)) (take ?n ?L)) T, h')"
    by (simp add: assign_step_def a(1))
  then show ?case
    unfolding foldl.simps by (intro exI [of _ q'] exI [of _ h'']) (simp only: IH g z set_lengths_simps)
qed

end
