(* ===== verification/Tr_Tree.thy ===== *)
theory Tr_Tree
  imports Tr_Bitlen
begin

text \<open>
  The result of \<open>gen_bitlen\<close> and of \<open>build_tree\<close>: the code lengths of the symbols are within the limit of
  the tree, their Kraft sum is exactly 1, and the codes are the canonical ones.
\<close>

section \<open>gen\_bitlen\<close>

text \<open>What the construction of a tree may change in the state.\<close>

definition frame :: "deflate_state \<Rightarrow> deflate_state" where
  "frame s = s\<lparr>bl_count := [], heap := replicate (length (heap s)) 0, heap_len := 0, heap_max := 0,
     depth := replicate (length (depth s)) 0, opt_len := 0, static_len := 0\<rparr>"

lemma frame_simps [simp]:
  "frame (s\<lparr>bl_count := a\<rparr>) = frame s" "frame (s\<lparr>heap_len := b\<rparr>) = frame s" "frame (s\<lparr>heap_max := b\<rparr>) = frame s"
  "frame (s\<lparr>opt_len := c\<rparr>) = frame s" "frame (s\<lparr>static_len := c\<rparr>) = frame s"
  "length hp = length (heap s) \<Longrightarrow> frame (s\<lparr>heap := hp\<rparr>) = frame s" "length d = length (depth s) \<Longrightarrow> frame (s\<lparr>depth := d\<rparr>) = frame s"
  by (simp_all add: frame_def)

lemma frame_bitlen_step: "frame (fst (bitlen_step t mc (s, T, ov) h)) = frame s"
  by (cases "static_tree (stat_desc t)") (simp_all add: bitlen_step_def Let_def)

lemma frame_bitlen_pass: "frame (fst (foldl (bitlen_step t mc) st hs)) = frame (fst st)"
proof (induction hs arbitrary: st)
  case (Cons h hs)
  obtain s T ov where "st = (s, T, ov)" by (cases st)
  then show ?case using Cons frame_bitlen_step by simp
qed simp

lemma set_lengths_other: "n \<notin> nat ` fst ` set ps \<Longrightarrow> set_lengths ps T ! n = T ! n"
proof (induction ps arbitrary: T)
  case (Cons p ps)
  then show ?case by (cases p) (auto simp: set_len_def)
qed simp

lemma set_lengths_frame: "length (set_lengths ps T) = length T" "n < length T \<Longrightarrow> Freq (set_lengths ps T ! n) = Freq (T ! n)"
proof (induction ps arbitrary: T)
  case (Cons p ps)
  case 1 show ?case using Cons by (cases p) (simp add: set_len_def)
  case 2 then show ?case using Cons by (cases p; cases "n = nat (fst p)") (simp_all add: set_len_def)
qed simp_all

lemma set_lengths_at:
  "distinct (map (nat \<circ> fst) ps) \<Longrightarrow> (m, b) \<in> set ps \<Longrightarrow> nat m < length T \<Longrightarrow> b < 2 ^ 16 \<Longrightarrow> len_of (set_lengths ps T) (nat m) = b"
proof (induction ps arbitrary: T)
  case (Cons p ps)
  obtain m' b' where p: "p = (m', b')" by (cases p)
  show ?case
  proof (cases "p = (m, b)")
    case True
    then have "nat m \<notin> nat ` fst ` set ps" using Cons.prems(1) by (auto simp: image_image)
    then have "set_lengths ps (set_len m (of_nat b) T) ! nat m = set_len m (of_nat b) T ! nat m" by (rule set_lengths_other)
    then show ?thesis using True Cons.prems by (simp add: len_of_def set_len_def unat_of_nat_small)
  next
    case False
    then show ?thesis using Cons p by (auto simp: set_len_def)
  qed
qed simp

text \<open>The lengths of the leaves, their counts and their Kraft sum.\<close>

definition lens_done :: "u16 list \<Rightarrow> ct_data list \<Rightarrow> nat list \<Rightarrow> nat \<Rightarrow> bool" where
  "lens_done bc T leaves ml \<longleftrightarrow> length bc = MAX_BITS + 1 \<and> bc ! 0 = 0 \<and>
     (\<forall>b. 0 < b \<and> b \<le> MAX_BITS \<longrightarrow> unat (bc ! b) = card {l \<in> set leaves. len_of T l = b}) \<and>
     (\<forall>l \<in> set leaves. 1 \<le> len_of T l \<and> len_of T l \<le> ml) \<and> (\<Sum>l \<in> set leaves. 2 ^ (ml - len_of T l)) = (2 :: nat) ^ ml"

lemma count_sum_card:
  assumes "finite A" "\<forall>x \<in> A. 1 \<le> len x \<and> len x \<le> ml" "\<forall>b \<in> {1..ml}. unat (bc ! b) = card {x \<in> A. len x = b}"
  shows "count_sum bc ml g = (\<Sum>x \<in> A. g (len x))"
proof -
  have "(\<Sum>x \<in> A. g (len x)) = (\<Sum>b \<in> {1..ml}. \<Sum>x \<in> {x \<in> A. len x = b}. g (len x))"
    using assms(1,2) by (intro sum.group [symmetric]) auto
  also have "\<dots> = count_sum bc ml g" unfolding count_sum_def using assms(3) by (intro sum.cong) auto
  finally show ?thesis ..
qed

lemma length_given: "length (given bc (rev [1..<ml + 1])) = count_sum bc ml (\<lambda>_. 1)"
  by (induction ml) (simp_all add: given_def count_sum_def)

lemma filter_given: "length (filter (\<lambda>x. x = b) (given bc (rev [1..<ml + 1]))) = (if 1 \<le> b \<and> b \<le> ml then unat (bc ! b) else 0)"
  by (induction ml) (auto simp: given_def filter_empty_conv le_Suc_eq)

lemma given_range: "x \<in> set (given bc (rev [1..<ml + 1])) \<Longrightarrow> 1 \<le> x \<and> x \<le> ml"
  by (auto simp: given_def)

lemma second_pass:
  assumes R: "distinct R" "length R = count_sum bc ml (\<lambda>_. 1)" "set R = int ` set leaves" "\<forall>l \<in> set leaves. l < length T"
    and bc: "length bc = MAX_BITS + 1" "bc ! 0 = 0" "\<forall>b. ml < b \<and> b \<le> MAX_BITS \<longrightarrow> bc ! b = 0"
      "count_sum bc ml (\<lambda>b. 2 ^ (ml - b)) = 2 ^ ml" and ml: "ml \<le> MAX_BITS"
  shows "lens_done bc (set_lengths (zip R (given bc (rev [1..<ml + 1]))) T) leaves ml"
proof -
  define G where "G = given bc (rev [1..<ml + 1])"
  define U where "U = set_lengths (zip R G) T"
  have lG: "length G = length R" using length_given R(2) by (simp only: G_def)
  have map_G: "map (\<lambda>x. len_of U (nat x)) R = G"
  proof (rule nth_equalityI)
    fix i assume "i < length (map (\<lambda>x. len_of U (nat x)) R)"
    then have i: "i < length R" by simp
    have "R ! i \<in> set R" using i by simp
    then obtain l where l: "R ! i = int l" "l \<in> set leaves" unfolding R(3) by auto
    have "G ! i \<in> set G" using i lG by simp
    from given_range [OF this [unfolded G_def], folded G_def] ml have "G ! i \<le> 15" unfolding MAX_BITS_def by linarith
    then have g: "G ! i < 2 ^ 16" by (rule le_less_trans) simp
    have "inj_on nat (set R)" unfolding R(3) by (auto simp: inj_on_def)
    then have "distinct (map nat R)" using R(1) by (simp add: distinct_map)
    moreover have "map (nat \<circ> fst) (zip R G) = map nat R" using lG by (metis map_fst_zip map_map)
    ultimately have d: "distinct (map (nat \<circ> fst) (zip R G))" by (simp only:)
    have "(R ! i, G ! i) \<in> set (zip R G)" using i lG by (auto simp: set_zip)
    then have "len_of U (nat (R ! i)) = G ! i"
      unfolding U_def using l R(4) g by (intro set_lengths_at [OF d]) simp_all
    then show "map (\<lambda>x. len_of U (nat x)) R ! i = G ! i" using i by simp
  qed (simp add: lG)
  have FG: "length (filter (\<lambda>x. len_of U (nat x) = b) R) = length (filter (\<lambda>x. x = b) G)" for b
    unfolding map_G [symmetric] by (simp add: filter_map o_def)
  have c: "card {l \<in> set leaves. len_of U l = b} = (if 1 \<le> b \<and> b \<le> ml then unat (bc ! b) else 0)" for b
  proof -
    have "card {l \<in> set leaves. len_of U l = b} = card (int ` {l \<in> set leaves. len_of U l = b})" by (simp add: card_image)
    also have "int ` {l \<in> set leaves. len_of U l = b} = {x \<in> set R. len_of U (nat x) = b}" unfolding R(3) by auto
    also have "card \<dots> = length (filter (\<lambda>x. len_of U (nat x) = b) R)" using R(1) by (simp add: card_filter)
    finally show ?thesis using FG filter_given [of b bc ml, folded G_def] by simp
  qed
  have r: "\<forall>l \<in> set leaves. 1 \<le> len_of U l \<and> len_of U l \<le> ml"
  proof
    fix l assume "l \<in> set leaves"
    then have "card {k \<in> set leaves. len_of U k = len_of U l} \<noteq> 0" by auto
    then show "1 \<le> len_of U l \<and> len_of U l \<le> ml" using c by (metis (full_types))
  qed
  have "(\<Sum>l \<in> set leaves. 2 ^ (ml - len_of U l)) = count_sum bc ml (\<lambda>b. 2 ^ (ml - b))"
    using r c by (intro count_sum_card [symmetric]) auto
  then show ?thesis
    unfolding lens_done_def G_def [symmetric] U_def [symmetric] using bc c r by (auto simp: not_le)
qed

lemma gen_bitlen_ok:
  assumes sh: "shape tree leaves lo hi root xs"
    and h: "length (heap s) = HEAP_SIZE" "heap_max s = int hm" "Suc hm \<le> HEAP_SIZE" "heap s ! hm = root" "xs = drop (Suc hm) (heap s)"
    and ml: "nat (max_length (stat_desc t)) = ml" "0 < ml" "ml \<le> MAX_BITS"
    and mc: "max_code < int lo" "\<forall>l \<in> set leaves. int l \<le> max_code" and leaves: "length leaves \<le> 2 ^ ml" "length leaves < 2 ^ 15" "distinct leaves"
  obtains s' T where "gen_bitlen t max_code s tree = (s', T)" "lens_done (bl_count s') T leaves ml" "length T = length tree"
    "\<forall>n < length tree. Freq (T ! n) = Freq (tree ! n)" "\<forall>n < lo. n \<notin> set leaves \<longrightarrow> T ! n = tree ! n" "frame s' = frame s"
proof -
  define s0 where "s0 = s\<lparr>bl_count := map (\<lambda>_. 0) [0..<MAX_BITS + 1]\<rparr>"
  let ?A = "int ` set leaves" and ?B = "int ` {lo..<hi}"
  have S: "distinct (root # xs)" "set (root # xs) = ?A \<union> ?B" "int lo \<le> root" "\<forall>l \<in> set leaves. l < lo" "hi \<le> length tree"
    using sh by (simp_all add: shape_def)
  have root: "0 \<le> root" "nat root < length tree" using shape_cases [OF sh, of root] by simp_all
  have "pass_inv (heap s) tree ml max_code root xs 0 (s0, set_len root 0 tree, 0)"
    unfolding pass_inv_def Let_def prod.case using root
    by (auto simp: s0_def set_len_def len_of_def nth_list_update MAX_BITS_def nth_append)
  from bitlen_pass [OF sh h(1,3,5) ml mc(1) this]
  obtain s1 T ov where st: "foldl (bitlen_step t max_code) (s0, set_len root 0 tree, 0) [Suc hm..<HEAP_SIZE] = (s1, T, ov)"
    and inv: "pass_inv (heap s) tree ml max_code root xs (length xs) (s1, T, ov)"
    by (metis surj_pair)
  define len where "len x = len_of T (nat x)" for x :: int
  define f where "f x = int (dad tree x)" for x
  have I: "heap s1 = heap s" "length T = length tree" "\<And>n. int n \<notin> set (root # xs) \<Longrightarrow> T ! n = tree ! n"
    "\<forall>n < length tree. Freq (T ! n) = Freq (tree ! n)" "len root = 0" "\<forall>x \<in> set xs. len x = min ml (len (f x) + 1)"
    "ov = int (length (filter (\<lambda>x. ml \<le> len (f x)) xs))" "length (bl_count s1) = MAX_BITS + 1" "bl_count s1 ! 0 = 0"
    "\<And>b. 0 < b \<Longrightarrow> b \<le> MAX_BITS \<Longrightarrow> unat (bl_count s1 ! b) = length (filter (\<lambda>x. x \<le> max_code \<and> len x = b) xs)"
    using inv unfolding pass_inv_def Let_def prod.case by (simp_all add: len_def f_def)
  have nodes: "set (root # xs) = ?A \<union> ?B" "?A \<inter> ?B = {}" "root \<in> ?B" "\<forall>x \<in> set xs. f x \<in> ?B"
  proof -
    show "?A \<inter> ?B = {}" using S(4) by auto
    have "root \<in> ?A \<union> ?B" using S(2) by auto
    then show "root \<in> ?B" using S(3,4) by auto
    show "\<forall>x \<in> set xs. f x \<in> ?B"
    proof
      fix x assume "x \<in> set xs"
      then obtain k where "k < length xs" "x = xs ! k" by (auto simp: in_set_conv_nth)
      then show "f x \<in> ?B" using dad_before(2) [OF sh] by (auto simp: f_def)
    qed
  qed (use S(2) in blast)
  have kids: "\<forall>y \<in> ?B. length (filter (\<lambda>x. f x = y) xs) = 2"
    using sh by (auto simp: shape_def f_def)
  define c where "c = card {y \<in> ?B. ml \<le> len y}"
  note K = tree_kraft [OF S(1) nodes kids I(5,6) ml(2), folded c_def]
  have ov: "ov = int (2 * c)" using I(7) K(2) by simp
  have A_xs: "?A \<subseteq> set xs"
  proof
    fix x assume "x \<in> ?A"
    then have "x \<in> set (root # xs)" "x \<noteq> root" using nodes by blast+
    then show "x \<in> set xs" by simp
  qed
  have Alen: "1 \<le> len x \<and> len x \<le> ml" if "x \<in> ?A" for x
    using that A_xs I(6) ml(2) by auto
  have iff: "x \<le> max_code \<longleftrightarrow> x \<in> ?A" if "x \<in> set xs" for x
  proof -
    have "x \<in> ?A \<or> x \<in> ?B" using that S(2) by auto
    moreover have "y \<le> max_code" if "y \<in> ?A" for y using that mc(2) by auto
    moreover have "\<not> y \<le> max_code" if "y \<in> ?B" for y using that mc(1) by auto
    ultimately show ?thesis using nodes(2) by blast
  qed
  have cA: "unat (bl_count s1 ! b) = card {x \<in> ?A. len x = b}" if "0 < b" "b \<le> MAX_BITS" for b
  proof -
    have "{x \<in> set xs. x \<le> max_code \<and> len x = b} = {x \<in> ?A. len x = b}" using A_xs iff by blast
    then show ?thesis unfolding I(10) [OF that] using S(1) by (simp add: card_filter)
  qed
  have toA: "card {x \<in> ?A. len x = b} = card {l \<in> set leaves. len_of T l = b}" for b
  proof -
    have "{x \<in> ?A. len x = b} = int ` {l \<in> set leaves. len_of T l = b}" by (auto simp: len_def)
    then show ?thesis by (simp add: card_image)
  qed
  have sumA: "(\<Sum>x \<in> ?A. 2 ^ (ml - len x)) = (\<Sum>l \<in> set leaves. 2 ^ (ml - len_of T l) :: nat)"
    by (subst sum.reindex) (simp_all add: len_def)
  have top: "bl_count s1 ! b = 0" if "ml < b" "b \<le> MAX_BITS" for b
  proof -
    have "{x \<in> ?A. len x = b} = {}" using Alen that(1) by fastforce
    then have "unat (bl_count s1 ! b) = unat (0 :: u16)" using cA [of b] that by simp
    then show ?thesis by (simp only: word_unat_eq_iff)
  qed
  have cs: "count_sum (bl_count s1) ml g = (\<Sum>x \<in> ?A. g (len x))" for g
    using Alen cA ml(3) by (intro count_sum_card) auto
  have cardA: "card ?A = length leaves" using leaves(3) by (simp add: card_image distinct_card)
  have other: "\<forall>n < lo. n \<notin> set leaves \<longrightarrow> T ! n = tree ! n"
  proof (intro allI impI)
    fix n assume n: "n < lo" "n \<notin> set leaves"
    then have "int n \<notin> set (root # xs)" unfolding nodes(1) by auto
    then show "T ! n = tree ! n" by (rule I(3))
  qed
  have fr: "frame s1 = frame s"
    using frame_bitlen_pass [of t max_code "(s0, set_len root 0 tree, 0)" "[Suc hm..<HEAP_SIZE]"] unfolding st
    by (simp add: s0_def)
  have g: "gen_bitlen t max_code s tree = (if ov = 0 then (s1, T) else
      let s = s1\<lparr>bl_count := overflow_loop ml (bl_count s1) ov\<rparr>;
          (s, tree, h) = foldl (assign_step max_code) (s, T, HEAP_SIZE) (rev [1..<ml + 1]) in (s, tree))"
    unfolding gen_bitlen_def Let_def s0_def [symmetric] using st h(2,4) by (simp add: s0_def ml(1))
  show thesis
  proof (cases "c = 0")
    case True
    have "1 \<le> len_of T l \<and> len_of T l \<le> ml" if "l \<in> set leaves" for l
      using Alen [of "int l"] that by (simp add: len_def)
    then have "lens_done (bl_count s1) T leaves ml"
      unfolding lens_done_def toA [symmetric] sumA [symmetric] K(1) using I(8,9) cA True by simp
    moreover have "gen_bitlen t max_code s tree = (s1, T)" using g ov True by simp
    ultimately show thesis using I(2,4) other fr by (intro that)
  next
    case False
    define bc where "bc = overflow_loop ml (bl_count s1) ov"
    have "length bc = MAX_BITS + 1 \<and> bc ! 0 = 0 \<and> (\<forall>b. ml < b \<and> b \<le> MAX_BITS \<longrightarrow> bc ! b = 0) \<and>
        count_sum bc ml (\<lambda>b. 2 ^ (ml - b)) = 2 ^ ml \<and> count_sum bc ml (\<lambda>_. 1) = length leaves"
      unfolding bc_def ov
    proof (rule overflow_loop_ok)
      show "count_sum (bl_count s1) ml (\<lambda>b. 2 ^ (ml - b)) = 2 ^ ml + c" unfolding cs by (rule K(1))
      show "count_sum (bl_count s1) ml (\<lambda>_. 1) = length leaves" unfolding cs using cardA by simp
      show "c \<le> unat (bl_count s1 ! ml)" using K(3) cA ml(2,3) by simp
    qed (use False I(8,9) ml top leaves in auto)
    note BC = this
    define R where "R = rev (filter (\<lambda>m. m \<le> max_code) xs)"
    have R: "distinct R" "set R = ?A" "length R = length leaves"
    proof -
      show "distinct R" using S(1) by (simp add: R_def)
      show "set R = ?A" using A_xs iff by (auto simp: R_def)
      then show "length R = length leaves" using \<open>distinct R\<close> cardA distinct_card by metis
    qed
    have lb: "leaves_before max_code (heap s) HEAP_SIZE = R @ filter (\<lambda>m. m \<le> max_code) (rev (take (Suc hm) (heap s)))"
    proof -
      have "heap s = take (Suc hm) (heap s) @ xs" unfolding h(5) by simp
      then have "rev (heap s) = rev xs @ rev (take (Suc hm) (heap s))" by (metis rev_append)
      then show ?thesis using h(1) by (simp add: leaves_before_def R_def rev_filter)
    qed
    let ?G = "given bc (rev [1..<ml + 1])" and ?s = "s1\<lparr>bl_count := bc\<rparr>"
    have lG: "length ?G = length R" unfolding length_given using BC R(3) by simp
    obtain q h' where fold: "foldl (assign_step max_code) (?s, T, HEAP_SIZE) (rev [1..<ml + 1]) =
        (?s\<lparr>opt_len := q\<rparr>, set_lengths (zip (R @ filter (\<lambda>m. m \<le> max_code) (rev (take (Suc hm) (heap s)))) ?G) T, h')"
      using assign_fold_ok [of HEAP_SIZE ?s "rev [1..<ml + 1]" max_code T] h(1) lG by (auto simp: I(1) lb simp del: upt_Suc)
    have z: "zip (R @ ys) ?G = zip R ?G" for ys using lG by (simp add: zip_append1)
    have ld: "lens_done bc (set_lengths (zip R ?G) T) leaves ml"
      using R BC S(4,5) sh ml(3) I(2) by (intro second_pass) (auto simp: shape_def)
    have ge: "gen_bitlen t max_code s tree = (?s\<lparr>opt_len := q\<rparr>, set_lengths (zip R ?G) T)"
      unfolding g bc_def [symmetric] Let_def fold z prod.case using False ov by simp
    have ot: "set_lengths (zip R ?G) T ! n = tree ! n" if "n < lo" "n \<notin> set leaves" for n
    proof -
      have "n \<notin> nat ` set R" using that(2) unfolding R(2) by auto
      moreover have "fst ` set (zip R ?G) \<subseteq> set R" by (auto dest: set_zip_leftD)
      ultimately have "n \<notin> nat ` fst ` set (zip R ?G)" by blast
      then have "set_lengths (zip R ?G) T ! n = T ! n" by (rule set_lengths_other)
      also have "T ! n = tree ! n" using other that by blast
      finally show ?thesis .
    qed
    show thesis
      by (rule that [OF ge]) (use ld ot I(2,4) fr in \<open>simp_all add: set_lengths_frame\<close>)
  qed
qed

section \<open>build\_tree\<close>

text \<open>The parts of the construction change the heap, the counts and the sums only.\<close>

lemma down_loop_length: "length (fst (down_loop tree dep hlen v k hp)) = length hp"
proof (induction tree dep hlen v k hp rule: down_loop.induct)
  case (1 tree dep hlen v k hp)
  then show ?case by (subst down_loop.simps) (simp add: Let_def)
qed

lemma frame_pqdownheap [simp]: "frame (pqdownheap s tree k) = frame s"
  by (simp add: pqdownheap_def Let_def case_prod_beta down_loop_length)

lemma depth_pqdownheap [simp]: "depth (pqdownheap s tree k) = depth s"
  by (simp add: pqdownheap_def Let_def case_prod_beta)

lemma frame_heap_push [simp]: "frame (heap_push s n) = frame s"
  by (simp add: heap_push_def)

lemma depth_heap_push [simp]: "depth (heap_push s n) = depth s" "opt_len (heap_push s n) = opt_len s"
  "static_len (heap_push s n) = static_len s"
  by (simp_all add: heap_push_def)

lemma frame_init_heap_step: "frame (fst (init_heap_step st n)) = frame (fst st)"
  by (cases st) (simp add: init_heap_step_def Let_def)

lemma frame_init_heap: "frame (fst (foldl init_heap_step st ns)) = frame (fst st)"
  by (induction ns arbitrary: st) (simp_all add: frame_init_heap_step)

lemma frame_force_two: "frame (fst (force_two t s tree mc)) = frame s"
proof (induction t s tree mc rule: force_two.induct)
  case (1 t s tree mc)
  show ?case
  proof (cases "heap_len s < 2")
    case True
    then show ?thesis
      by (subst force_two.simps) (cases "static_tree (stat_desc t)"; cases "mc < 2"; simp add: Let_def 1)
  next
    case False
    then show ?thesis by (subst force_two.simps) simp
  qed
qed

lemma frame_build_step: "frame (fst (build_step s tree node)) = frame s"
  by (simp add: build_step_def pqremove_def Let_def)

lemma frame_build_loop: "frame (fst (build_loop s tree node)) = frame s"
proof (induction s tree node rule: build_loop.induct)
  case (1 s tree node)
  obtain s' tree' where st: "build_step s tree node = (s', tree')" by fastforce
  then have "frame s' = frame s" using frame_build_step by (metis fst_conv)
  then show ?case using 1 [OF st [symmetric] refl] st by (subst build_loop.simps) simp
qed

lemma frame_heapify: "frame (foldl (\<lambda>s n. pqdownheap s tree n) s ks) = frame s"
  by (induction ks arbitrary: s) simp_all

lemma frame_set: "frame (set_max_code t m s) = set_max_code t m (frame s)" "frame (set_tree t T s) = set_tree t T (frame s)"
  by (cases t; simp add: frame_def)+

lemma set_max_code_fields [simp]:
  "heap (set_max_code t m s) = heap s" "heap_len (set_max_code t m s) = heap_len s" "heap_max (set_max_code t m s) = heap_max s"
  "bl_count (set_max_code t m s) = bl_count s" "depth (set_max_code t m s) = depth s"
  by (cases t; simp)+

text \<open>Symbols, limit and size of a tree.\<close>

definition tree_elems :: "tree_id \<Rightarrow> nat" where
  "tree_elems t = nat (elems (stat_desc t))"

definition tree_limit :: "tree_id \<Rightarrow> nat" where
  "tree_limit t = nat (max_length (stat_desc t))"

lemma tree_numbers:
  "3 \<le> tree_elems t" "tree_elems t \<le> L_CODES" "0 < tree_limit t" "tree_limit t \<le> MAX_BITS" "tree_elems t \<le> 2 ^ tree_limit t"
  "tree_elems t < 2 ^ 15" "2 * tree_elems t + 1 \<le> HEAP_SIZE"
  by (cases t; simp add: tree_elems_def tree_limit_def static_l_desc_def static_d_desc_def static_bl_desc_def code_numbers MAX_BL_BITS_def)+

lemma dyn_tree_size: "sizes_ok s \<Longrightarrow> length (dyn_tree t s) = 2 * tree_elems t + 1"
  by (cases t) (simp_all add: sizes_ok_def tree_elems_def static_l_desc_def static_d_desc_def static_bl_desc_def HEAP_SIZE_def)

text \<open>The canonical code of the lengths of the leaves.\<close>

lemma lens_done_coded:
  assumes d: "lens_done bc T leaves ml" and ml: "ml \<le> MAX_BITS" and mc: "0 \<le> mc" "nat mc < length T" "\<forall>l \<in> set leaves. int l \<le> mc"
    and z: "\<forall>n. int n \<le> mc \<and> n \<notin> set leaves \<longrightarrow> Len (T ! n) = 0"
  shows "kraft (lens_of T mc)" "counts_lens bc (lens_of T mc)" "sum_list (map weight (lens_of T mc)) = 2 ^ MAX_LEN"
    "\<forall>l \<in> set (lens_of T mc). l \<le> ml"
proof -
  let ?n = "nat (mc + 1)"
  have lens: "lens_of T mc = map (len_of T) [0..<?n]"
    using mc(2) by (intro nth_equalityI) (auto simp: lens_of_def len_of_def)
  have sub: "set leaves \<subseteq> {0..<?n}" using mc by auto
  have zero: "len_of T i = 0" if "i \<in> {0..<?n} - set leaves" for i
    using z that mc(1) by (auto simp: len_of_def)
  have count: "count_len (lens_of T mc) b = card {l \<in> set leaves. len_of T l = b}" if "0 < b" for b
  proof -
    have "count_len (lens_of T mc) b = card {i \<in> {0..<?n}. len_of T i = b}"
      unfolding lens count_len_def by (simp add: filter_map o_def card_filter)
    also have "{i \<in> {0..<?n}. len_of T i = b} = {l \<in> set leaves. len_of T l = b}"
      using sub zero that by fastforce
    finally show ?thesis .
  qed
  then show "counts_lens bc (lens_of T mc)" using d by (simp add: counts_lens_def lens_done_def)
  show r: "\<forall>l \<in> set (lens_of T mc). l \<le> ml"
  proof
    fix x assume "x \<in> set (lens_of T mc)"
    then obtain i where i: "x = len_of T i" "i \<in> {0..<?n}" unfolding lens by auto
    show "x \<le> ml" using i zero [of i] d by (cases "i \<in> set leaves") (auto simp: lens_done_def)
  qed
  have "sum_list (map weight (lens_of T mc)) = (\<Sum>i \<in> {0..<?n}. weight (len_of T i))"
    unfolding lens by (simp add: interv_sum_list_conv_sum_set_nat o_def)
  also have "\<dots> = (\<Sum>l \<in> set leaves. weight (len_of T l))"
    using sub zero by (intro sum.mono_neutral_right) (auto simp: weight_def)
  also have "\<dots> = (\<Sum>l \<in> set leaves. 2 ^ (MAX_LEN - ml) * 2 ^ (ml - len_of T l))"
  proof (rule sum.cong [OF refl])
    fix l assume "l \<in> set leaves"
    then have "1 \<le> len_of T l" "len_of T l \<le> ml" using d by (auto simp: lens_done_def)
    then show "weight (len_of T l) = 2 ^ (MAX_LEN - ml) * 2 ^ (ml - len_of T l)"
      using ml by (simp add: weight_def MAX_LEN_def MAX_BITS_def flip: power_add)
  qed
  also have "\<dots> = 2 ^ (MAX_LEN - ml) * 2 ^ ml"
    using d by (simp add: lens_done_def flip: sum_distrib_left)
  also have "\<dots> = 2 ^ MAX_LEN" using ml by (simp add: MAX_LEN_def MAX_BITS_def flip: power_add)
  finally show w: "sum_list (map weight (lens_of T mc)) = 2 ^ MAX_LEN" .
  show "kraft (lens_of T mc)" using r w ml by (auto simp: kraft_def MAX_LEN_def MAX_BITS_def)
qed

lemma init_forest:
  assumes z: "sizes_ok s" and n: "n = tree_elems t"
  obtains s1 tree mc leaves where
    "force_two t (fst (foldl init_heap_step (s\<lparr>heap_len := 0, heap_max := int HEAP_SIZE\<rparr>, dyn_tree t s, -1) [0..<n]))
       (fst (snd (foldl init_heap_step (s\<lparr>heap_len := 0, heap_max := int HEAP_SIZE\<rparr>, dyn_tree t s, -1) [0..<n])))
       (snd (snd (foldl init_heap_step (s\<lparr>heap_len := 0, heap_max := int HEAP_SIZE\<rparr>, dyn_tree t s, -1) [0..<n]))) = (s1, tree, mc)"
    "leaves_ok s1 tree mc leaves (dyn_tree t s) n" "2 \<le> length leaves" "frame s1 = frame s"
proof -
  let ?s = "s\<lparr>heap_len := 0, heap_max := int HEAP_SIZE\<rparr>"
  have len: "length (dyn_tree t s) = 2 * n + 1" using dyn_tree_size [OF z] n by simp
  have h: "length (heap ?s) = HEAP_SIZE" using z by (simp add: sizes_ok_def)
  obtain s0 tree0 mc0 leaves0 where i: "foldl init_heap_step (?s, dyn_tree t s, -1) [0..<n] = (s0, tree0, mc0)"
    "leaves_ok s0 tree0 mc0 leaves0 (dyn_tree t s) n"
    using init_heap_ok [OF h, of n "dyn_tree t s"] len tree_numbers(2) [of t] n by auto
  obtain s1 tree mc leaves where f: "force_two t s0 tree0 mc0 = (s1, tree, mc)" "leaves_ok s1 tree mc leaves (dyn_tree t s) n" "2 \<le> length leaves"
    using force_two_ok [OF i(2), of t] tree_numbers(1) [of t] n len by auto
  have "frame s0 = frame s" using frame_init_heap [of "(?s, dyn_tree t s, -1)" "[0..<n]"] by (simp add: i(1))
  then have "frame s1 = frame s" using frame_force_two [of t s0 tree0 mc0] by (simp add: f(1))
  then show thesis using that f i(1) by simp
qed

text \<open>The result of \<open>build_tree\<close> for the tree \<open>t\<close>, in terms of the frequencies it starts with.\<close>

definition tree_built :: "ct_data list \<Rightarrow> tree_id \<Rightarrow> ct_data list \<Rightarrow> int \<Rightarrow> bool" where
  "tree_built t0 t T mc \<longleftrightarrow> length T = length t0 \<and> 0 \<le> mc \<and> mc < int (tree_elems t) \<and> coded T (lens_of T mc) \<and>
     Len (T ! nat mc) \<noteq> 0 \<and> (\<forall>n < tree_elems t. mc < int n \<longrightarrow> Len (T ! n) = 0) \<and>
     (\<forall>n < tree_elems t. Freq (t0 ! n) \<noteq> 0 \<longrightarrow> Len (T ! n) \<noteq> 0) \<and>
     (\<forall>l \<in> set (lens_of T mc). l \<le> tree_limit t) \<and> sum_list (map weight (lens_of T mc)) = 2 ^ MAX_LEN"

lemma build_tree_ok:
  assumes z: "sizes_ok s"
  obtains T mc where "tree_built (dyn_tree t s) t T mc" "dyn_tree t (build_tree s t) = T"
    "frame (build_tree s t) = set_tree t T (set_max_code t mc (frame s))" "length (bl_count (build_tree s t)) = MAX_BITS + 1"
proof -
  define n where "n = tree_elems t"
  note num = tree_numbers [of t, folded n_def]
  obtain s1 tree mc leaves where
    f: "force_two t (fst (foldl init_heap_step (s\<lparr>heap_len := 0, heap_max := int HEAP_SIZE\<rparr>, dyn_tree t s, -1) [0..<n]))
       (fst (snd (foldl init_heap_step (s\<lparr>heap_len := 0, heap_max := int HEAP_SIZE\<rparr>, dyn_tree t s, -1) [0..<n])))
       (snd (snd (foldl init_heap_step (s\<lparr>heap_len := 0, heap_max := int HEAP_SIZE\<rparr>, dyn_tree t s, -1) [0..<n]))) = (s1, tree, mc)"
    and L: "leaves_ok s1 tree mc leaves (dyn_tree t s) n" "2 \<le> length leaves" and fr1: "frame s1 = frame s"
    by (rule init_forest [OF z n_def])
  have len: "length (dyn_tree t s) = 2 * n + 1" using dyn_tree_size [OF z] by (simp add: n_def)
  have A: "length (heap s1) = HEAP_SIZE" "heap_len s1 = int (length leaves)" "distinct leaves" "length tree = 2 * n + 1"
    "\<forall>l \<in> set leaves. l < n \<and> int l \<le> mc" "0 \<le> mc" "nat mc \<in> set leaves" "\<forall>i < n. Freq (dyn_tree t s ! i) \<noteq> 0 \<longrightarrow> i \<in> set leaves"
    "\<forall>i < n. i \<notin> set leaves \<longrightarrow> Len (tree ! i) = 0"
    using L len by (auto simp: leaves_ok_def split: if_splits)
  have "length leaves = card (set leaves)" "set leaves \<subseteq> {..<n}" using A(3,5) by (auto simp: distinct_card)
  then have ln: "length leaves \<le> n" by (metis card_lessThan card_mono finite_lessThan)
  define s2 where "s2 = set_max_code t mc s1"
  define s3 where "s3 = foldl (\<lambda>s n. pqdownheap s tree n) s2 (rev [1..<nat (heap_len s2) div 2 + 1])"
  have mv: "heap_moved s2 s3"
    unfolding s3_def by (rule heapify_moved [of s2 "length leaves"]) (use A ln num in \<open>auto simp: s2_def\<close>)
  have "heap_nodes s2 = heap_nodes s1" by (simp add: heap_nodes_def s2_def)
  then have "leaves_ok s2 tree mc leaves (dyn_tree t s) n" using L(1) by (simp add: leaves_ok_def s2_def)
  from start_forest [OF this mv L(2)] have F3: "forest s3 tree leaves n n" using num ln len by simp
  have "heap_len s3 = int (length leaves)" using heap_movedD [OF mv] A(2) by (simp add: s2_def)
  then obtain s4 tree4 where l: "build_loop s3 tree n = (s4, tree4)" and F4: "forest s4 tree4 leaves n (n + length leaves - 1)" "heap_len s4 = 1"
    and t4: "\<forall>x < n. x \<notin> set leaves \<longrightarrow> tree4 ! x = tree ! x" "length tree4 = length tree"
    using build_loop_forest [OF F3] L(2) by auto
  obtain S: "heap_nodes s4 = [heap s4 ! 1]" "shape tree4 leaves n (n + length leaves - 1) (heap s4 ! 1) (done_nodes s4)"
    by (rule forest_shape [OF F4 L(2)])
  define hm where "hm = HEAP_SIZE - 2 * (length leaves - 1) - 1"
  have H: "length (heap s4) = HEAP_SIZE" "heap_max s4 = int (Suc hm)" "Suc hm \<le> HEAP_SIZE" "1 < hm"
    using F4(1) L(2) ln num(2) by (auto simp: forest_def hm_def of_nat_diff code_numbers)
  have hm: "nat (heap_max s4) = Suc hm" using H(2) by (simp only: nat_int)
  define s5 where "s5 = s4\<lparr>heap_max := heap_max s4 - 1, heap := (heap s4)[hm := heap s4 ! SMALLEST]\<rparr>"
  have xs: "drop (Suc hm) (heap s5) = done_nodes s4" "heap s5 ! hm = heap s4 ! 1" "length (heap s5) = HEAP_SIZE" "heap_max s5 = int hm"
    using H hm by (simp_all add: s5_def done_nodes_def SMALLEST_def)
  obtain s6 T where g: "gen_bitlen t mc s5 tree4 = (s6, T)" and D: "lens_done (bl_count s6) T leaves (tree_limit t)" "length T = length tree4"
    "\<forall>n' < n. n' \<notin> set leaves \<longrightarrow> T ! n' = tree4 ! n'" "frame s6 = frame s5"
  proof (rule gen_bitlen_ok [OF S(2), of s5 hm t "tree_limit t" mc])
    show "length leaves \<le> 2 ^ tree_limit t" "length leaves < 2 ^ 15" using ln num(5,6) by linarith+
    show "mc < int n" using A(5,6,7) by auto
  qed (use xs H(3) num(3,4) A(3,5) in \<open>auto simp: tree_limit_def\<close>)
  have zero: "Len (T ! k) = 0" if "k < n" "k \<notin> set leaves" for k using D(3) t4(1) A(9) that by simp
  have mc: "nat mc < length T" "int k \<le> mc \<Longrightarrow> k < n" for k using A(4-7) D(2) t4(2) by (auto dest!: bspec)
  note C = lens_done_coded [OF D(1) num(4) A(6) mc(1)]
  have C': "kraft (lens_of T mc)" "counts_lens (bl_count s6) (lens_of T mc)" "sum_list (map weight (lens_of T mc)) = 2 ^ MAX_LEN"
    "\<forall>l \<in> set (lens_of T mc). l \<le> tree_limit t"
    using C A(5) zero mc(2) by blast+
  define T' where "T' = gen_codes T mc (bl_count s6)"
  have m1: "0 \<le> mc + 1" "nat (mc + 1) \<le> length T" using A(6) mc(1) by simp_all
  note G = gen_codes_ok [OF m1 C'(1,2), folded T'_def]
  have lens: "lens_of T' mc = lens_of T mc"
    using G(2,3) m1(2) by (intro nth_equalityI) (auto simp: lens_of_def)
  have b: "build_tree s t = set_tree t T' s6"
  proof -
    have s4: "build_loop s3 tree n = (s4, tree4)" by (rule l)
    let ?s = "s4\<lparr>heap_max := heap_max s4 - 1\<rparr>"
    have s5: "?s\<lparr>heap := (heap ?s)[nat (heap_max ?s) := heap ?s ! SMALLEST]\<rparr> = s5"
      using H(2) by (simp add: s5_def)
    have g': "gen_bitlen t mc s5 tree4 = (s6, T)" by (rule g)
    show ?thesis
      unfolding build_tree_def Let_def case_prod_beta tree_elems_def [symmetric] n_def [symmetric] f fst_conv snd_conv
        s2_def [symmetric] s3_def [symmetric] s4 fst_conv snd_conv s5 g' T'_def ..
  qed
  have nz: "Len (T' ! k) \<noteq> 0" if "k \<in> set leaves" for k
  proof -
    have "1 \<le> len_of T k" "k < length T" using D(1,2) that A(4,5) t4(2) by (auto simp: lens_done_def)
    then show ?thesis using G(3) by (auto simp: len_of_def)
  qed
  have "tree_built (dyn_tree t s) t T' mc"
    unfolding tree_built_def lens n_def [symmetric]
  proof (intro conjI allI impI)
    show "length T' = length (dyn_tree t s)" using G(2) D(2) t4(2) A(4) len by simp
    show "mc < int n" using mc(2) [of "nat mc"] A(6) by simp
    fix k assume k: "k < n" "mc < int k"
    then have "k \<notin> set leaves" using A(5) by auto
    then show "Len (T' ! k) = 0" using G(3) zero k(1) D(2) t4(2) A(4) by simp
  next
    fix k assume "k < n" "Freq (dyn_tree t s ! k) \<noteq> 0"
    then show "Len (T' ! k) \<noteq> 0" using A(8) nz by blast
  qed (use A(6,7) nz G(1) C' in blast)+
  moreover have "frame (set_tree t T' s6) = set_tree t T' (set_max_code t mc (frame s))"
    using D(4) fr1 frame_build_loop [of s3 tree n] frame_heapify [of tree s2 "rev [1..<nat (heap_len s2) div 2 + 1]"]
    unfolding l frame_set by (simp add: s5_def s3_def s2_def frame_set)
  moreover have "length (bl_count s6) = MAX_BITS + 1" using D(1) by (simp add: lens_done_def)
  ultimately show thesis
    using that unfolding b by (cases t; simp)
qed

text \<open>The highest symbol with a code.\<close>

fun max_code_of :: "tree_id \<Rightarrow> deflate_state \<Rightarrow> int" where
  "max_code_of L_TREE s = l_max_code s"
| "max_code_of D_TREE s = d_max_code s"
| "max_code_of BL_TREE s = bl_max_code s"

lemma frame_built:
  assumes z: "sizes_ok s" and r: "frame r = set_tree t T (set_max_code t mc (frame s))" "length (bl_count r) = MAX_BITS + 1"
    and T: "length T = length (dyn_tree t s)"
  shows "dyn_tree t r = T" "max_code_of t r = mc" "t' \<noteq> t \<Longrightarrow> dyn_tree t' r = dyn_tree t' s"
    "t' \<noteq> t \<Longrightarrow> max_code_of t' r = max_code_of t' s" "sizes_ok r" "pending r = pending s" "bi_buf r = bi_buf s" "bi_valid r = bi_valid s"
    "l_buf r = l_buf s" "d_buf r = d_buf s" "last_lit r = last_lit s" "lit_bufsize r = lit_bufsize s" "level r = level s"
    "strategy r = strategy s" "data_type r = data_type s"
proof -
  have F: "f r = f (set_tree t T (set_max_code t mc (frame s)))" if "\<And>q. f (frame q) = f q" for f :: "deflate_state \<Rightarrow> 'a"
    using that [of r] r(1) by simp
  have d: "dyn_tree x (frame q) = dyn_tree x q" "max_code_of x (frame q) = max_code_of x q" for x q
    by (cases x; simp add: frame_def)+
  note F1 = F [of "dyn_tree t", OF d(1)] F [of "max_code_of t", OF d(2)] F [of "dyn_tree t'", OF d(1)] F [of "max_code_of t'", OF d(2)]
  show "dyn_tree t r = T" "max_code_of t r = mc" "t' \<noteq> t \<Longrightarrow> dyn_tree t' r = dyn_tree t' s" "t' \<noteq> t \<Longrightarrow> max_code_of t' r = max_code_of t' s"
    unfolding F1 by (cases t; cases t'; simp add: frame_def)+
  have fr: "pending (frame q) = pending q" "bi_buf (frame q) = bi_buf q" "bi_valid (frame q) = bi_valid q" "l_buf (frame q) = l_buf q"
    "d_buf (frame q) = d_buf q" "last_lit (frame q) = last_lit q" "lit_bufsize (frame q) = lit_bufsize q" "level (frame q) = level q"
    "strategy (frame q) = strategy q" "data_type (frame q) = data_type q" "dyn_ltree (frame q) = dyn_ltree q" "dyn_dtree (frame q) = dyn_dtree q"
    "bl_tree (frame q) = bl_tree q" "length (heap (frame q)) = length (heap q)" "length (depth (frame q)) = length (depth q)" for q
    by (simp_all add: frame_def)
  note E = F [of pending, OF fr(1)] F [of bi_buf, OF fr(2)] F [of bi_valid, OF fr(3)] F [of l_buf, OF fr(4)] F [of d_buf, OF fr(5)]
    F [of last_lit, OF fr(6)] F [of lit_bufsize, OF fr(7)] F [of level, OF fr(8)] F [of strategy, OF fr(9)] F [of data_type, OF fr(10)]
    F [of dyn_ltree, OF fr(11)] F [of dyn_dtree, OF fr(12)] F [of bl_tree, OF fr(13)] F [of "\<lambda>q. length (heap q)", OF fr(14)]
    F [of "\<lambda>q. length (depth q)", OF fr(15)]
  show "pending r = pending s" "bi_buf r = bi_buf s" "bi_valid r = bi_valid s" "l_buf r = l_buf s" "d_buf r = d_buf s" "last_lit r = last_lit s"
    "lit_bufsize r = lit_bufsize s" "level r = level s" "strategy r = strategy s" "data_type r = data_type s"
    unfolding E by (cases t; simp add: fr)+
  show "sizes_ok r"
    unfolding sizes_ok_def E r(2) using z T by (cases t; simp add: fr sizes_ok_def)
qed

section \<open>Properties\<close>

text \<open>
  C3: \<open>build_tree\<close> on any frequencies, for each of the three trees. The loops end; every symbol that occurs
  gets a code, no code length exceeds the limit of the tree (15, or 7 for the bit length tree) even
  where the unrestricted tree is deeper, the Kraft sum of the lengths is exactly 1, so that no bit pattern is
  unused, the codes are the canonical codes of the lengths, \<open>max_code\<close> is the highest symbol with a
  code, and beside that tree only the scratch fields of the state change.
\<close>
theorem build_tree_correct:
  assumes "sizes_ok s"
  shows "let r = build_tree s t; tree = dyn_tree t r; max_code = max_code_of t r; lens = lens_of tree max_code in
    0 \<le> max_code \<and> max_code < elems (stat_desc t) \<and> Len (tree ! nat max_code) \<noteq> 0 \<and>
    (\<forall>n < nat (elems (stat_desc t)). Freq (dyn_tree t s ! n) \<noteq> 0 \<longrightarrow> int n \<le> max_code \<and> Len (tree ! n) \<noteq> 0) \<and>
    (\<forall>l \<in> set lens. int l \<le> max_length (stat_desc t)) \<and> sum_list (map weight lens) = 2 ^ MAX_LEN \<and>
    coded tree lens \<and> sizes_ok r \<and> frame r = set_tree t tree (set_max_code t max_code (frame s))"
proof -
  obtain T mc where b: "tree_built (dyn_tree t s) t T mc" "dyn_tree t (build_tree s t) = T"
    "frame (build_tree s t) = set_tree t T (set_max_code t mc (frame s))" "length (bl_count (build_tree s t)) = MAX_BITS + 1"
    by (rule build_tree_ok [OF assms])
  have "length T = length (dyn_tree t s)" using b(1) by (simp add: tree_built_def)
  note F = frame_built [OF assms b(3,4) this]
  have e: "int (tree_elems t) = elems (stat_desc t)" "int (tree_limit t) = max_length (stat_desc t)"
    by (cases t; simp add: tree_elems_def tree_limit_def static_l_desc_def static_d_desc_def static_bl_desc_def MAX_BL_BITS_def)+
  have t: "length T = length (dyn_tree t s)" "0 \<le> mc" "mc < int (tree_elems t)" "coded T (lens_of T mc)" "Len (T ! nat mc) \<noteq> 0"
    "\<forall>n < tree_elems t. mc < int n \<longrightarrow> Len (T ! n) = 0" "\<forall>n < tree_elems t. Freq (dyn_tree t s ! n) \<noteq> 0 \<longrightarrow> Len (T ! n) \<noteq> 0"
    "\<forall>l \<in> set (lens_of T mc). l \<le> tree_limit t" "sum_list (map weight (lens_of T mc)) = 2 ^ MAX_LEN"
    using b(1) unfolding tree_built_def by blast+
  have "\<forall>l \<in> set (lens_of T mc). int l \<le> max_length (stat_desc t)" using t(8) by (simp add: e(2) [symmetric])
  moreover have "\<forall>n < nat (elems (stat_desc t)). Freq (dyn_tree t s ! n) \<noteq> 0 \<longrightarrow> int n \<le> mc \<and> Len (T ! n) \<noteq> 0"
    using t(6,7) unfolding tree_elems_def [symmetric] by (meson not_le)
  ultimately show ?thesis
    unfolding Let_def F(1,2) using t b(3) F(5) by (simp add: e(1))
qed

lemma build_tree_correct_witness:
  "sum_list (map weight (lens_of (dyn_tree D_TREE (build_tree sample_state D_TREE)) (max_code_of D_TREE (build_tree sample_state D_TREE)))) = 2 ^ MAX_LEN"
  using build_tree_correct [OF sample_state_sizes, of D_TREE] unfolding Let_def by blast

end
