(* ===== verification/Tr_Flush.thy ===== *)
theory Tr_Flush
  imports Tr_Blocks Tr_Tree
begin

text \<open>
  \<open>build_bl_tree\<close> and \<open>_tr_flush_block\<close> of \<open>zlib_archive/trees.c\<close>: the trees of a block are built, the
  cheapest of the three kinds of block is chosen, and the block is sent. Whatever is chosen, the
  reference decoder reads the block back, provided that the output does not reach tokens that are still to be sent
  (\<open>flush_overlay_ok\<close>; a bound on the number of matches suffices). \<open>flush_pending\<close> of \<open>zlib_archive/deflate.c\<close>
  and its repetition by \<open>deflate\<close> join the blocks to a stream.
\<close>

section \<open>The code\<close>

definition Z_FIXED :: int where "Z_FIXED = 4"

text \<open>The search for the last bit length code to send.\<close>

fun bl_index :: "ct_data list \<Rightarrow> nat \<Rightarrow> nat" where
  "bl_index t max_blindex =
     (if max_blindex \<ge> 3 then
        if Len (t ! unat (bl_order ! max_blindex)) \<noteq> 0 then max_blindex else bl_index t (max_blindex - 1)
      else max_blindex)"

declare bl_index.simps [simp del]

definition build_bl_tree :: "deflate_state \<Rightarrow> deflate_state \<times> nat" where
  "build_bl_tree s =
     (let s = scan_tree s L_TREE (l_max_code s);
          s = scan_tree s D_TREE (d_max_code s);
          s = build_tree s BL_TREE;
          max_blindex = bl_index (bl_tree s) (BL_CODES - 1);
          s = s\<lparr>opt_len := opt_len s + (3 * (of_nat max_blindex + 1) + 5 + 5 + 4)\<rparr>
      in (s, max_blindex))"

text \<open>
  The first part of \<open>_tr_flush_block\<close>: the state with the trees, \<open>max_blindex\<close>, \<open>opt_lenb\<close> and
  \<open>static_lenb\<close>. The field \<open>data_type\<close> of the stream is kept in the state.
\<close>

definition flush_prepare :: "deflate_state \<Rightarrow> u64 \<Rightarrow> deflate_state \<times> nat \<times> u64 \<times> u64" where
  "flush_prepare s stored_len =
     (if level s > 0 then
        let s = (if data_type s = Z_UNKNOWN then s\<lparr>data_type := detect_data_type s\<rparr> else s);
            s = build_tree s L_TREE;
            s = build_tree s D_TREE;
            (s, max_blindex) = build_bl_tree s;
            opt_lenb = drop_bit 3 (opt_len s + 3 + 7);
            static_lenb = drop_bit 3 (static_len s + 3 + 7)
        in (s, max_blindex, if static_lenb \<le> opt_lenb then static_lenb else opt_lenb, static_lenb)
      else (s, 0, stored_len + 5, stored_len + 5))"

text \<open>\<open>buf\<close> is None for the null pointer.\<close>

definition tr_flush_block :: "deflate_state \<Rightarrow> u8 list option \<Rightarrow> u64 \<Rightarrow> int \<Rightarrow> deflate_state" where
  "tr_flush_block s buf stored_len last_block =
     (let (s, max_blindex, opt_lenb, static_lenb) = flush_prepare s stored_len;
          s = (if stored_len + 4 \<le> opt_lenb \<and> buf \<noteq> None
               then tr_stored_block s (the buf) stored_len last_block
               else if strategy s = Z_FIXED \<or> static_lenb = opt_lenb
               then
                 let s = send_bits s (of_int (STATIC_TREES * 2 + last_block)) 3
                 in compress_block s static_ltree static_dtree
               else
                 let s = send_bits s (of_int (DYN_TREES * 2 + last_block)) 3;
                     s = send_all_trees s (l_max_code s + 1) (d_max_code s + 1) (int max_blindex + 1)
                 in compress_block s (dyn_ltree s) (dyn_dtree s));
          s = init_block s
      in if last_block \<noteq> 0 then bi_windup s else s)"

text \<open>
  What the code needs of the memory it overlays: a stored block has room in \<open>pending_buf\<close>, and
  \<open>compress_block\<close> passes its assertion after every token, with the trees that are chosen.
\<close>

definition flush_overlay_ok :: "deflate_state \<Rightarrow> u8 list option \<Rightarrow> u64 \<Rightarrow> int \<Rightarrow> bool" where
  "flush_overlay_ok s buf stored_len last_block =
     (let (s, max_blindex, opt_lenb, static_lenb) = flush_prepare s stored_len
      in if stored_len + 4 \<le> opt_lenb \<and> buf \<noteq> None
         then length (pending s) + 8 + unat stored_len \<le> 4 * unat (lit_bufsize s)
         else if strategy s = Z_FIXED \<or> static_lenb = opt_lenb
         then overlay_ok (send_bits s (of_int (STATIC_TREES * 2 + last_block)) 3) static_ltree static_dtree
         else
           let s = send_bits s (of_int (DYN_TREES * 2 + last_block)) 3;
               s = send_all_trees s (l_max_code s + 1) (d_max_code s + 1) (int max_blindex + 1)
           in overlay_ok s (dyn_ltree s) (dyn_dtree s))"

section \<open>The code of the bit lengths\<close>

text \<open>Symbols without a code at the end do not change the code.\<close>

lemma first_code_zeros: "first_code (lens @ replicate k 0) l = first_code lens l"
proof (induction l)
  case (Suc l)
  have "count_len (replicate k 0) l = 0" if "l \<noteq> 0" using that by simp
  then show ?case using Suc by simp
qed simp

lemma kraft_zeros: "kraft (lens @ replicate k 0) = kraft lens"
  by (auto simp: kraft_def sum_list_replicate weight_def)

lemma canonical_word_zeros: "n < length lens \<Longrightarrow> canonical_word (lens @ replicate k 0) n = canonical_word lens n"
  by (simp add: canonical_word_def kraft_zeros canonical_def first_code_zeros nth_append)

lemma coded_zeros:
  assumes c: "coded T lens" and z: "\<And>n. length lens \<le> n \<Longrightarrow> n < length lens + k \<Longrightarrow> Len (T ! n) = 0" and l: "length lens + k \<le> length T"
  shows "coded T (lens @ replicate k 0)"
  using c l z unfolding coded_def kraft_zeros
  by (auto simp: canonical_word_zeros nth_append)

lemma bl_index_ok:
  assumes "\<exists>j. 3 \<le> j \<and> j \<le> k \<and> Len (t ! unat (bl_order ! j)) \<noteq> 0"
  shows "3 \<le> bl_index t k \<and> bl_index t k \<le> k \<and> (\<forall>j. bl_index t k < j \<and> j \<le> k \<longrightarrow> Len (t ! unat (bl_order ! j)) = 0)"
  using assms
proof (induction t k rule: bl_index.induct)
  case (1 t k)
  then obtain j where j: "3 \<le> j" "j \<le> k" "Len (t ! unat (bl_order ! j)) \<noteq> 0" by blast
  show ?case
  proof (cases "Len (t ! unat (bl_order ! k)) \<noteq> 0")
    case True
    then have "bl_index t k = k" using j by (simp add: bl_index.simps [of t k])
    then show ?thesis using j by auto
  next
    case False
    then have "j \<le> k - 1" using j by (cases "j = k") auto
    then have IH: "3 \<le> bl_index t (k - 1) \<and> bl_index t (k - 1) \<le> k - 1 \<and>
        (\<forall>j. bl_index t (k - 1) < j \<and> j \<le> k - 1 \<longrightarrow> Len (t ! unat (bl_order ! j)) = 0)"
      using "1.IH" False j by (meson order_trans)
    have "bl_index t k = bl_index t (k - 1)" using False j by (simp add: bl_index.simps [of t k])
    moreover have "j' \<le> k - 1 \<or> j' = k" if "j' \<le> k" for j' using that by linarith
    ultimately show ?thesis using IH False by (metis diff_le_self order_trans)
  qed
qed

text \<open>Some item is a length and not a repetition, unless all lengths are 0.\<close>

lemma repetitions_zero:
  "items_ok acc items \<Longrightarrow> \<forall>i \<in> set items. 16 \<le> fst i \<Longrightarrow> \<forall>x \<in> set acc. x = 0 \<Longrightarrow> \<forall>x \<in> set (expand acc items). x = 0"
proof (induction items arbitrary: acc)
  case (Cons i items)
  obtain c v k where i: "i = (c, v, k)" by (cases i)
  have "\<forall>x \<in> set (expand_item acc i). x = 0"
    using Cons.prems by (auto simp: i split: if_splits)
  then have "\<forall>x \<in> set (expand (expand_item acc i) items). x = 0"
    using Cons.prems by (intro Cons.IH) simp_all
  then show ?case by simp
qed simp

lemma bl_order_position:
  assumes "c < 16"
  obtains j where "3 \<le> j" "j < 19" "rfc_order ! j = c"
proof -
  have "c \<in> set rfc_order" using assms bl_order_rfc(4) by auto
  then obtain j where j: "j < 19" "rfc_order ! j = c" using bl_order_rfc(2) by (auto simp: in_set_conv_nth)
  have "\<not> j < 3"
  proof
    assume "j < 3"
    then consider "j = 0" | "j = 1" | "j = 2" by linarith
    then show False using j(2) assms by cases (auto simp: rfc_order_def)
  qed
  then show thesis using that [of j] j by simp
qed

section \<open>The trees of a block\<close>

lemma built_lens:
  assumes "tree_built t0 t T mc" "length t0 = 2 * tree_elems t + 1"
  shows "length (lens_of T mc) = nat (mc + 1)" "n < nat (mc + 1) \<Longrightarrow> lens_of T mc ! n = unat (Len (T ! n))"
    "nat (mc + 1) < length T" "nat mc < nat (mc + 1)"
  using assms by (auto simp: tree_built_def lens_of_def)

lemma built_has_codes:
  assumes b: "tree_built t0 t T mc" "length t0 = 2 * tree_elems t + 1" and f: "freqs t0 (tree_elems t) syms"
    and s: "\<forall>c \<in> set syms. c < tree_elems t"
  shows "has_codes (lens_of T mc) syms"
  unfolding has_codes_def
proof
  fix c assume c: "c \<in> set syms"
  then have "unat (Freq (t0 ! c)) = count_list syms c" "c < tree_elems t" using f s by (auto simp: freqs_def)
  moreover have "count_list syms c \<noteq> 0" using c by (simp add: count_list_0_iff)
  ultimately have n: "Len (T ! c) \<noteq> 0" "c < tree_elems t" using b(1) by (auto simp: tree_built_def)
  then have "\<not> mc < int c" using b(1) by (auto simp: tree_built_def)
  then have "c < nat (mc + 1)" by simp
  then show "c < length (lens_of T mc) \<and> lens_of T mc ! c \<noteq> 0" using built_lens [OF b] n(1) by (simp add: unat_eq_0)
qed

lemma coded_guarded:
  assumes "coded T (lens_of T mc)" "nat (mc + 1) < length T"
  shows "coded (guarded T mc) (lens_of T mc)"
proof -
  have l: "length (lens_of T mc) = nat (mc + 1)" using assms(2) by (simp add: lens_of_def)
  then have "guarded T mc ! n = T ! n" if "n < length (lens_of T mc)" for n using that by (simp add: guarded_def)
  then show ?thesis using assms(1) l by (simp add: coded_def tree_word_def) (simp add: guarded_def)
qed

text \<open>The bit length tree codes every item, and at least four of its lengths are sent.\<close>

lemma bl_tree_header:
  assumes b: "tree_built t0 BL_TREE T mc" "length t0 = 2 * tree_elems BL_TREE + 1" and f: "freqs t0 BL_CODES (map fst items)"
    and i: "items_ok [] items" and nz: "\<exists>x \<in> set (expand [] items). x \<noteq> 0"
  defines "bl \<equiv> lens_of T 18" and "k \<equiv> bl_index T (BL_CODES - 1)"
  shows "coded T bl" "length bl = 19" "\<forall>l \<in> set bl. l < 8" "3 \<le> k" "k < 19" "\<forall>r. k < r \<and> r < 19 \<longrightarrow> bl ! (rfc_order ! r) = 0"
    "has_codes bl (map fst items)"
proof -
  have e: "tree_elems BL_TREE = 19" "tree_limit BL_TREE = 7"
    by (simp_all add: tree_elems_def tree_limit_def static_bl_desc_def BL_CODES_def MAX_BL_BITS_def)
  note L = built_lens [OF b]
  have T: "length T = 39" "0 \<le> mc" "mc < 19" "coded T (lens_of T mc)" "\<forall>l \<in> set (lens_of T mc). l \<le> 7"
    using b e by (simp_all add: tree_built_def)
  have z: "Len (T ! n) = 0" if "nat (mc + 1) \<le> n" "n < 19" for n
    using b(1) e(1) that T(2) by (auto simp: tree_built_def)
  have len: "length bl = 19" by (simp add: bl_def lens_of_def T(1))
  have nth: "bl ! n = unat (Len (T ! n))" if "n < 19" for n using that T(1) by (simp add: bl_def lens_of_def)
  have bl: "bl = lens_of T mc @ replicate (18 - nat mc) 0"
  proof (rule nth_equalityI)
    show "length bl = length (lens_of T mc @ replicate (18 - nat mc) 0)" using len L(1) T(2,3) by simp
    fix n assume "n < length bl"
    then have n: "n < 19" using len by simp
    show "bl ! n = (lens_of T mc @ replicate (18 - nat mc) 0) ! n"
    proof (cases "n < nat (mc + 1)")
      case True
      then show ?thesis using nth [OF n] L(1,2) by (simp add: nth_append)
    next
      case False
      then show ?thesis using nth [OF n] z [of n] n L(1) T(2) by (simp add: nth_append)
    qed
  qed
  show "coded T bl"
    unfolding bl using T z L(1) by (intro coded_zeros) auto
  show "length bl = 19" by (rule len)
  show "\<forall>l \<in> set bl. l < 8" using T(5) by (auto simp: bl)
  have syms: "\<forall>c \<in> set (map fst items). c < tree_elems BL_TREE" using items_ok_syms [OF i] by (auto simp: e)
  have h: "has_codes (lens_of T mc) (map fst items)"
    using f syms by (intro built_has_codes [OF b]) (simp_all add: e BL_CODES_def)
  then show hc: "has_codes bl (map fst items)" by (auto simp: has_codes_def bl nth_append)
  obtain c where c: "c \<in> set (map fst items)" "c < 16"
    using repetitions_zero [OF i] nz by (fastforce simp: not_le)
  obtain j where j: "3 \<le> j" "j < 19" "rfc_order ! j = c" using bl_order_position [OF c(2)] .
  have "bl ! c \<noteq> 0" using hc c(1) by (auto simp: has_codes_def)
  then have "Len (T ! unat (bl_order ! j)) \<noteq> 0" using nth [of c] c(2) j bl_order_nth [of j] by auto
  then have "\<exists>j. 3 \<le> j \<and> j \<le> BL_CODES - 1 \<and> Len (T ! unat (bl_order ! j)) \<noteq> 0"
    using j by (intro exI [of _ j]) (simp add: BL_CODES_def)
  from bl_index_ok [OF this] have k: "3 \<le> k" "k \<le> 18" "\<forall>j. k < j \<and> j \<le> 18 \<longrightarrow> Len (T ! unat (bl_order ! j)) = 0"
    unfolding k_def by (simp_all add: BL_CODES_def)
  then show "3 \<le> k" "k < 19" by simp_all
  show "\<forall>r. k < r \<and> r < 19 \<longrightarrow> bl ! (rfc_order ! r) = 0"
  proof (intro allI impI)
    fix r assume r: "k < r \<and> r < 19"
    have "rfc_order ! r \<in> set rfc_order" using r bl_order_rfc(2) by simp
    then have "rfc_order ! r < 19" using bl_order_rfc(4) by auto
    moreover have "r \<le> 18" using r by simp
    then have "Len (T ! unat (bl_order ! r)) = 0" using k(3) r by blast
    ultimately show "bl ! (rfc_order ! r) = 0" using nth r bl_order_nth [of r] by simp
  qed
qed

text \<open>What \<open>flush_prepare\<close> leaves untouched.\<close>

definition same_block :: "deflate_state \<Rightarrow> deflate_state \<Rightarrow> bool" where
  "same_block s r \<longleftrightarrow> pending r = pending s \<and> bi_buf r = bi_buf s \<and> bi_valid r = bi_valid s \<and> l_buf r = l_buf s \<and> d_buf r = d_buf s \<and>
     last_lit r = last_lit s \<and> lit_bufsize r = lit_bufsize s \<and> level r = level s \<and> strategy r = strategy s"

lemma same_block_trans: "same_block s r \<Longrightarrow> same_block r q \<Longrightarrow> same_block s q"
  by (simp add: same_block_def)

text \<open>The three trees of a block are built; \<open>s\<close> is the state before.\<close>

definition trees_ready :: "deflate_state \<Rightarrow> token list \<Rightarrow> deflate_state \<Rightarrow> nat \<Rightarrow> bool" where
  "trees_ready s toks r max_blindex \<longleftrightarrow> sizes_ok r \<and> same_block s r \<and>
     (\<exists>llens dlens bl. coded (dyn_ltree r) llens \<and> coded (dyn_dtree r) dlens \<and>
        int (length llens) = l_max_code r + 1 \<and> int (length dlens) = d_max_code r + 1 \<and>
        header_ok r llens dlens bl (max_blindex + 1) \<and> has_codes llens (lit_syms toks) \<and> has_codes dlens (concat (map dist_syms toks)))"

lemma build_step_facts:
  assumes z: "sizes_ok s" and r: "r = build_tree s t"
  obtains T mc where "tree_built (dyn_tree t s) t T mc" "dyn_tree t r = T" "max_code_of t r = mc" "sizes_ok r" "same_block s r"
    "\<forall>t'. t' \<noteq> t \<longrightarrow> dyn_tree t' r = dyn_tree t' s \<and> max_code_of t' r = max_code_of t' s" "data_type r = data_type s"
proof -
  obtain T mc where b: "tree_built (dyn_tree t s) t T mc" "frame r = set_tree t T (set_max_code t mc (frame s))" "length (bl_count r) = MAX_BITS + 1"
    by (rule build_tree_ok [OF z, of t]) (simp add: r)
  have "length T = length (dyn_tree t s)" using b(1) by (simp add: tree_built_def)
  note F = frame_built [OF z b(2,3) this]
  show thesis
    by (rule that [OF b(1)]) (use F in \<open>simp_all add: same_block_def\<close>)
qed

lemma flush_prepare_ready:
  assumes t: "tallied s toks" and l: "level s > 0"
  obtains r mbi ob sb where "flush_prepare s n = (r, mbi, ob, sb)" "trees_ready s toks r mbi"
proof -
  define s0 where "s0 = (if data_type s = Z_UNKNOWN then s\<lparr>data_type := detect_data_type s\<rparr> else s)"
  have s0: "sizes_ok s0" "same_block s s0" "dyn_tree t s0 = dyn_tree t s" for t
    using t by (cases t; auto simp: s0_def tallied_def sizes_ok_def same_block_def)+
  define s1 where "s1 = build_tree s0 L_TREE"
  obtain T1 m1 where B1: "tree_built (dyn_tree L_TREE s0) L_TREE T1 m1" "dyn_tree L_TREE s1 = T1" "max_code_of L_TREE s1 = m1"
    "sizes_ok s1" "same_block s0 s1" "\<forall>t'. t' \<noteq> L_TREE \<longrightarrow> dyn_tree t' s1 = dyn_tree t' s0 \<and> max_code_of t' s1 = max_code_of t' s0" "data_type s1 = data_type s0"
    by (rule build_step_facts [OF s0(1) s1_def])
  define s2 where "s2 = build_tree s1 D_TREE"
  obtain T2 m2 where B2: "tree_built (dyn_tree D_TREE s1) D_TREE T2 m2" "dyn_tree D_TREE s2 = T2" "max_code_of D_TREE s2 = m2"
    "sizes_ok s2" "same_block s1 s2" "\<forall>t'. t' \<noteq> D_TREE \<longrightarrow> dyn_tree t' s2 = dyn_tree t' s1 \<and> max_code_of t' s2 = max_code_of t' s1" "data_type s2 = data_type s1"
    by (rule build_step_facts [OF B1(4) s2_def])
  have e: "tree_elems L_TREE = L_CODES" "tree_elems D_TREE = D_CODES" "tree_elems BL_TREE = BL_CODES"
    "tree_limit L_TREE = 15" "tree_limit D_TREE = 15"
    by (simp_all add: tree_elems_def tree_limit_def static_l_desc_def static_d_desc_def static_bl_desc_def MAX_BITS_def)
  have len: "length (dyn_tree t s0) = 2 * tree_elems t + 1" "length (dyn_tree t s1) = 2 * tree_elems t + 1"
    "length (dyn_tree t s2) = 2 * tree_elems t + 1" for t
    using dyn_tree_size s0(1) B1(4) B2(4) by simp_all
  note L1 = built_lens [OF B1(1) len(1)] and L2 = built_lens [OF B2(1) len(2)]
  have TL: "dyn_tree L_TREE s2 = T1" "max_code_of L_TREE s2 = m1" "dyn_tree BL_TREE s2 = bl_tree s"
    using B1(2,3) B1(6) [THEN spec, of BL_TREE] B2(6) [THEN spec, of L_TREE] B2(6) [THEN spec, of BL_TREE] s0(3) [of BL_TREE] by simp_all
  have m: "0 \<le> m1" "m1 < 286" "0 \<le> m2" "m2 < 30" "\<forall>l \<in> set (lens_of T1 m1). l \<le> 15" "\<forall>l \<in> set (lens_of T2 m2). l \<le> 15"
    using B1(1) B2(1) e by (auto simp: tree_built_def code_numbers)
  define li where "li = tree_items (guarded T1 m1) m1"
  define di where "di = tree_items (guarded T2 m2) m2"
  have li: "expand acc li = acc @ lens_of T1 m1" "items_ok acc li" for acc
    unfolding li_def by (rule tree_items_expand [OF m(1) L1(3) m(5)])+
  have di: "expand acc di = acc @ lens_of T2 m2" "items_ok acc di" for acc
    unfolding di_def by (rule tree_items_expand [OF m(3) L2(3) m(6)])+
  have lens: "length li \<le> 286" "length di \<le> 30"
    using tree_items_expand(3) [OF m(1) L1(3) m(5)] tree_items_expand(3) [OF m(3) L2(3) m(6)] m(2,4) by (simp_all add: li_def di_def)
  define s3 where "s3 = scan_tree s2 L_TREE m1"
  define s4 where "s4 = scan_tree s3 D_TREE m2"
  have e3: "s3 = s2\<lparr>dyn_ltree := guarded T1 m1, bl_tree := count_items li (bl_tree s)\<rparr>"
    using scan_tree_items [of L_TREE m1 s2] L1(3) m(1) TL by (simp add: s3_def li_def)
  have e4: "s4 = s3\<lparr>dyn_dtree := guarded T2 m2, bl_tree := count_items (li @ di) (bl_tree s)\<rparr>"
    using scan_tree_items [of D_TREE m2 s3] L2(3) m(3) B2(2) by (simp add: s4_def di_def e3)
  have z4: "sizes_ok s4" "same_block s2 s4"
    using B2(4) L1(3) L2(3) TL B2(2) t by (auto simp: e4 e3 sizes_ok_def same_block_def guarded_def tallied_def)
  define s5 where "s5 = build_tree s4 BL_TREE"
  obtain T3 m3 where B3: "tree_built (dyn_tree BL_TREE s4) BL_TREE T3 m3" "dyn_tree BL_TREE s5 = T3" "max_code_of BL_TREE s5 = m3"
    "sizes_ok s5" "same_block s4 s5" "\<forall>t'. t' \<noteq> BL_TREE \<longrightarrow> dyn_tree t' s5 = dyn_tree t' s4 \<and> max_code_of t' s5 = max_code_of t' s4" "data_type s5 = data_type s4"
    by (rule build_step_facts [OF z4(1) s5_def])
  have T5: "dyn_ltree s5 = guarded T1 m1" "dyn_dtree s5 = guarded T2 m2" "l_max_code s5 = m1" "d_max_code s5 = m2" "bl_tree s5 = T3"
    using B3(2) B3(6) [THEN spec, of L_TREE] B3(6) [THEN spec, of D_TREE] TL(2) B2(3) by (simp_all add: e4 e3)
  define k where "k = bl_index T3 (BL_CODES - 1)"
  define r where "r = s5\<lparr>opt_len := opt_len s5 + (3 * (of_nat k + 1) + 5 + 5 + 4)\<rparr>"
  have fp: "flush_prepare s n = (r, k, if drop_bit 3 (static_len r + 3 + 7) \<le> drop_bit 3 (opt_len r + 3 + 7)
      then drop_bit 3 (static_len r + 3 + 7) else drop_bit 3 (opt_len r + 3 + 7), drop_bit 3 (static_len r + 3 + 7))"
  proof -
    have "l_max_code s2 = m1" using TL(2) by simp
    moreover have "d_max_code s3 = m2" using B2(3) by (simp add: e3)
    ultimately have "build_bl_tree s2 = (r, k)"
      by (simp only: build_bl_tree_def Let_def s3_def [symmetric] s4_def [symmetric] s5_def [symmetric] T5(5) k_def [symmetric] r_def)
    then show ?thesis
      using l by (simp only: flush_prepare_def if_True Let_def s0_def [symmetric] s1_def [symmetric] s2_def [symmetric] prod.case)
  qed
  have f: "freqs (dyn_tree L_TREE s0) (tree_elems L_TREE) (lit_syms toks)"
    "freqs (dyn_tree D_TREE s1) (tree_elems D_TREE) (concat (map dist_syms toks))" "freqs (bl_tree s) BL_CODES []" "list_all valid_token toks"
    using t s0(3) [of L_TREE] s0(3) [of D_TREE] B1(6) [THEN spec, of D_TREE] by (simp_all add: tallied_def e)
  have rng: "\<forall>c \<in> set (lit_syms toks). c < L_CODES" "\<forall>c \<in> set (concat (map dist_syms toks)). c < D_CODES"
    using f(4) sym_range by (auto simp: lit_syms_def list_all_iff code_numbers)
  have h: "has_codes (lens_of T1 m1) (lit_syms toks)" "has_codes (lens_of T2 m2) (concat (map dist_syms toks))"
    by (rule built_has_codes [OF B1(1) len(1) f(1)], simp only: e, rule rng)
      (rule built_has_codes [OF B2(1) len(2) f(2)], simp only: e, rule rng)
  have bt: "dyn_tree BL_TREE s4 = count_items (li @ di) (bl_tree s)" by (simp add: e4)
  have "length (bl_tree s) = 39" using t by (simp add: tallied_def sizes_ok_def BL_CODES_def)
  moreover have ld: "items_ok [] (li @ di)" "expand [] (li @ di) = lens_of T1 m1 @ lens_of T2 m2"
    using li di by simp_all
  ultimately have fb: "freqs (dyn_tree BL_TREE s4) BL_CODES (map fst (li @ di))"
    unfolding bt using freqs_count_items [OF f(3), of "li @ di"] lens items_ok_syms [OF ld(1)] by (simp add: BL_CODES_def)
  have nz: "\<exists>x \<in> set (expand [] (li @ di)). x \<noteq> 0"
  proof -
    have "END_BLOCK \<in> set (lit_syms toks)" by (simp add: lit_syms_def)
    then have "END_BLOCK < length (lens_of T1 m1)" "lens_of T1 m1 ! END_BLOCK \<noteq> 0" using h(1) by (auto simp: has_codes_def)
    then show ?thesis unfolding ld(2) by (metis in_set_conv_nth UnCI set_append)
  qed
  have l4: "length (dyn_tree BL_TREE s4) = 2 * tree_elems BL_TREE + 1" by (rule dyn_tree_size [OF z4(1)])
  note H = bl_tree_header [OF B3(1) l4 fb ld(1) nz, folded k_def]
  have END: "256 \<le> m1"
    using h(1) L1(1) by (auto simp: has_codes_def lit_syms_def END_BLOCK_def)
  have "257 \<le> nat (m1 + 1)" "nat (m1 + 1) \<le> 286" "1 \<le> nat (m2 + 1)" "nat (m2 + 1) \<le> 30" using m END by linarith+
  then have "header_ok r (lens_of T1 m1) (lens_of T2 m2) (lens_of T3 18) (k + 1)"
    unfolding header_ok_def Let_def
    using H ld li di T5 L1 L2 m END by (simp add: r_def li_def [symmetric] di_def [symmetric]) (simp add: guarded_def)
  moreover have "coded (dyn_ltree r) (lens_of T1 m1)" "coded (dyn_dtree r) (lens_of T2 m2)"
    using B1(1) B2(1) L1(3) L2(3) by (simp_all add: r_def T5 coded_guarded tree_built_def)
  moreover have "int (length (lens_of T1 m1)) = l_max_code r + 1" "int (length (lens_of T2 m2)) = d_max_code r + 1"
    using L1(1) L2(1) m by (simp_all add: r_def T5)
  moreover have "sizes_ok r" "same_block s r"
    using B3(4) s0(2) B1(5) B2(5) z4(2) B3(5) by (simp_all add: r_def sizes_ok_def same_block_def)
  ultimately have "trees_ready s toks r k" unfolding trees_ready_def using h by blast
  then show thesis by (rule that [OF fp])
qed

section \<open>The block that is sent\<close>

lemma holds_tokens_same: "same_block s r \<Longrightarrow> holds_tokens s toks \<Longrightarrow> holds_tokens r toks"
  by (simp add: same_block_def holds_tokens_def recorded_def)

lemma same_block_sink: "same_block s r \<Longrightarrow> sink_ok r = sink_ok s \<and> sent r = sent s"
  by (simp add: same_block_def sink_ok_def sent_def)

lemma same_trees_sizes: "same_trees s r \<Longrightarrow> sizes_ok s \<Longrightarrow> sizes_ok r"
  by (simp add: same_trees_def sizes_ok_def overlay_kept_def)

lemma same_trees_tallied: "same_trees s r \<Longrightarrow> tallied s [] \<Longrightarrow> tallied r []"
  using same_trees_sizes [of s r] unfolding tallied_def by (simp add: same_trees_def)

text \<open>A static block and a dynamic block.\<close>

lemma compress_after:
  assumes lt: "coded lt llens" and dt: "coded dt dlens" and c: "has_codes llens (lit_syms toks)" "has_codes dlens (concat (map dist_syms toks))"
    and h: "holds_tokens s toks" "length toks < unat (lit_bufsize s)" and k: "sink_ok s" and e: "emits s r hb" and o: "overlay_ok r lt dt"
  shows "emits s (compress_block r lt dt) (hb @ tokens_bits lt dt toks)"
    and "length (sent (compress_block r lt dt)) \<le> 8 * (4 * unat (lit_bufsize s))"
proof -
  have t: "same_trees s r" "sink_ok r" "lit_bufsize r = lit_bufsize s" using e k by (simp_all add: emits_def same_trees_def)
  then have hr: "holds_tokens r toks"
    using same_trees_holds [OF t(1) h(1)] o by (simp add: overlay_ok_def d_start_def)
  show "emits s (compress_block r lt dt) (hb @ tokens_bits lt dt toks)"
    by (rule emits_trans [OF e compress_block_emits [OF lt dt hr o c]])
  show "length (sent (compress_block r lt dt)) \<le> 8 * (4 * unat (lit_bufsize s))"
    using compress_block_room(2) [OF lt dt hr t(2) o _ c] h(2) unfolding t(3) .
qed

lemma static_block_sent:
  assumes h: "holds_tokens s toks" "length toks < unat (lit_bufsize s)" and k: "sink_ok s" and b: "b = 0 \<or> b = 1"
  defines "s1 \<equiv> send_bits s (of_int (STATIC_TREES * 2 + b)) 3"
  assumes o: "overlay_ok s1 static_ltree static_dtree"
  shows "emits s (compress_block s1 static_ltree static_dtree)
      (bits_of (of_int (STATIC_TREES * 2 + b) :: u32) 3 @ tokens_bits static_ltree static_dtree toks)"
    and "length (sent (compress_block s1 static_ltree static_dtree)) \<le> 8 * (4 * unat (lit_bufsize s))"
proof -
  have "emits s s1 (bits_of (of_int (STATIC_TREES * 2 + b) :: u32) 3)"
    unfolding s1_def by (rule emits_kind) (use b in \<open>simp_all add: STATIC_TREES_def\<close>)
  moreover have "list_all valid_token toks" using h(1) by (simp add: holds_tokens_def)
  ultimately show "emits s (compress_block s1 static_ltree static_dtree)
      (bits_of (of_int (STATIC_TREES * 2 + b) :: u32) 3 @ tokens_bits static_ltree static_dtree toks)"
    "length (sent (compress_block s1 static_ltree static_dtree)) \<le> 8 * (4 * unat (lit_bufsize s))"
    by (blast intro: compress_after [OF static_ltree_coded static_dtree_coded has_codes_static h k _ o])+
qed

lemma header_same: "same_trees s r \<Longrightarrow> header_ok s llens dlens bl n \<Longrightarrow> header_ok r llens dlens bl n"
  by (simp add: header_ok_def same_trees_def)

lemma header_emits:
  assumes r: "header_ok s llens dlens bl n" and b: "b = 0 \<or> b = 1"
  shows "emits s (send_all_trees (send_bits s (of_int (DYN_TREES * 2 + b)) 3) (int (length llens)) (int (length dlens)) (int n))
    (bits_of (of_int (DYN_TREES * 2 + b) :: u32) 3 @ header_bits (send_bits s (of_int (DYN_TREES * 2 + b)) 3) llens dlens n)"
proof -
  have 1: "emits s (send_bits s (of_int (DYN_TREES * 2 + b)) 3) (bits_of (of_int (DYN_TREES * 2 + b) :: u32) 3)"
    by (rule emits_kind) (use b in \<open>simp_all add: DYN_TREES_def\<close>)
  then have "same_trees s (send_bits s (of_int (DYN_TREES * 2 + b)) 3)" by (simp add: emits_def)
  from send_all_trees_emits [OF header_same [OF this r]] show ?thesis by (rule emits_trans [OF 1])
qed

lemma dynamic_block_sent:
  assumes r: "coded (dyn_ltree s) llens" "coded (dyn_dtree s) dlens" "header_ok s llens dlens bl n"
      "has_codes llens (lit_syms toks)" "has_codes dlens (concat (map dist_syms toks))"
    and h: "holds_tokens s toks" "length toks < unat (lit_bufsize s)" and k: "sink_ok s" and b: "b = 0 \<or> b = 1"
  defines "s1 \<equiv> send_bits s (of_int (DYN_TREES * 2 + b)) 3"
  defines "s2 \<equiv> send_all_trees s1 (int (length llens)) (int (length dlens)) (int n)"
  assumes o: "overlay_ok s2 (dyn_ltree s2) (dyn_dtree s2)"
  obtains bs where "emits s (compress_block s2 (dyn_ltree s2) (dyn_dtree s2)) bs"
    "\<And>pos rest. decode_block pos (bs @ rest) = Some (b = 1, Codes toks, rest)"
    "length (sent (compress_block s2 (dyn_ltree s2) (dyn_dtree s2))) \<le> 8 * (4 * unat (lit_bufsize s))"
proof -
  let ?hb = "bits_of (of_int (DYN_TREES * 2 + b) :: u32) 3 @ header_bits s1 llens dlens n"
  have e: "emits s s2 ?hb" unfolding s1_def s2_def by (rule header_emits [OF r(3) b])
  then have d: "dyn_ltree s2 = dyn_ltree s" "dyn_dtree s2 = dyn_dtree s" by (simp_all add: emits_def same_trees_def)
  note C = compress_after [OF r(1,2,4,5) h k e o [unfolded d], folded d]
  let ?bs = "?hb @ tokens_bits (dyn_ltree s2) (dyn_dtree s2) toks"
  have "decode_block pos (?bs @ rest) = Some (b = 1, Codes toks, rest)" for pos rest
  proof -
    have h1: "header_ok s1 llens dlens bl n" unfolding s1_def by (rule header_same [OF same_trees_send_bits(1) r(3)])
    have "list_all valid_token toks" using h(1) by (simp add: holds_tokens_def)
    then have "decode_dynamic (header_bits s1 llens dlens n @ tokens_bits (dyn_ltree s2) (dyn_dtree s2) toks @ rest) = Some (toks, rest)"
      unfolding decode_header [OF h1] d by (rule decode_tokens_bits [OF r(1,2) _ r(4,5)])
    then show ?thesis
      using decode_kind [OF b, of DYN_TREES] b by (auto simp: DYN_TREES_def decode_block_def)
  qed
  then show thesis by (rule that [OF C(1) _ C(2)])
qed

text \<open>What a block is read back as: the stored bytes or the tokens.\<close>

definition block_of :: "u8 list option \<Rightarrow> u64 \<Rightarrow> token list \<Rightarrow> block \<Rightarrow> bool" where
  "block_of buf stored_len toks blk \<longleftrightarrow> blk = Codes toks \<or> (\<exists>b. buf = Some b \<and> blk = Stored (take (unat stored_len) b))"

definition buf_ok :: "u8 list option \<Rightarrow> u64 \<Rightarrow> bool" where
  "buf_ok buf stored_len \<longleftrightarrow> (case buf of None \<Rightarrow> True | Some b \<Rightarrow> unat stored_len < 2 ^ 16 \<and> unat stored_len \<le> length b)"

text \<open>The block is the choice of the code; \<open>q\<close> is the state before \<open>init_block\<close>.\<close>

definition block_sent :: "deflate_state \<Rightarrow> deflate_state \<Rightarrow> bool \<Rightarrow> u8 list option \<Rightarrow> u64 \<Rightarrow> token list \<Rightarrow> bool" where
  "block_sent s q final buf n toks \<longleftrightarrow> sizes_ok q \<and> sink_ok q \<and> lit_bufsize q = lit_bufsize s \<and> level q = level s \<and> strategy q = strategy s \<and>
     length (sent q) \<le> 8 * (4 * unat (lit_bufsize s)) \<and>
     (\<exists>bs blk. sent q = sent s @ bs \<and> block_of buf n toks blk \<and>
        (\<forall>rest. decode_block (length (sent s)) (bs @ rest) = Some (final, blk, rest)))"

lemma emits_block_sent:
  assumes p: "sizes_ok r" "same_block s r" and k: "sink_ok s" and e: "emits r q bs"
    and l: "length (sent q) \<le> 8 * (4 * unat (lit_bufsize r))"
    and d: "block_of buf n toks blk" "\<And>rest. decode_block (length (sent s)) (bs @ rest) = Some (final, blk, rest)"
  shows "block_sent s q final buf n toks"
proof -
  have "sink_ok q" "sent q = sent s @ bs" "same_trees r q" using e same_block_sink [OF p(2)] k by (auto simp: emits_def)
  moreover have "lit_bufsize q = lit_bufsize s" "level q = level s" "strategy q = strategy s"
    using \<open>same_trees r q\<close> p(2) by (simp_all add: same_trees_def same_block_def)
  ultimately show ?thesis
    unfolding block_sent_def using same_trees_sizes [OF _ p(1)] d l p(2) by (auto simp: same_block_def)
qed

lemma flush_prepared:
  assumes t: "tallied s toks" and p: "flush_prepare s n = (r, mbi, ob, sb)"
  shows "sizes_ok r \<and> same_block s r \<and> (sb = ob \<or> trees_ready s toks r mbi)"
proof (cases "level s > 0")
  case True
  obtain r' mbi' ob' sb' where "flush_prepare s n = (r', mbi', ob', sb')" "trees_ready s toks r' mbi'"
    by (rule flush_prepare_ready [OF t True])
  then show ?thesis using p by (simp add: trees_ready_def)
next
  case False
  then have "r = s" "sb = ob" using p by (auto simp: flush_prepare_def)
  then show ?thesis using t by (simp add: same_block_def tallied_def)
qed

lemma stored_block_room:
  assumes "sink_ok s" "b = 0 \<or> b = 1" "unat n \<le> length buf" "length (pending s) + 8 + unat n \<le> 4 * unat (lit_bufsize s)"
  shows "length (sent (tr_stored_block s buf n b)) \<le> 8 * (4 * unat (lit_bufsize s))"
proof -
  have "(8 - (length (sent s) + 3) mod 8) mod 8 < 8" by simp
  moreover have "length (sent (tr_stored_block s buf n b)) =
      length (sent s) + 35 + (8 - (length (sent s) + 3) mod 8) mod 8 + 8 * unat n"
    using tr_stored_block_emits(1) [OF assms(1,2), of buf n] assms(1,3)
    by (simp add: emits_def stored_bits_def length_byte_stream min_absorb2)
  ultimately show ?thesis using pending_sent [OF assms(1)] assms(4) by linarith
qed

lemma send_bits_max:
  fixes s :: deflate_state
  shows "l_max_code (send_bits s v l) = l_max_code s" "d_max_code (send_bits s v l) = d_max_code s"
  by (simp_all add: send_bits_def Let_def put_short_def)

lemma choice_sent:
  assumes t: "tallied s toks" and k: "sink_ok s" and b: "b = 0 \<or> b = 1" and f: "buf_ok buf n"
    and p: "flush_prepare s n = (r, mbi, ob, sb)" and o: "flush_overlay_ok s buf n b"
  defines "q \<equiv> (if n + 4 \<le> ob \<and> buf \<noteq> None then tr_stored_block r (the buf) n b
     else if strategy r = Z_FIXED \<or> sb = ob
     then compress_block (send_bits r (of_int (STATIC_TREES * 2 + b)) 3) static_ltree static_dtree
     else let s2 = send_all_trees (send_bits r (of_int (DYN_TREES * 2 + b)) 3) (l_max_code (send_bits r (of_int (DYN_TREES * 2 + b)) 3) + 1)
            (d_max_code (send_bits r (of_int (DYN_TREES * 2 + b)) 3) + 1) (int mbi + 1)
          in compress_block s2 (dyn_ltree s2) (dyn_dtree s2))"
  shows "block_sent s q (b = 1) buf n toks"
proof -
  have v: "list_all valid_token toks" "holds_tokens s toks" using t tallied_holds by (auto simp: tallied_def)
  have r: "sizes_ok r" "same_block s r" "sb = ob \<or> trees_ready s toks r mbi"
    using flush_prepared [OF t p] by blast+
  have kr: "sink_ok r" "length (sent r) = length (sent s)" using same_block_sink [OF r(2)] k by simp_all
  have hr: "holds_tokens r toks" by (rule holds_tokens_same [OF r(2) v(2)])
  have L: "length toks < unat (lit_bufsize r)" using t r(2) by (simp add: tallied_def same_block_def)
  consider "n + 4 \<le> ob \<and> buf \<noteq> None" | "\<not> (n + 4 \<le> ob \<and> buf \<noteq> None)" "strategy r = Z_FIXED \<or> sb = ob"
    | "\<not> (n + 4 \<le> ob \<and> buf \<noteq> None)" "\<not> (strategy r = Z_FIXED \<or> sb = ob)" by blast
  then show ?thesis
  proof cases
    case 1
    then obtain bf where bf: "buf = Some bf" by auto
    then have len: "unat n < 2 ^ 16" "unat n \<le> length bf" using f by (simp_all add: buf_ok_def)
    have room: "length (pending r) + 8 + unat n \<le> 4 * unat (lit_bufsize r)"
      using o unfolding flush_overlay_ok_def p Let_def prod.case if_P [OF 1] .
    have q: "q = tr_stored_block r bf n b" using 1 bf by (simp add: q_def)
    then have e: "emits r q (stored_bits (length (sent s)) bf n b)"
      using tr_stored_block_emits(1) [OF kr(1) b, of bf n] by (simp add: kr(2))
    show ?thesis
      by (rule emits_block_sent [OF r(1,2) k e _ _ decode_stored_bits [OF len b]])
        (use stored_block_room [OF kr(1) b len(2) room] q in \<open>simp_all add: block_of_def bf\<close>)
  next
    case 2
    then have q: "q = compress_block (send_bits r (of_int (STATIC_TREES * 2 + b)) 3) static_ltree static_dtree"
      unfolding q_def by (simp only: if_False if_True)
    have ov: "overlay_ok (send_bits r (of_int (STATIC_TREES * 2 + b)) 3) static_ltree static_dtree"
      using o unfolding flush_overlay_ok_def p Let_def prod.case if_not_P [OF 2(1)] if_P [OF 2(2)] .
    note S = static_block_sent [OF hr L kr(1) b ov, folded q]
    show ?thesis
      by (rule emits_block_sent [OF r(1,2) k S, where blk = "Codes toks"])
        (use decode_static_block [OF v(1) b] in \<open>simp_all add: block_of_def\<close>)
  next
    case 3
    then have "trees_ready s toks r mbi" using r(3) by blast
    then obtain llens dlens bl where T: "coded (dyn_ltree r) llens" "coded (dyn_dtree r) dlens"
      "int (length llens) = l_max_code r + 1" "int (length dlens) = d_max_code r + 1"
      "header_ok r llens dlens bl (mbi + 1)" "has_codes llens (lit_syms toks)" "has_codes dlens (concat (map dist_syms toks))"
      unfolding trees_ready_def by blast
    define s2 where "s2 = send_all_trees (send_bits r (of_int (DYN_TREES * 2 + b)) 3) (int (length llens)) (int (length dlens)) (int (mbi + 1))"
    have s2: "send_all_trees (send_bits r (of_int (DYN_TREES * 2 + b)) 3) (l_max_code (send_bits r (of_int (DYN_TREES * 2 + b)) 3) + 1)
        (d_max_code (send_bits r (of_int (DYN_TREES * 2 + b)) 3) + 1) (int mbi + 1) = s2"
      unfolding s2_def T(3,4) send_bits_max by (simp only: of_nat_add of_nat_1)
    have ov: "overlay_ok s2 (dyn_ltree s2) (dyn_dtree s2)"
      using o unfolding flush_overlay_ok_def p Let_def prod.case if_not_P [OF 3(1)] if_not_P [OF 3(2)] s2 .
    have q: "q = compress_block s2 (dyn_ltree s2) (dyn_dtree s2)"
      unfolding q_def Let_def if_not_P [OF 3(1)] if_not_P [OF 3(2)] s2 ..
    obtain bs where e: "emits r q bs" "\<And>pos rest. decode_block pos (bs @ rest) = Some (b = 1, Codes toks, rest)"
      "length (sent q) \<le> 8 * (4 * unat (lit_bufsize r))"
      unfolding q s2_def by (rule dynamic_block_sent [OF T(1,2,5,6,7) hr L kr(1) b ov [unfolded s2_def]]) blast
    show ?thesis
      by (rule emits_block_sent [OF r(1,2) k e(1,3), where blk = "Codes toks"]) (simp_all add: block_of_def e(2))
  qed
qed

lemma init_block_fields:
  "sent (init_block s) = sent s" "sink_ok (init_block s) = sink_ok s" "lit_bufsize (init_block s) = lit_bufsize s"
  "level (init_block s) = level s" "strategy (init_block s) = strategy s"
  by (simp_all add: sent_def sink_ok_def) (simp_all add: init_block_def Let_def)

lemma windup_fields:
  fixes s :: deflate_state
  shows "lit_bufsize (bi_windup s) = lit_bufsize s" "level (bi_windup s) = level s" "strategy (bi_windup s) = strategy s"
    "tallied s [] \<Longrightarrow> tallied (bi_windup s) []"
  using same_trees_sink(1) [of s] same_trees_tallied [of s "bi_windup s"] by (simp_all add: same_trees_def)

text \<open>A block of a stream: its bits, then the padding of the last block.\<close>

definition flushed :: "deflate_state \<Rightarrow> deflate_state \<Rightarrow> int \<Rightarrow> u8 list option \<Rightarrow> u64 \<Rightarrow> token list \<Rightarrow> bool" where
  "flushed s r b buf n toks \<longleftrightarrow> tallied r [] \<and> sink_ok r \<and> lit_bufsize r = lit_bufsize s \<and> level r = level s \<and> strategy r = strategy s \<and>
     (b \<noteq> 0 \<longrightarrow> sent r = byte_stream (pending r)) \<and> length (pending r) \<le> 4 * unat (lit_bufsize s) \<and>
     (\<exists>bs blk p. sent r = sent s @ bs @ replicate p False \<and> p < 8 \<and> (b = 0 \<longrightarrow> p = 0) \<and> block_of buf n toks blk \<and>
        (\<forall>rest. decode_block (length (sent s)) (bs @ rest) = Some (b = 1, blk, rest)))"

lemma flush_block_ok:
  assumes t: "tallied s toks" and k: "sink_ok s" and b: "b = 0 \<or> b = 1" and f: "buf_ok buf n" and o: "flush_overlay_ok s buf n b"
  shows "flushed s (tr_flush_block s buf n b) b buf n toks"
proof -
  obtain r mbi ob sb where p: "flush_prepare s n = (r, mbi, ob, sb)" by (metis surj_pair)
  define q where "q = (if n + 4 \<le> ob \<and> buf \<noteq> None then tr_stored_block r (the buf) n b
     else if strategy r = Z_FIXED \<or> sb = ob
     then compress_block (send_bits r (of_int (STATIC_TREES * 2 + b)) 3) static_ltree static_dtree
     else let s2 = send_all_trees (send_bits r (of_int (DYN_TREES * 2 + b)) 3) (l_max_code (send_bits r (of_int (DYN_TREES * 2 + b)) 3) + 1)
            (d_max_code (send_bits r (of_int (DYN_TREES * 2 + b)) 3) + 1) (int mbi + 1)
          in compress_block s2 (dyn_ltree s2) (dyn_dtree s2))"
  have "block_sent s q (b = 1) buf n toks" unfolding q_def by (rule choice_sent [OF t k b f p o])
  then obtain bs blk where Q: "sizes_ok q" "sink_ok q" "lit_bufsize q = lit_bufsize s" "level q = level s" "strategy q = strategy s"
    "length (sent q) \<le> 8 * (4 * unat (lit_bufsize s))" "sent q = sent s @ bs" "block_of buf n toks blk" "\<forall>rest. decode_block (length (sent s)) (bs @ rest) = Some (b = 1, blk, rest)"
    unfolding block_sent_def by blast
  let ?q = "init_block q"
  have I: "tallied ?q []" "sink_ok ?q" "sent ?q = sent s @ bs" using init_block_tallied [OF Q(1)] Q(2,7) by (simp_all add: init_block_fields)
  have r: "tr_flush_block s buf n b = (if b \<noteq> 0 then bi_windup ?q else ?q)"
    unfolding tr_flush_block_def p Let_def prod.case q_def ..
  have room: "length (sent ?q) \<le> 8 * (4 * unat (lit_bufsize s))" using Q(6) by (simp add: init_block_fields)
  show ?thesis
  proof (cases "b = 0")
    case True
    have "length (pending ?q) \<le> 4 * unat (lit_bufsize s)" using pending_sent [OF I(2)] room by linarith
    then show ?thesis
      unfolding flushed_def r using True I Q by (auto simp: init_block_fields intro!: exI [of _ bs] exI [of _ blk] exI [of _ 0])
  next
    case False
    obtain p where w: "p < 8" "sent (bi_windup ?q) = sent ?q @ replicate p False" using bi_windup_ok(3) [OF I(2)] by blast
    have "length (pending (bi_windup ?q)) \<le> 4 * unat (lit_bufsize s)"
      using pending_sent [OF bi_windup_ok(1) [OF I(2)]] room w by simp
    with w show ?thesis
      unfolding flushed_def r using False I Q bi_windup_ok(1,4) [OF I(2)]
      by (auto simp: init_block_fields windup_fields intro!: exI [of _ bs] exI [of _ blk] exI [of _ p])
  qed
qed

section \<open>When the memory suffices\<close>

text \<open>The description of the trees takes at most 4498 bits with the kind of the block.\<close>

lemma items_expand_count: "items_ok acc items \<Longrightarrow> length acc + length items \<le> length (expand acc items)"
proof (induction items arbitrary: acc)
  case (Cons i items)
  obtain c v k where i: "i = (c, v, k)" by (cases i)
  have "length acc + 1 \<le> length (expand_item acc i)" by (simp add: i)
  then show ?case using Cons.IH [of "expand_item acc i"] Cons.prems by fastforce
qed simp

lemma items_bits_length:
  assumes "coded bl blens" "\<forall>l \<in> set blens. l < 8"
  shows "items_ok acc items \<Longrightarrow> has_codes blens (map fst items) \<Longrightarrow> length (items_bits bl items) \<le> 14 * length items"
proof (induction items arbitrary: acc)
  case (Cons i items)
  obtain c v k where i: "i = (c, v, k)" by (cases i)
  have c: "c < length blens" "blens ! c \<noteq> 0" and o: "item_ok (c, v, k)" using Cons.prems by (simp_all add: i)
  have "length (tree_word bl c) = blens ! c" using codedD(2) [OF assms(1) c] by (simp add: tree_word_def)
  then have "length (tree_word bl c) \<le> 7" using assms(2) nth_mem [OF c(1)] by fastforce
  then have "length (item_bits bl i) \<le> 14" using item_ok_small(1) [OF o] by (simp add: i)
  then show ?case using Cons.IH [of "expand_item acc i"] Cons.prems by simp
qed simp

lemma header_bits_length:
  assumes h: "header_ok s llens dlens bl n"
  shows "length (header_bits s llens dlens n) \<le> 4495"
proof -
  let ?li = "tree_items (dyn_ltree s) (int (length llens) - 1)" and ?di = "tree_items (dyn_dtree s) (int (length dlens) - 1)"
  have H: "coded (bl_tree s) bl" "\<forall>l \<in> set bl. l < 8" "n \<le> 19" "length llens \<le> 286" "length dlens \<le> 30"
    "items_ok [] ?li" "expand [] ?li = llens" "items_ok llens ?di" "expand llens ?di = llens @ dlens"
    "has_codes bl (map fst ?li)" "has_codes bl (map fst ?di)"
    using h by (simp_all add: header_ok_def Let_def)
  have "length (concat (map (\<lambda>v. bits_of v 3) vs)) = 3 * length vs" for vs :: "u32 list" by (induction vs) simp_all
  then have "length (header_bits s llens dlens n) = 14 + 3 * n + length (items_bits (bl_tree s) ?li) + length (items_bits (bl_tree s) ?di)"
    by (simp add: header_bits_def del: map_map)
  then show ?thesis
    using items_bits_length [OF H(1,2,6,10)] items_bits_length [OF H(1,2,8,11)] items_expand_count [OF H(6)] items_expand_count [OF H(8)] H(3-5)
    unfolding H(7,9) by simp
qed

text \<open>With few matches the output stays behind the tokens, whatever kind of block is chosen.\<close>

lemma few_matches_flush:
  assumes t: "tallied s toks" and k: "sink_ok s" and b: "b = 0 \<or> b = 1"
    and m: "length (sent s) + 4498 + 32 * match_count toks < 8 * d_start s"
    and n: "buf \<noteq> None \<Longrightarrow> length (pending s) + 8 + unat n \<le> 4 * unat (lit_bufsize s)"
  shows "flush_overlay_ok s buf n b"
proof -
  obtain r mbi ob sb where p: "flush_prepare s n = (r, mbi, ob, sb)" by (metis surj_pair)
  have r: "same_block s r" "sb = ob \<or> trees_ready s toks r mbi"
    using flush_prepared [OF t p] by blast+
  have kr: "sink_ok r" "sent r = sent s" using same_block_sink [OF r(1)] k by simp_all
  have hr: "holds_tokens r toks" by (rule holds_tokens_same [OF r(1) tallied_holds [OF t]])
  have v: "list_all valid_token toks" using t by (simp add: tallied_def)
  have d: "d_start r = d_start s" "pending r = pending s" "lit_bufsize r = lit_bufsize s" using r(1) by (simp_all add: same_block_def d_start_def)
  have few: "overlay_ok q lt dt"
    if e: "emits r q bs" and l: "length bs \<le> 4498" and c: "coded lt llens" "coded dt dlens"
      "has_codes llens (lit_syms toks)" "has_codes dlens (concat (map dist_syms toks))" for q bs lt dt llens dlens
  proof -
    have q: "sink_ok q" "sent q = sent s @ bs" "same_trees r q" using e kr by (simp_all add: emits_def)
    then have dq: "d_start q = d_start s" using d by (simp add: same_trees_def d_start_def)
    have f: "length (sent q) + 32 * match_count toks < 8 * d_start q" using m l by (simp add: q(2) dq)
    then have "length (pending q) \<le> d_start r" using pending_sent [OF q(1)] unfolding dq d(1) by linarith
    then have "holds_tokens q toks" by (rule same_trees_holds [OF q(3) hr])
    then show ?thesis by (rule few_matches_overlay [OF c(1,2) _ q(1) c(3,4) f])
  qed
  have st: "overlay_ok (send_bits r (of_int (STATIC_TREES * 2 + b)) 3) static_ltree static_dtree"
    by (rule few [OF emits_kind _ static_ltree_coded static_dtree_coded has_codes_static [OF v]])
      (use b in \<open>simp_all add: STATIC_TREES_def\<close>)
  have dy: "overlay_ok s2 (dyn_ltree s2) (dyn_dtree s2)"
    if q: "trees_ready s toks r mbi" and s2: "s2 = send_all_trees (send_bits r (of_int (DYN_TREES * 2 + b)) 3) (l_max_code r + 1) (d_max_code r + 1) (int mbi + 1)" for s2
  proof -
    obtain llens dlens bl where T: "coded (dyn_ltree r) llens" "coded (dyn_dtree r) dlens"
      "int (length llens) = l_max_code r + 1" "int (length dlens) = d_max_code r + 1"
      "header_ok r llens dlens bl (mbi + 1)" "has_codes llens (lit_syms toks)" "has_codes dlens (concat (map dist_syms toks))"
      using q unfolding trees_ready_def by blast
    let ?hb = "bits_of (of_int (DYN_TREES * 2 + b) :: u32) 3 @ header_bits (send_bits r (of_int (DYN_TREES * 2 + b)) 3) llens dlens (mbi + 1)"
    have e: "emits r s2 ?hb"
      using header_emits [OF T(5) b] unfolding s2 T(3,4) by (simp only: of_nat_add of_nat_1)
    then have dd: "dyn_ltree s2 = dyn_ltree r" "dyn_dtree s2 = dyn_dtree r" by (simp_all add: emits_def same_trees_def)
    have "length ?hb \<le> 4498"
      using header_bits_length [OF header_same [OF same_trees_send_bits(1) T(5)]] by simp
    then show ?thesis unfolding dd by (rule few [OF e _ T(1,2,6,7)])
  qed
  show ?thesis
    unfolding flush_overlay_ok_def p Let_def prod.case send_bits_max d(2,3)
    using n st dy [OF _ refl] r(2) by (cases "sb = ob") simp_all
qed

section \<open>A stream of blocks\<close>

text \<open>
  Of a \<open>z_stream\<close> the model keeps the state, the bytes that have been written through \<open>next_out\<close>, and
  \<open>avail_out\<close>. The list \<open>pending\<close> begins at \<open>pending_out\<close>. \<open>flush_pending\<close> moves what there is room for.
\<close>

record z_stream =
  state :: deflate_state
  written :: "u8 list"
  avail_out :: nat

definition flush_pending :: "z_stream \<Rightarrow> z_stream" where
  "flush_pending strm =
     (let s = tr_flush_bits (state strm);
          len = length (pending s);
          len = (if len > avail_out strm then avail_out strm else len)
      in if len = 0 then strm\<lparr>state := s\<rparr>
         else strm\<lparr>state := s\<lparr>pending := drop len (pending s)\<rparr>, written := written strm @ take len (pending s),
                avail_out := avail_out strm - len\<rparr>)"

text \<open>
  \<open>deflate\<close> flushes after every block and returns when the room is used up; it goes on only when
  nothing is pending any more. The application gives \<open>room\<close> bytes each time. The bits that are flushed
  are put by the first \<open>flush_pending\<close>, while \<open>pending_out\<close> is still the start of \<open>pending_buf\<close>.
\<close>

lemma flush_bits_measure: "length (pending (tr_flush_bits s)) + nat (bi_valid (tr_flush_bits s)) \<le> length (pending s) + nat (bi_valid s)"
  by (auto simp: tr_flush_bits_def bi_flush_def put_short_def)

function drain :: "nat \<Rightarrow> z_stream \<Rightarrow> z_stream" where
  "drain room strm =
     (let strm = flush_pending strm
      in if pending (state strm) = [] \<or> room = 0 then strm else drain room (strm\<lparr>avail_out := room\<rparr>))"
  by auto
termination
proof (relation "measure (\<lambda>(room, strm). 2 * (length (pending (state strm)) + nat (bi_valid (state strm))) + (if avail_out strm = 0 then 1 else 0))")
  fix room :: nat and strm r :: z_stream
  assume r: "r = flush_pending strm" and n: "\<not> (pending (state r) = [] \<or> room = 0)"
  let ?s = "tr_flush_bits (state strm)"
  note m = flush_bits_measure [of "state strm"]
  show "((room, r\<lparr>avail_out := room\<rparr>), room, strm)
    \<in> measure (\<lambda>(room, strm). 2 * (length (pending (state strm)) + nat (bi_valid (state strm))) + (if avail_out strm = 0 then 1 else 0))"
  proof (cases "avail_out strm = 0")
    case True
    then have "state r = ?s" by (simp add: r flush_pending_def Let_def)
    then show ?thesis using m n True by simp
  next
    case False
    then have "length (pending (state r)) < length (pending ?s)" "bi_valid (state r) = bi_valid ?s"
      using n by (auto simp: r flush_pending_def Let_def split: if_splits)
    then show ?thesis using m n by simp
  qed
qed simp

declare drain.simps [simp del]

lemma pending_update:
  fixes s :: deflate_state
  shows "sink_ok (s\<lparr>pending := x\<rparr>) = sink_ok s" "tallied (s\<lparr>pending := x\<rparr>) toks = tallied s toks"
    "bi_valid s < 8 \<Longrightarrow> tr_flush_bits (s\<lparr>pending := x\<rparr>) = s\<lparr>pending := x\<rparr>"
  by (simp_all add: sink_ok_def tallied_def sizes_ok_def tr_flush_bits_def bi_flush_def)

lemma drain_all:
  assumes "0 < room" "sink_ok (state strm)"
  shows "state (drain room strm) = (tr_flush_bits (state strm))\<lparr>pending := []\<rparr> \<and>
    written (drain room strm) = written strm @ pending (tr_flush_bits (state strm))"
  using assms
proof (induction room strm rule: drain.induct)
  case (1 room strm)
  define s where "s = tr_flush_bits (state strm)"
  define len where "len = (if length (pending s) > avail_out strm then avail_out strm else length (pending s))"
  let ?r = "flush_pending strm"
  have r: "state ?r = s\<lparr>pending := drop len (pending s)\<rparr>" "written ?r = written strm @ take len (pending s)"
    unfolding flush_pending_def Let_def s_def [symmetric] len_def [symmetric] by simp_all
  have f: "sink_ok s" "bi_valid s < 8" using bi_flush_ok(1,3) [OF 1(3)] by (simp_all add: s_def tr_flush_bits_def)
  show ?case
  proof (cases "pending (state ?r) = []")
    case True
    then have "drain room strm = ?r" by (simp add: drain.simps [of room strm] Let_def)
    moreover have "take len (pending s) = pending s" using True r(1) by simp
    ultimately show ?thesis using True r unfolding s_def [symmetric] by simp
  next
    case False
    have d: "drain room strm = drain room (?r\<lparr>avail_out := room\<rparr>)" using False 1(2) by (simp add: drain.simps [of room strm] Let_def)
    have "\<not> (pending (state ?r) = [] \<or> room = 0)" using False 1(2) by simp
    from 1(1) [OF refl this 1(2)] f
    have "state (drain room strm) = (tr_flush_bits (state ?r))\<lparr>pending := []\<rparr> \<and>
        written (drain room strm) = written ?r @ pending (tr_flush_bits (state ?r))"
      unfolding d by (simp add: r(1) pending_update(1))
    then show ?thesis
      unfolding r pending_update(3) [OF f(2)] s_def [symmetric] by simp
  qed
qed

text \<open>A block: its tokens, the input it covers or None, and the length of that input.\<close>

type_synonym block_call = "token list \<times> u8 list option \<times> u64"

definition call_ok :: "u32 \<Rightarrow> block_call \<Rightarrow> bool" where
  "call_ok bufsize c \<longleftrightarrow> (case c of (toks, buf, n) \<Rightarrow> list_all valid_token toks \<and> length toks < unat bufsize \<and> buf_ok buf n)"

definition flush_call :: "nat \<Rightarrow> z_stream \<Rightarrow> block_call \<Rightarrow> int \<Rightarrow> z_stream" where
  "flush_call room strm c b =
     (case c of (toks, buf, n) \<Rightarrow> drain room (strm\<lparr>state := tr_flush_block (tally_all (state strm) toks) buf n b\<rparr>))"

fun flush_calls :: "nat \<Rightarrow> z_stream \<Rightarrow> block_call list \<Rightarrow> z_stream" where
  "flush_calls room strm [] = strm"
| "flush_calls room strm [c] = flush_call room strm c 1"
| "flush_calls room strm (c # c' # cs) = flush_calls room (flush_call room strm c 0) (c' # cs)"

definition call_overlay_ok :: "z_stream \<Rightarrow> block_call \<Rightarrow> int \<Rightarrow> bool" where
  "call_overlay_ok strm c b = (case c of (toks, buf, n) \<Rightarrow> flush_overlay_ok (tally_all (state strm) toks) buf n b)"

fun calls_overlay_ok :: "nat \<Rightarrow> z_stream \<Rightarrow> block_call list \<Rightarrow> bool" where
  "calls_overlay_ok room strm [] = True"
| "calls_overlay_ok room strm [c] = call_overlay_ok strm c 1"
| "calls_overlay_ok room strm (c # c' # cs) =
     (call_overlay_ok strm c 0 \<and> calls_overlay_ok room (flush_call room strm c 0) (c' # cs))"

text \<open>A condition on the blocks alone: few of the tokens are matches, and a block that may be stored fits.\<close>

definition few_matches :: "u32 \<Rightarrow> block_call \<Rightarrow> bool" where
  "few_matches bufsize c \<longleftrightarrow>
     (case c of (toks, buf, n) \<Rightarrow> 566 + 4 * match_count toks \<le> unat bufsize \<and> (buf \<noteq> None \<longrightarrow> 8 + unat n \<le> 4 * unat bufsize))"

definition block_of_call :: "block_call \<Rightarrow> block \<Rightarrow> bool" where
  "block_of_call c blk \<longleftrightarrow> (case c of (toks, buf, n) \<Rightarrow> block_of buf n toks blk)"

text \<open>Between two blocks nothing is pending; \<open>stream_bits\<close> are all the bits of the stream so far.\<close>

definition stream_ok :: "z_stream \<Rightarrow> bool" where
  "stream_ok strm \<longleftrightarrow> tallied (state strm) [] \<and> sink_ok (state strm) \<and> pending (state strm) = [] \<and> bi_valid (state strm) < 8"

definition stream_bits :: "z_stream \<Rightarrow> bool list" where
  "stream_bits strm = byte_stream (written strm) @ sent (state strm)"

lemma decode_block_bytes: "decode_block (8 * k + pos) bs = decode_block pos bs"
proof -
  have "(8 * k + pos + 3) mod 8 = (pos + 3) mod 8" by (metis add.assoc mod_mult_self4)
  then show ?thesis by (simp only: decode_block_def decode_stored_def)
qed

lemma stream_tally:
  assumes s: "stream_ok strm" and c: "call_ok (lit_bufsize (state strm)) (toks, buf, n)"
  defines "r \<equiv> tally_all (state strm) toks"
  shows "tallied r toks" "sink_ok r" "sent r = sent (state strm)" "pending r = []" "length (sent r) < 8" "lit_bufsize r = lit_bufsize (state strm)"
proof -
  have a: "tallied r toks" "out_fields r = out_fields (state strm)" "lit_bufsize r = lit_bufsize (state strm)"
    unfolding r_def using tally_all_tallied [of "state strm" toks] s c by (simp_all add: stream_ok_def call_ok_def)
  then show "tallied r toks" "sink_ok r" "sent r = sent (state strm)" "pending r = []" "lit_bufsize r = lit_bufsize (state strm)"
    using s by (simp_all add: stream_ok_def out_fields_def sink_ok_def sent_def)
  then show "length (sent r) < 8" using length_sent [of "state strm"] s by (simp add: stream_ok_def) linarith
qed

lemma few_matches_call:
  assumes s: "stream_ok strm" and c: "call_ok (lit_bufsize (state strm)) c" and b: "b = 0 \<or> b = 1"
    and f: "few_matches (lit_bufsize (state strm)) c"
  shows "call_overlay_ok strm c b"
proof -
  obtain toks buf n where cc: "c = (toks, buf, n)" by (cases c)
  note t = stream_tally [OF s c [unfolded cc]]
  have F: "566 + 4 * match_count toks \<le> unat (lit_bufsize (state strm))" "buf \<noteq> None \<Longrightarrow> 8 + unat n \<le> 4 * unat (lit_bufsize (state strm))"
    using f by (simp_all add: few_matches_def cc)
  have "length (sent (tally_all (state strm) toks)) + 4498 + 32 * match_count toks < 8 * d_start (tally_all (state strm) toks)"
    using t(5) F(1) d_start_bounds(2) [of "tally_all (state strm) toks"] unfolding t(6) by linarith
  then show ?thesis
    unfolding call_overlay_ok_def cc prod.case using F(2) t(4,6) by (intro few_matches_flush [OF t(1,2) b]) simp_all
qed

lemma flush_call_ok:
  assumes s: "stream_ok strm" and c: "call_ok (lit_bufsize (state strm)) (toks, buf, n)" and b: "b = 0 \<or> b = 1" and room: "0 < room"
    and o: "call_overlay_ok strm (toks, buf, n) b"
  defines "r \<equiv> flush_call room strm (toks, buf, n) b"
  shows "stream_ok r \<and> lit_bufsize (state r) = lit_bufsize (state strm) \<and> (b \<noteq> 0 \<longrightarrow> sent (state r) = []) \<and>
    (\<exists>bs blk p. stream_bits r = stream_bits strm @ bs @ replicate p False \<and> (b = 0 \<longrightarrow> p = 0) \<and> block_of buf n toks blk \<and>
       (\<forall>rest. decode_block (length (stream_bits strm)) (bs @ rest) = Some (b = 1, blk, rest)))"
proof -
  note t = stream_tally [OF s c]
  let ?t = "tally_all (state strm) toks"
  define q where "q = tr_flush_block ?t buf n b"
  have "buf_ok buf n" using c by (simp add: call_ok_def)
  then have "flushed ?t q b buf n toks"
    unfolding q_def using o by (intro flush_block_ok [OF t(1,2) b]) (simp_all add: call_overlay_ok_def)
  then obtain bs blk p where F: "tallied q []" "sink_ok q" "lit_bufsize q = lit_bufsize ?t" "b \<noteq> 0 \<longrightarrow> sent q = byte_stream (pending q)"
    "sent q = sent ?t @ bs @ replicate p False" "b = 0 \<longrightarrow> p = 0" "block_of buf n toks blk"
    "\<forall>rest. decode_block (length (sent ?t)) (bs @ rest) = Some (b = 1, blk, rest)"
    unfolding flushed_def by blast
  define f where "f = tr_flush_bits q"
  have f: "sink_ok f" "sent f = sent q" "bi_valid f < 8" "tallied f []" "lit_bufsize f = lit_bufsize q"
    using bi_flush_ok [OF F(2)] same_trees_tallied [OF same_trees_sink(4) F(1)] same_trees_sink(4) [of q]
    by (simp_all add: f_def tr_flush_bits_def same_trees_def)
  have r: "state r = f\<lparr>pending := []\<rparr>" "written r = written strm @ pending f"
    using drain_all [OF room, of "strm\<lparr>state := q\<rparr>"] F(2) unfolding r_def flush_call_def prod.case q_def [symmetric] f_def by simp_all
  have "stream_ok r" using f by (simp add: stream_ok_def r pending_update)
  moreover have "sent (state r) = []" if "b \<noteq> 0"
  proof -
    have "nat (bi_valid q) = 0" using F(4) that length_sent [OF F(2)] by (simp add: length_byte_stream)
    then have "f = q" by (simp add: f_def tr_flush_bits_def bi_flush_def)
    then show ?thesis using \<open>nat (bi_valid q) = 0\<close> by (simp add: r sent_def)
  qed
  moreover have "stream_bits r = byte_stream (written strm) @ sent f"
    by (simp add: stream_bits_def r sent_def)
  then have "stream_bits r = stream_bits strm @ bs @ replicate p False"
    unfolding f(2) F(5) t(3) by (simp add: stream_bits_def)
  moreover have "decode_block (length (stream_bits strm)) (bs @ rest) = Some (b = 1, blk, rest)" for rest
    using F(8) decode_block_bytes [of "length (written strm)"] by (simp add: stream_bits_def length_byte_stream t(3))
  moreover have "lit_bufsize (state r) = lit_bufsize (state strm)" using f(5) F(3) t(6) by (simp add: r)
  ultimately show ?thesis using F(6,7) by blast
qed

lemma flush_calls_ok:
  "0 < room \<Longrightarrow> stream_ok strm \<Longrightarrow> list_all (call_ok (lit_bufsize (state strm))) cs \<Longrightarrow> cs \<noteq> [] \<Longrightarrow> calls_overlay_ok room strm cs \<Longrightarrow>
    \<exists>bs blks. stream_bits (flush_calls room strm cs) = stream_bits strm @ bs \<and> sent (state (flush_calls room strm cs)) = [] \<and>
      stream_ok (flush_calls room strm cs) \<and> list_all2 block_of_call cs blks \<and> decode_stream (length (stream_bits strm)) bs = Some blks"
proof (induction room strm cs rule: flush_calls.induct)
  case (2 room strm c)
  obtain toks buf n where c: "c = (toks, buf, n)" by (cases c)
  have o: "call_ok (lit_bufsize (state strm)) (toks, buf, n)" "call_overlay_ok strm (toks, buf, n) 1" using 2(3,5) by (simp_all add: c)
  from flush_call_ok [OF 2(2) o(1) _ 2(1) o(2)]
  obtain bs blk p where F: "stream_ok (flush_call room strm c 1)" "sent (state (flush_call room strm c 1)) = []"
    "stream_bits (flush_call room strm c 1) = stream_bits strm @ bs @ replicate p False" "block_of buf n toks blk"
    "\<forall>rest. decode_block (length (stream_bits strm)) (bs @ rest) = Some (True, blk, rest)"
    unfolding c by auto
  have "decode_stream (length (stream_bits strm)) (bs @ replicate p False) = Some [blk]"
    using F(5) by (subst decode_stream.simps) simp
  then show ?case
    using F by (intro exI [of _ "bs @ replicate p False"] exI [of _ "[blk]"]) (simp add: block_of_call_def c)
next
  case (3 room strm c c' cs)
  obtain toks buf n where c: "c = (toks, buf, n)" by (cases c)
  have o: "call_ok (lit_bufsize (state strm)) (toks, buf, n)" "call_overlay_ok strm (toks, buf, n) 0" using 3(4,6) by (simp_all add: c)
  from flush_call_ok [OF 3(3) o(1) _ 3(2) o(2)]
  obtain bs blk where F: "stream_ok (flush_call room strm c 0)" "lit_bufsize (state (flush_call room strm c 0)) = lit_bufsize (state strm)"
    "stream_bits (flush_call room strm c 0) = stream_bits strm @ bs" "block_of buf n toks blk"
    "\<forall>rest. decode_block (length (stream_bits strm)) (bs @ rest) = Some (False, blk, rest)"
    unfolding c by auto
  have "list_all (call_ok (lit_bufsize (state (flush_call room strm c 0)))) (c' # cs)" "calls_overlay_ok room (flush_call room strm c 0) (c' # cs)"
    using 3(4,6) F(2) by simp_all
  from 3(1) [OF 3(2) F(1) this(1) _ this(2)]
  obtain bs' blks where G: "stream_bits (flush_calls room strm (c # c' # cs)) = stream_bits strm @ bs @ bs'"
    "sent (state (flush_calls room strm (c # c' # cs))) = []" "stream_ok (flush_calls room strm (c # c' # cs))"
    "list_all2 block_of_call (c' # cs) blks" "decode_stream (length (stream_bits strm) + length bs) bs' = Some blks"
    unfolding F(3) by auto
  have "decode_stream (length (stream_bits strm)) (bs @ bs') = Some (blk # blks)"
    using F(5) G(5) by (subst decode_stream.simps) simp
  moreover have "block_of_call c blk" using F(4) by (simp add: block_of_call_def c)
  ultimately show ?case
    using G by (intro exI [of _ "bs @ bs'"] exI [of _ "blk # blks"]) simp
qed simp

lemma few_matches_calls:
  "0 < room \<Longrightarrow> stream_ok strm \<Longrightarrow> list_all (call_ok (lit_bufsize (state strm))) cs \<Longrightarrow> list_all (few_matches (lit_bufsize (state strm))) cs \<Longrightarrow>
    calls_overlay_ok room strm cs"
proof (induction room strm cs rule: flush_calls.induct)
  case (3 room strm c c' cs)
  have o: "call_overlay_ok strm c 0" using 3 by (intro few_matches_call) simp_all
  moreover obtain toks buf n where c: "c = (toks, buf, n)" by (cases c)
  ultimately have "stream_ok (flush_call room strm c 0) \<and> lit_bufsize (state (flush_call room strm c 0)) = lit_bufsize (state strm)"
    using flush_call_ok [OF 3(3) _ _ 3(2), of toks buf n 0] 3(4) by simp
  then show ?case using 3 o by simp
qed (simp_all add: few_matches_call)

section \<open>Properties\<close>

text \<open>
  C2: \<open>_tr_flush_block\<close> on a block whose tokens have been tallied, whatever the level, the strategy and the
  estimated sizes choose, when the overlaid memory suffices for that choice (which holds when few of the
  tokens are matches, by \<open>few_matches_flush\<close>): the bits it sends are read back by the reference decoder as the tokens or,
  if the input was passed and stored, as its first \<open>stored_len\<close> bytes, with the mark of the last block as it was given. The
  state is ready for the next block, the last block is padded to a byte, and the output ends inside
  \<open>pending_buf\<close>.
\<close>
theorem flush_block_roundtrip:
  assumes "tallied s toks" "sink_ok s" "b = 0 \<or> b = 1" "buf_ok buf n" "flush_overlay_ok s buf n b"
  shows "let r = tr_flush_block s buf n b in
    tallied r [] \<and> sink_ok r \<and> lit_bufsize r = lit_bufsize s \<and> (b \<noteq> 0 \<longrightarrow> sent r = byte_stream (pending r)) \<and>
    length (pending r) \<le> 4 * unat (lit_bufsize s) \<and>
    (\<exists>bs blk p. sent r = sent s @ bs @ replicate p False \<and> p < 8 \<and> (b = 0 \<longrightarrow> p = 0) \<and>
       (blk = Codes toks \<or> (\<exists>input. buf = Some input \<and> blk = Stored (take (unat n) input))) \<and>
       (\<forall>rest. decode_block (length (sent s)) (bs @ rest) = Some (b = 1, blk, rest)))"
  using flush_block_ok [OF assms] unfolding flushed_def block_of_def Let_def by blast

text \<open>A state with room for the description of the trees.\<close>

definition sample_large :: deflate_state where
  "sample_large = sample_state\<lparr>lit_bufsize := 1024, d_buf := replicate 1024 0, l_buf := replicate 1024 0\<rparr>"

lemma sample_large_facts:
  "sizes_ok sample_large" "pending sample_large = []" "lit_bufsize sample_large = 1024"
  using sample_state_sizes by (simp_all add: sample_large_def sizes_ok_def sample_state_def)

lemma tr_init_stream:
  assumes "sizes_ok s" "pending s = []"
  shows "stream_ok \<lparr>state = tr_init s, written = [], avail_out = k\<rparr>" "sent (tr_init s) = []" "lit_bufsize (tr_init s) = lit_bufsize s"
proof -
  have "sizes_ok (s\<lparr>bi_buf := 0, bi_valid := 0\<rparr>)" using assms(1) by (simp add: sizes_ok_def)
  then have t: "tallied (tr_init s) []" by (simp add: tr_init_def init_block_tallied)
  then show "stream_ok \<lparr>state = tr_init s, written = [], avail_out = k\<rparr>"
    using assms(2) by (simp add: stream_ok_def tr_init_def sink_ok_def)
  show "sent (tr_init s) = []" using assms(2) by (simp add: tr_init_def sent_def)
  show "lit_bufsize (tr_init s) = lit_bufsize s" by (simp add: tr_init_def init_block_fields)
qed

lemma flush_block_roundtrip_witness:
  "\<exists>bs p. sent (tr_flush_block (tally_all (tr_init sample_large) [Literal 97, Match 3 1]) None 4 1)
      = sent (tally_all (tr_init sample_large) [Literal 97, Match 3 1]) @ bs @ replicate p False \<and>
    decode_block (length (sent (tally_all (tr_init sample_large) [Literal 97, Match 3 1]))) bs = Some (True, Codes [Literal 97, Match 3 1], [])"
proof -
  note I = tr_init_stream [OF sample_large_facts(1,2), unfolded sample_large_facts(3)]
  have c: "call_ok (lit_bufsize (tr_init sample_large)) ([Literal 97, Match 3 1], None, 4)" "buf_ok None 4"
    by (simp_all add: I(3) call_ok_def buf_ok_def)
  have "few_matches (lit_bufsize (tr_init sample_large)) ([Literal 97, Match 3 1], None, 4)"
    by (simp add: few_matches_def match_count_def I(3))
  then have o: "flush_overlay_ok (tally_all (tr_init sample_large) [Literal 97, Match 3 1]) None 4 1"
    using few_matches_call [OF I(1), of _ "([Literal 97, Match 3 1], None, 4)" 1] c(1) by (simp add: call_overlay_ok_def)
  have t: "tallied (tally_all (tr_init sample_large) [Literal 97, Match 3 1]) [Literal 97, Match 3 1]"
    "sink_ok (tally_all (tr_init sample_large) [Literal 97, Match 3 1])"
    using stream_tally(1,2) [OF I(1)] c(1) by simp_all
  have "1 = 0 \<or> 1 = (1 :: int)" by simp
  from flush_block_roundtrip [OF t this c(2) o, unfolded Let_def]
  obtain bs blk p where w: "sent (tr_flush_block (tally_all (tr_init sample_large) [Literal 97, Match 3 1]) None 4 1)
      = sent (tally_all (tr_init sample_large) [Literal 97, Match 3 1]) @ bs @ replicate p False"
    "blk = Codes [Literal 97, Match 3 1] \<or> (\<exists>input. None = Some input \<and> blk = Stored (take (unat (4 :: u64)) input))"
    "decode_block (length (sent (tally_all (tr_init sample_large) [Literal 97, Match 3 1]))) (bs @ []) = Some (1 = (1 :: int), blk, [])"
    by blast
  then have "blk = Codes [Literal 97, Match 3 1]" by blast
  with w(3) show ?thesis
    by (intro exI [of _ bs] exI [of _ p] conjI w(1)) (simp only: append_Nil2 simp_thms)
qed

text \<open>
  C1: a whole stream. From a state with nothing pending, any non-empty sequence of blocks, each
  tallied from fewer than \<open>lit_bufsize\<close> valid tokens, flushed and drained into output buffers of
  any positive size, the last block marked as last. The overlaid memory suffices for every block, as
  the assertions of the code have it, or each block has few matches and fits if stored. Then everything
  is written out, and the bytes written, read as a stream of bits, are decoded block by block to the tokens or the stored bytes of
  the blocks, in their order, and the decoder stops at the last block.
\<close>
theorem deflate_stream_roundtrip:
  assumes "sizes_ok s" "pending s = []" "cs \<noteq> []" "0 < room"
    and "\<forall>(toks, buf, n) \<in> set cs. list_all valid_token toks \<and> length toks < unat (lit_bufsize s) \<and> buf_ok buf n"
    and "calls_overlay_ok room \<lparr>state = tr_init s, written = [], avail_out = avail\<rparr> cs \<or> list_all (few_matches (lit_bufsize s)) cs"
  shows "let r = flush_calls room \<lparr>state = tr_init s, written = [], avail_out = avail\<rparr> cs in
    pending (state r) = [] \<and> bi_valid (state r) = 0 \<and>
    (\<exists>blks. decode_stream 0 (byte_stream (written r)) = Some blks \<and>
       list_all2 (\<lambda>(toks, buf, n) blk. blk = Codes toks \<or> (\<exists>input. buf = Some input \<and> blk = Stored (take (unat n) input))) cs blks)"
proof -
  let ?z = "\<lparr>state = tr_init s, written = [], avail_out = avail\<rparr>"
  let ?r = "flush_calls room ?z cs"
  note I = tr_init_stream [OF assms(1,2)]
  have c: "list_all (call_ok (lit_bufsize (state ?z))) cs" using assms(5) I(3) by (auto simp: list_all_iff call_ok_def)
  have "calls_overlay_ok room ?z cs" using assms(6) few_matches_calls [OF assms(4) I(1) c] I(3) by auto
  from flush_calls_ok [OF assms(4) I(1) c assms(3) this]
  obtain bs blks where R: "stream_bits ?r = bs" "sent (state ?r) = []" "stream_ok ?r" "list_all2 block_of_call cs blks" "decode_stream 0 bs = Some blks"
    by (auto simp: stream_bits_def I(2))
  have e: "block_of_call = (\<lambda>(toks, buf, n) blk. blk = Codes toks \<or> (\<exists>input. buf = Some input \<and> blk = Stored (take (unat n) input)))"
    by (auto simp: fun_eq_iff block_of_call_def block_of_def)
  have "byte_stream (written ?r) = bs" using R(1,2) by (simp add: stream_bits_def)
  moreover have "pending (state ?r) = [] \<and> bi_valid (state ?r) = 0"
    using R(2,3) length_sent [of "state ?r"] by (simp add: stream_ok_def sink_ok_def)
  ultimately show ?thesis using R(4,5) unfolding Let_def e by blast
qed

lemma deflate_stream_roundtrip_witness:
  "\<exists>blks. decode_stream 0 (byte_stream (written (flush_calls 3 \<lparr>state = tr_init sample_large, written = [], avail_out = 1\<rparr>
      [([Literal 97, Match 3 1], None, 4), ([], Some [1, 2], 2), ([Literal 98], None, 1)]))) = Some blks \<and> length blks = 3"
proof -
  let ?cs = "[([Literal 97, Match 3 1], None, 4), ([], Some [1, 2], 2), ([Literal 98], None, 1)] :: block_call list"
  have 1: "?cs \<noteq> []" "0 < (3 :: nat)"
    "\<forall>(toks, buf, n) \<in> set ?cs. list_all valid_token toks \<and> length toks < unat (lit_bufsize sample_large) \<and> buf_ok buf n"
    by (simp_all add: sample_large_facts(3) buf_ok_def)
  have "list_all (few_matches (lit_bufsize sample_large)) ?cs"
    by (simp add: few_matches_def match_count_def sample_large_facts(3))
  from deflate_stream_roundtrip [OF sample_large_facts(1,2) 1 disjI2 [OF this], of 1] show ?thesis
    by (auto simp: Let_def dest: list_all2_lengthD)
qed

end
