(* ===== verification/Checksum.thy ===== *)
theory Checksum
  imports Prelude
begin

text \<open>
  The interface that zlib's checksums share, as \<open>inflate.c\<close>, \<open>deflate.c\<close> and \<open>gzread.c\<close> use it:
  a running value is updated with one buffer after another, and the checksums of adjacent
  blocks can be combined without their data.
\<close>

locale checksum =
  fixes update :: "'c \<Rightarrow> u8 list \<Rightarrow> 'c"
    and start :: 'c
    and valid :: "'c \<Rightarrow> bool"
  assumes valid_start: "valid start"
    and valid_update: "valid c \<Longrightarrow> valid (update c xs)"
    and update_append: "valid c \<Longrightarrow> update c (xs @ ys) = update (update c xs) ys"
    and update_Nil: "valid c \<Longrightarrow> update c [] = c"
begin

lemma update_chunks: "valid c \<Longrightarrow> foldl update c xss = update c (concat xss)"
  by (induction xss arbitrary: c) (simp_all add: update_Nil update_append valid_update)

lemma valid_chunks: "valid (foldl update start xss)"
  by (simp add: update_chunks valid_start valid_update)

lemma update_rechunk:
  "valid c \<Longrightarrow> concat xss = concat yss \<Longrightarrow> foldl update c xss = foldl update c yss"
  by (simp add: update_chunks)

end

locale combinable_checksum = checksum +
  fixes combine :: "'c \<Rightarrow> 'c \<Rightarrow> nat \<Rightarrow> 'c"
  assumes combine_update: "valid c \<Longrightarrow> combine c (update start ys) (length ys) = update c ys"
begin

text \<open>The blocks of a stream are checked independently of each other and then combined.\<close>

lemma combine_blocks:
  "valid c \<Longrightarrow> foldl (\<lambda>c ys. combine c (update start ys) (length ys)) c yss = update c (concat yss)"
  by (induction yss arbitrary: c) (simp_all add: combine_update update_Nil update_append valid_update)

lemma combine_append:
  "combine (update start xs) (update start ys) (length ys) = update start (xs @ ys)"
  by (simp add: combine_update update_append valid_start valid_update)

end

end
