(* ===== verification/Adler32.thy ===== *)
theory Adler32
  imports Checksum
begin

text \<open>
  \<open>zlib_archive/adler32.c\<close>: the Adler-32 checksum.
  zlib's \<open>uLong\<close> is \<open>unsigned long\<close>, whose width depends on the platform, so the model
  is polymorphic in a word length and the theorems ask for at least 32 bits, as zlib does.
\<close>

section \<open>Constants and the unrolled macros\<close>

definition BASE :: nat where "BASE = 65521"

definition NMAX :: nat where "NMAX = 5552"

type_synonym 'u sums = "'u word \<times> 'u word"

definition DO1 :: "u8 list \<Rightarrow> nat \<Rightarrow> 'u::len sums \<Rightarrow> 'u sums" where
  "DO1 buf i st = (let adler = fst st + ucast (buf ! i); sum2 = snd st + adler in (adler, sum2))"

definition DO2 :: "u8 list \<Rightarrow> nat \<Rightarrow> 'u::len sums \<Rightarrow> 'u sums" where
  "DO2 buf i st = DO1 buf (i + 1) (DO1 buf i st)"

definition DO4 :: "u8 list \<Rightarrow> nat \<Rightarrow> 'u::len sums \<Rightarrow> 'u sums" where
  "DO4 buf i st = DO2 buf (i + 2) (DO2 buf i st)"

definition DO8 :: "u8 list \<Rightarrow> nat \<Rightarrow> 'u::len sums \<Rightarrow> 'u sums" where
  "DO8 buf i st = DO4 buf (i + 4) (DO4 buf i st)"

definition DO16 :: "u8 list \<Rightarrow> 'u::len sums \<Rightarrow> 'u sums" where
  "DO16 buf st = DO8 buf 8 (DO8 buf 0 st)"

text \<open>The loops of \<open>adler32_z\<close>: a byte at a time, \<open>n\<close> rounds of 16 bytes, the blocks of
  \<open>NMAX\<close> bytes, and the last bytes.\<close>

fun byte_loop :: "u8 list \<Rightarrow> 'u::len sums \<Rightarrow> 'u sums" where
  "byte_loop [] st = st"
| "byte_loop (b # buf) (adler, sum2) =
     (let adler' = adler + ucast b in byte_loop buf (adler', sum2 + adler'))"

fun rounds16 :: "nat \<Rightarrow> u8 list \<Rightarrow> 'u::len sums \<Rightarrow> 'u sums \<times> u8 list" where
  "rounds16 0 buf st = (st, buf)"
| "rounds16 (Suc n) buf st = rounds16 n (drop 16 buf) (DO16 buf st)"

definition MODs :: "'u::len sums \<Rightarrow> 'u sums" where
  "MODs st = (fst st mod of_nat BASE, snd st mod of_nat BASE)"

function nmax_loop :: "u8 list \<Rightarrow> 'u::len sums \<Rightarrow> 'u sums \<times> u8 list" where
  "nmax_loop buf st =
     (if NMAX \<le> length buf
      then let r = rounds16 (NMAX div 16) buf st in nmax_loop (drop NMAX buf) (MODs (fst r))
      else (st, buf))"
  by pat_completeness auto
termination
  by (relation "measure (\<lambda>(buf, st). length buf)") (auto simp: NMAX_def)

function tail_loop :: "u8 list \<Rightarrow> 'u::len sums \<Rightarrow> 'u sums" where
  "tail_loop buf st =
     (if 16 \<le> length buf then tail_loop (drop 16 buf) (DO16 buf st) else byte_loop buf st)"
  by pat_completeness auto
termination
  by (relation "measure (\<lambda>(buf, st). length buf)") auto

declare nmax_loop.simps [simp del] tail_loop.simps [simp del]

section \<open>The checksum functions\<close>

text \<open>\<open>adler32_buf\<close> is \<open>adler32_z\<close> on a readable buffer of exactly \<open>len\<close> bytes.\<close>

definition adler32_buf :: "'u::len word \<Rightarrow> u8 list \<Rightarrow> 'u word" where
  "adler32_buf adler0 buf =
     (let sum2 = drop_bit 16 adler0 AND 0xffff; adler = adler0 AND 0xffff in
      if length buf = 1 then
        let adler = adler + ucast (buf ! 0);
            adler = (if of_nat BASE \<le> adler then adler - of_nat BASE else adler);
            sum2 = sum2 + adler;
            sum2 = (if of_nat BASE \<le> sum2 then sum2 - of_nat BASE else sum2)
        in adler OR push_bit 16 sum2
      else if length buf < 16 then
        let st = byte_loop buf (adler, sum2);
            adler = (if of_nat BASE \<le> fst st then fst st - of_nat BASE else fst st);
            sum2 = snd st mod of_nat BASE
        in adler OR push_bit 16 sum2
      else
        let r = nmax_loop buf (adler, sum2);
            st = (if snd r \<noteq> [] then MODs (tail_loop (snd r) (fst r)) else fst r)
        in fst st OR push_bit 16 (snd st))"

text \<open>\<open>adler32_z\<close> itself: \<open>None\<close> as buffer is \<open>Z_NULL\<close>; the result \<open>None\<close> is a read through
  a null pointer or past the end of the buffer.\<close>

definition adler32_z :: "'u::len word \<Rightarrow> u8 list option \<Rightarrow> nat \<Rightarrow> 'u word option" where
  "adler32_z adler buf len =
     (case buf of
        None \<Rightarrow> if len = 1 then None else Some 1
      | Some bs \<Rightarrow> if length bs < len then None else Some (adler32_buf adler (take len bs)))"

definition adler32 :: "'u::len word \<Rightarrow> u8 list option \<Rightarrow> u32 \<Rightarrow> 'u word option" where
  "adler32 adler buf len = adler32_z adler buf (unat len)"

definition adler32_combine_impl :: "'u::len word \<Rightarrow> 'u word \<Rightarrow> int \<Rightarrow> 'u word" where
  "adler32_combine_impl adler1 adler2 len2 =
     (if len2 < 0 then 0xffffffff
      else
        let B = of_nat BASE;
            rem = of_int (len2 mod int BASE);
            sum1 = adler1 AND 0xffff;
            sum2 = (rem * sum1) mod B;
            sum1 = sum1 + ((adler2 AND 0xffff) + B - 1);
            sum2 = sum2 + ((drop_bit 16 adler1 AND 0xffff) + (drop_bit 16 adler2 AND 0xffff) + B - rem);
            sum1 = (if B \<le> sum1 then sum1 - B else sum1);
            sum1 = (if B \<le> sum1 then sum1 - B else sum1);
            sum2 = (if push_bit 1 B \<le> sum2 then sum2 - push_bit 1 B else sum2);
            sum2 = (if B \<le> sum2 then sum2 - B else sum2)
        in sum1 OR push_bit 16 sum2)"

definition adler32_combine :: "'u::len word \<Rightarrow> 'u word \<Rightarrow> int \<Rightarrow> 'u word" where
  "adler32_combine adler1 adler2 len2 = adler32_combine_impl adler1 adler2 len2"

section \<open>Reference\<close>

text \<open>
  \<open>adler_ref\<close> is the checksum with a reduction after every byte, \<open>adler_spec\<close> the closed form
  of RFC 1950.  The code reduces once per \<open>NMAX\<close> bytes; that its sums do not overflow 32 bits
  before that is \<open>raw_sums_block\<close>.
\<close>

fun adler_ref :: "u8 list \<Rightarrow> nat \<times> nat \<Rightarrow> nat \<times> nat" where
  "adler_ref [] ab = ab"
| "adler_ref (x # xs) (a, b) =
     (let a' = (a + unat x) mod BASE in adler_ref xs (a', (b + a') mod BASE))"

definition halves :: "'u::len word \<Rightarrow> nat \<times> nat" where
  "halves c = (unat (c AND 0xffff), unat (drop_bit 16 c AND 0xffff))"

definition valid_adler :: "'u::len word \<Rightarrow> bool" where
  "valid_adler c \<longleftrightarrow> unat c < 2 ^ 32 \<and> fst (halves c) < BASE \<and> snd (halves c) < BASE"

fun raw_sums :: "u8 list \<Rightarrow> nat \<times> nat \<Rightarrow> nat \<times> nat" where
  "raw_sums [] ab = ab"
| "raw_sums (x # xs) (a, b) = raw_sums xs (a + unat x, b + (a + unat x))"

subsection \<open>unrolled loops\<close>

lemma byte_loop_append: "byte_loop (xs @ ys) st = byte_loop ys (byte_loop xs st)"
  by (induction xs st rule: byte_loop.induct) (simp_all add: Let_def)

lemma adler_ref_append: "adler_ref (xs @ ys) ab = adler_ref ys (adler_ref xs ab)"
  by (induction xs ab rule: adler_ref.induct) (simp_all add: Let_def)

lemma byte_loop_chunks:
  "byte_loop (take m (drop (i + n) buf)) (byte_loop (take n (drop i buf)) st)
   = byte_loop (take (n + m) (drop i buf)) st"
  by (simp add: byte_loop_append take_add drop_drop add.commute [of i n])

lemma DO1_eq: "i < length buf \<Longrightarrow> DO1 buf i st = byte_loop (take 1 (drop i buf)) st"
  by (cases st) (simp add: DO1_def Let_def take_Suc hd_drop_conv_nth)

lemma DO2_eq: "i + 2 \<le> length buf \<Longrightarrow> DO2 buf i st = byte_loop (take 2 (drop i buf)) st"
  using byte_loop_chunks [of 1 i 1 buf st] by (simp add: DO2_def DO1_eq numeral_2_eq_2)

lemma DO4_eq: "i + 4 \<le> length buf \<Longrightarrow> DO4 buf i st = byte_loop (take 4 (drop i buf)) st"
  using byte_loop_chunks [of 2 i 2 buf st] by (simp add: DO4_def DO2_eq)

lemma DO8_eq: "i + 8 \<le> length buf \<Longrightarrow> DO8 buf i st = byte_loop (take 8 (drop i buf)) st"
  using byte_loop_chunks [of 4 i 4 buf st] by (simp add: DO8_def DO4_eq)

lemma DO16_eq: "16 \<le> length buf \<Longrightarrow> DO16 buf st = byte_loop (take 16 buf) st"
  using byte_loop_chunks [of 8 0 8 buf st] by (simp add: DO16_def DO8_eq)

lemma rounds16_eq:
  "16 * n \<le> length buf \<Longrightarrow>
   rounds16 n buf st = (byte_loop (take (16 * n) buf) st, drop (16 * n) buf)"
proof (induction n buf st rule: rounds16.induct)
  case (2 n buf st)
  have "take (16 + 16 * n) buf = take 16 buf @ take (16 * n) (drop 16 buf)"
    by (rule take_add)
  with 2 show ?case by (simp add: DO16_eq byte_loop_append drop_drop add.commute)
qed simp

lemma tail_loop_eq: "tail_loop buf st = byte_loop buf st"
proof (induction buf st rule: tail_loop.induct)
  case (1 buf st)
  show ?case
  proof (cases "16 \<le> length buf")
    case True
    then have "tail_loop buf st = byte_loop (drop 16 buf) (byte_loop (take 16 buf) st)"
      using 1 by (simp add: tail_loop.simps [of buf st] DO16_eq)
    also have "\<dots> = byte_loop (take 16 buf @ drop 16 buf) st"
      by (simp only: byte_loop_append)
    finally show ?thesis by simp
  next
    case False
    then show ?thesis by (simp add: tail_loop.simps [of buf st])
  qed
qed

subsection \<open>No overflow\<close>

lemma raw_sums_mono: "fst ab \<le> fst (raw_sums xs ab) \<and> snd ab \<le> snd (raw_sums xs ab)"
  by (induction xs ab rule: raw_sums.induct) auto

lemma raw_sums_bound:
  "a \<le> A \<Longrightarrow> b \<le> B \<Longrightarrow> fst (raw_sums xs (a, b)) \<le> A + 255 * length xs \<and>
   snd (raw_sums xs (a, b)) \<le> B + length xs * A + 255 * (\<Sum>i\<le>length xs. i)"
proof (induction xs arbitrary: a b A B)
  case (Cons x xs)
  have "unat x \<le> 255" using unat_lt_len [of x] by simp
  with Cons.prems have "a + unat x \<le> A + 255" "b + (a + unat x) \<le> B + (A + 255)" by auto
  from Cons.IH [OF this] show ?case by (simp add: algebra_simps)
qed auto

lemma byte_loop_unat:
  fixes adler sum2 :: "'u::len word"
  assumes "8 \<le> LENGTH('u)"
    and "fst (raw_sums xs (unat adler, unat sum2)) < 2 ^ LENGTH('u)"
    and "snd (raw_sums xs (unat adler, unat sum2)) < 2 ^ LENGTH('u)"
  shows "map_prod unat unat (byte_loop xs (adler, sum2)) = raw_sums xs (unat adler, unat sum2)"
  using assms(2,3)
proof (induction xs arbitrary: adler sum2)
  case (Cons x xs)
  have "unat x < 2 ^ LENGTH('u)"
    using unat_lt_len [of x] power_len_ge [OF assms(1)] by simp
  then have x: "unat (ucast x :: 'u word) = unat x"
    using assms(1) by (simp add: unsigned_ucast_eq take_bit_nat_eq_self )
  let ?a = "unat adler + unat x" and ?b = "unat sum2 + (unat adler + unat x)"
  have "?a < 2 ^ LENGTH('u)" "?b < 2 ^ LENGTH('u)"
    using Cons.prems raw_sums_mono [of "(?a, ?b)" xs] by auto
  then have "unat (adler + ucast x) = ?a" "unat (sum2 + (adler + ucast x)) = ?b"
    by (simp_all add: unat_add_small x)
  with Cons show ?case by (simp add: Let_def)
qed simp

lemma raw_sums_mod:
  "adler_ref xs (a mod BASE, b mod BASE) = map_prod (\<lambda>a. a mod BASE) (\<lambda>b. b mod BASE) (raw_sums xs (a, b))"
  by (induction xs arbitrary: a b) (simp_all add: Let_def mod_simps)


lemma sum_upto_nat: "2 * (\<Sum>i\<le>n. i) = n * (n + 1)" for n :: nat
  by (induction n) auto

lemma adler_ref_less:
  "fst ab < BASE \<Longrightarrow> snd ab < BASE \<Longrightarrow>
   fst (adler_ref xs ab) < BASE \<and> snd (adler_ref xs ab) < BASE"
  by (induction xs ab rule: adler_ref.induct) (simp_all add: Let_def BASE_def)

lemma raw_sums_block:
  assumes "a < BASE" and "b < BASE" and "length xs \<le> NMAX"
  shows "fst (raw_sums xs (a, b)) < 2 ^ 32" and "snd (raw_sums xs (a, b)) < 2 ^ 32"
proof -
  let ?n = "length xs"
  have ab: "a \<le> 65520" "b \<le> 65520" using assms by (auto simp: BASE_def)
  have n: "?n \<le> 5552" using assms by (simp add: NMAX_def)
  have "?n * (?n + 1) \<le> 5552 * (5552 + 1)" by (rule mult_le_mono) (use n in simp_all)
  then have "2 * (\<Sum>i\<le>?n. i) \<le> 5552 * (5552 + 1)" unfolding sum_upto_nat .
  then show "fst (raw_sums xs (a, b)) < 2 ^ 32" "snd (raw_sums xs (a, b)) < 2 ^ 32"
    using raw_sums_bound [OF ab, of xs] n by simp_all
qed

lemma MODs_unat:
  assumes "32 \<le> LENGTH('u::len)"
  shows "map_prod unat unat (MODs st) = 
    (unat (fst (st :: 'u sums)) mod BASE, unat (snd st) mod BASE)"
proof -
  have "BASE < 2 ^ LENGTH('u)"
    using power_len_ge [OF assms] by (simp add: BASE_def)
  then show ?thesis by (simp add: MODs_def unat_mod_word unat_of_nat_small map_prod_def)
qed

lemma block_mod:
  fixes a b :: "'u::len word"
  assumes "32 \<le> LENGTH('u)" and "unat a < BASE" and "unat b < BASE" and "length xs \<le> NMAX"
  shows "map_prod unat unat (MODs (byte_loop xs (a, b))) = adler_ref xs (unat a, unat b)"
proof -
  have "fst (raw_sums xs (unat a, unat b)) < 2 ^ LENGTH('u)"
    "snd (raw_sums xs (unat a, unat b)) < 2 ^ LENGTH('u)"
    using raw_sums_block [OF assms(2-4)] power_len_ge [OF assms(1)] by auto
  then have "map_prod unat unat (byte_loop xs (a, b)) = raw_sums xs (unat a, unat b)"
    using assms(1) by (intro byte_loop_unat) auto
  moreover obtain a' b' where "byte_loop xs (a, b) = (a', b')" by force
  ultimately show ?thesis
    using raw_sums_mod [of xs "unat a" "unat b"] assms(2,3)
    by (simp add: MODs_unat [OF assms(1)]) (metis map_prod_simp)
qed

lemma nmax_loop_unat:
  fixes st :: "'u::len sums"
  assumes "32 \<le> LENGTH('u)" and "unat (fst st) < BASE" and "unat (snd st) < BASE"
  shows "\<exists>n. n \<le> length buf \<and> snd (nmax_loop buf st) = drop n buf \<and> length (drop n buf) < NMAX \<and>
    map_prod unat unat (fst (nmax_loop buf st)) = adler_ref (take n buf) (map_prod unat unat st)"
  using assms(2,3)
proof (induction buf st rule: nmax_loop.induct)
  case (1 buf st)
  show ?case
  proof (cases "NMAX \<le> length buf")
    case True
    obtain a b where st: "st = (a, b)" by (cases st)
    let ?st' = "MODs (byte_loop (take NMAX buf) st)"
    have r: "fst (rounds16 (NMAX div 16) buf st) = byte_loop (take NMAX buf) st"
      using True by (simp add: rounds16_eq NMAX_def)
    have ref: "map_prod unat unat ?st' = adler_ref (take NMAX buf) (map_prod unat unat st)"
      using block_mod [OF assms(1), of a b "take NMAX buf"] 1(2,3) by (simp add: st)
    then have less: "unat (fst ?st') < BASE" "unat (snd ?st') < BASE"
      using adler_ref_less [of "map_prod unat unat st" "take NMAX buf"] 1(2,3)
      by (metis fst_map_prod snd_map_prod)+
    obtain n where n: "n \<le> length (drop NMAX buf)" "length (drop n (drop NMAX buf)) < NMAX"
      "snd (nmax_loop (drop NMAX buf) ?st') = drop n (drop NMAX buf)"
      "map_prod unat unat (fst (nmax_loop (drop NMAX buf) ?st')) =
        adler_ref (take n (drop NMAX buf)) (map_prod unat unat ?st')"
      using 1(1) [OF True refl] less unfolding r by blast
    have "nmax_loop buf st = nmax_loop (drop NMAX buf) ?st'"
      using True by (simp add: nmax_loop.simps [of buf st] r)
    moreover have "adler_ref (take (NMAX + n) buf) (map_prod unat unat st) =
        adler_ref (take n (drop NMAX buf)) (map_prod unat unat ?st')"
      by (simp add: take_add adler_ref_append ref)
    ultimately show ?thesis
      using n True by (intro exI [of _ "NMAX + n"]) (auto simp: drop_drop add.commute)
  next
    case False
    then show ?thesis
      by (intro exI [of _ 0]) (simp add: nmax_loop.simps [of buf st])
  qed
qed

lemma mask_16: "0xffff = (mask 16 :: 'u::len word)"
  by (simp add: mask_numeral mask_eq_exp_minus_1)

lemma halves_pack:
  fixes a b :: "'u::len word"
  assumes "32 \<le> LENGTH('u)" and "unat a < 2 ^ 16" and "unat b < 2 ^ 16"
  shows "halves (a OR push_bit 16 b) = (unat a, unat b)"
    and "unat (a OR push_bit 16 b) < 2 ^ 32"
proof -
  have bits: "\<And>i. bit a i \<Longrightarrow> i < 16" "\<And>i. bit b i \<Longrightarrow> i < 16"
    using assms by (blast dest: bit_less_imp_less)+
  have "(a OR push_bit 16 b) AND mask 16 = a"
    by (rule bit_word_eqI) (use bits in \<open>auto simp: bit_simps\<close>)
  moreover have "drop_bit 16 (a OR push_bit 16 b) AND mask 16 = b"
    by (rule bit_word_eqI) (use bits assms(1) in \<open>fastforce simp: bit_simps\<close>)
  ultimately show "halves (a OR push_bit 16 b) = (unat a, unat b)"
    by (simp add: halves_def mask_16)
  show "unat (a OR push_bit 16 b) < 2 ^ 32"
  proof (rule unat_less_exp, rule bit_word_eqI)
    fix n
    show "bit (take_bit 32 (a OR push_bit 16 b)) n = bit (a OR push_bit 16 b) n"
      using bits(1) [of n] bits(2) [of "n - 16"] by (auto simp: bit_simps)
  qed
qed


lemma valid_adler_less:
  "valid_adler c \<Longrightarrow> unat (c AND 0xffff) < BASE \<and> unat (drop_bit 16 c AND 0xffff) < BASE"
  by (simp add: valid_adler_def halves_def)

lemma pack_eq:
  fixes st :: "'u::len sums"
  assumes "32 \<le> LENGTH('u)" and "map_prod unat unat st = ab" and "fst ab < BASE" and "snd ab < BASE"
  shows "valid_adler (fst st OR push_bit 16 (snd st)) \<and> halves (fst st OR push_bit 16 (snd st)) = ab"
proof -
  have "unat (fst st) < 2 ^ 16" "unat (snd st) < 2 ^ 16" "(unat (fst st), unat (snd st)) = ab"
    using assms by (auto simp: BASE_def map_prod_conv)
  then show ?thesis
    using halves_pack [OF assms(1)] assms(3,4) unfolding valid_adler_def by metis
qed

lemma unat_BASE:
  assumes "32 \<le> LENGTH('u::len)"
  shows "unat (of_nat BASE :: 'u word) = BASE"
  using power_len_ge [OF assms] by (intro unat_of_nat_small) (simp add: BASE_def)

lemma unat_cond_sub:
  "unat (if m \<le> a then a - m else a) = (if unat m \<le> unat a then unat a - unat m else unat a)"
  by (simp add: word_le_nat_alt unat_sub_small)

lemma cond_sub_BASE:
  fixes a :: "'u::len word"
  assumes "32 \<le> LENGTH('u)" and "unat a < 2 * BASE"
  shows "unat (if of_nat BASE \<le> a then a - of_nat BASE else a) = unat a mod BASE"
  using assms(2) by (simp add: unat_cond_sub unat_BASE [OF assms(1)] le_mod_geq)

lemma long_loop_unat:
  fixes st :: "'u::len sums" and buf :: "u8 list"
  assumes "32 \<le> LENGTH('u)" and "unat (fst st) < BASE" and "unat (snd st) < BASE"
  defines "r \<equiv> nmax_loop buf st"
  shows "map_prod unat unat (if snd r \<noteq> [] then MODs (tail_loop (snd r) (fst r)) else fst r)
    = adler_ref buf (map_prod unat unat st)"
proof -
  obtain n where n: "snd r = drop n buf" "length (drop n buf) < NMAX"
    "map_prod unat unat (fst r) = adler_ref (take n buf) (map_prod unat unat st)"
    using nmax_loop_unat [OF assms(1-3)] unfolding r_def by blast
  obtain a b where ab: "fst r = (a, b)" by force
  have "unat a < BASE" "unat b < BASE"
    using adler_ref_less [of "map_prod unat unat st" "take n buf"] assms(2,3)
    by (simp_all flip: n(3) add: ab)
  then have "map_prod unat unat (MODs (tail_loop (snd r) (fst r)))
      = adler_ref (drop n buf) (adler_ref (take n buf) (map_prod unat unat st))"
    using block_mod [OF assms(1), of a b "drop n buf"] n
    by (simp add: tail_loop_eq ab flip: n(3))
  also have "\<dots> = adler_ref buf (map_prod unat unat st)"
    by (simp flip: adler_ref_append)
  finally show ?thesis using n by simp
qed

lemma short_loop_unat:
  fixes a b :: "'u::len word" and buf :: "u8 list"
  assumes "32 \<le> LENGTH('u)" and "unat a < BASE" and "unat b < BASE" and "length buf < 16"
  defines "st \<equiv> byte_loop buf (a, b)"
  shows "unat (if of_nat BASE \<le> fst st then fst st - of_nat BASE else fst st)
      = fst (adler_ref buf (unat a, unat b))"
    and "unat (snd st mod of_nat BASE) = snd (adler_ref buf (unat a, unat b))"
proof -
  let ?raw = "raw_sums buf (unat a, unat b)"
  have len: "length buf \<le> NMAX" using assms(4) by (simp add: NMAX_def)
  have "fst ?raw < 2 ^ LENGTH('u)" "snd ?raw < 2 ^ LENGTH('u)"
    using raw_sums_block [OF assms(2,3) len] power_len_ge [OF assms(1)] by auto
  then have st: "map_prod unat unat st = ?raw"
    unfolding st_def using assms(1) by (intro byte_loop_unat) auto
  have "unat a \<le> 65520" using assms(2) by (simp add: BASE_def)
  then have "fst ?raw < 2 * BASE"
    using raw_sums_bound [of "unat a" 65520 "unat b" "unat b" buf] assms(4) by (simp add: BASE_def)
  then have "unat (fst st) < 2 * BASE" by (metis st fst_map_prod)
  moreover have "adler_ref buf (unat a, unat b) = (unat (fst st) mod BASE, unat (snd st) mod BASE)"
    using raw_sums_mod [of buf "unat a" "unat b"] assms(2,3) by (cases st) (simp flip: st)
  ultimately show "unat (if of_nat BASE \<le> fst st then fst st - of_nat BASE else fst st)
      = fst (adler_ref buf (unat a, unat b))"
    "unat (snd st mod of_nat BASE) = snd (adler_ref buf (unat a, unat b))"
    using cond_sub_BASE [OF assms(1)] MODs_unat [OF assms(1), of st]
    by (simp_all add: MODs_def)
qed

lemma one_byte_unat:
  fixes a b :: "'u::len word" and x :: u8
  assumes u: "32 \<le> LENGTH('u)" and "unat a < BASE" and "unat b < BASE"
  defines "a' \<equiv> (if of_nat BASE \<le> a + ucast x then a + ucast x - of_nat BASE else a + ucast x)"
  defines "b' \<equiv> (if of_nat BASE \<le> b + a' then b + a' - of_nat BASE else b + a')"
  shows "(unat a', unat b') = adler_ref [x] (unat a, unat b)"
proof -
  have big: "2 * BASE < 2 ^ LENGTH('u)" using power_len_ge [OF u] by (simp add: BASE_def)
  have ux: "unat (ucast x :: 'u word) = unat x"
    using unat_u8_le [of x] big
    by (simp add: unsigned_ucast_eq take_bit_nat_eq_self BASE_def)
  have sum: "unat (a + ucast x) = unat a + unat x"
    using unat_u8_le [of x] assms(2) big by (simp add: unat_add_small ux BASE_def)
  then have a': "unat a' = (unat a + unat x) mod BASE"
    using cond_sub_BASE [OF u, of "a + ucast x"] unat_u8_le [of x] assms(2)
    by (simp add: a'_def BASE_def)
  then have "unat a' < BASE" by (simp add: BASE_def)
  then have sum': "unat (b + a') = unat b + unat a'"
    using assms(3) big by (simp add: unat_add_small)
  then have "unat b' = (unat b + unat a') mod BASE"
    using cond_sub_BASE [OF u, of "b + a'"] assms(3) \<open>unat a' < BASE\<close> by (simp add: b'_def)
  then show ?thesis by (simp add: a' Let_def)
qed

lemma adler32_buf_correct:
  fixes c :: "'u::len word"
  assumes "32 \<le> LENGTH('u)" and "valid_adler c"
  shows "valid_adler (adler32_buf c buf) \<and> halves (adler32_buf c buf) = adler_ref buf (halves c)"
proof -
  define a where "a = c AND 0xffff"
  define b where "b = drop_bit 16 c AND 0xffff"
  have lt: "unat a < BASE" "unat b < BASE" and h: "halves c = (unat a, unat b)"
    using valid_adler_less [OF assms(2)] by (auto simp: a_def b_def halves_def)
  have "\<exists>st. adler32_buf c buf = fst st OR push_bit 16 (snd st) \<and> 
      map_prod unat unat st = adler_ref buf (unat a, unat b)"
  proof -
    consider "length buf = 1" | "length buf \<noteq> 1" "length buf < 16" | "16 \<le> length buf" by linarith
    then show ?thesis
    proof cases
      case 1
      then obtain x where x: "buf = [x]" by (auto simp: length_Suc_conv)
      let ?a = "if of_nat BASE \<le> a + ucast x then a + ucast x - of_nat BASE else a + ucast x"
      show ?thesis
        using one_byte_unat [OF assms(1) lt, of x]
        by (intro exI [of _ "(?a, if of_nat BASE \<le> b + ?a then b + ?a - of_nat BASE else b + ?a)"])
          (simp add: x adler32_buf_def Let_def del: adler_ref.simps flip: a_def b_def)
    next
      case 2
      let ?st = "byte_loop buf (a, b)"
      show ?thesis
        using 2 short_loop_unat [OF assms(1) lt 2(2)]
        by (intro exI [of _ "(if of_nat BASE \<le> fst ?st then fst ?st - of_nat BASE else fst ?st,
              snd ?st mod of_nat BASE)"])
          (simp add: adler32_buf_def a_def b_def Let_def prod_eq_iff)
    next
      case 3
      let ?r = "nmax_loop buf (a, b)"
      show ?thesis
        using 3 long_loop_unat [OF assms(1), of "(a, b)" buf] lt
        by (intro exI [of _ "if snd ?r \<noteq> [] then MODs (tail_loop (snd ?r) (fst ?r)) else fst ?r"])
          (simp add: adler32_buf_def Let_def flip: a_def b_def)
    qed
  qed
  then show ?thesis
    using pack_eq [OF assms(1)] adler_ref_less [of "(unat a, unat b)" buf] lt h by fastforce
qed


subsection \<open>Combination\<close>

lemma raw_sums_linear:
  "raw_sums xs (a, b) = (a + fst (raw_sums xs (0, 0)), b + length xs * a + snd (raw_sums xs (0, 0)))"
proof (induction xs arbitrary: a b)
  case (Cons x xs)
  show ?case
    using Cons [of "a + unat x" "b + (a + unat x)"] Cons [of "unat x" "unat x"] by (simp add: distrib_left)
qed simp

lemma adler_ref_mod:
  assumes "a < BASE" and "b < BASE"
  shows "adler_ref xs (a, b) = (fst (raw_sums xs (a, b)) mod BASE, snd (raw_sums xs (a, b)) mod BASE)"
  using raw_sums_mod [of xs a b] assms by (simp add: map_prod_conv)

lemma halves_inj:
  assumes "valid_adler (c :: 'u::len word)" and "valid_adler d" and "halves c = halves d"
  shows "c = d"
proof -
  have "unat w = fst (halves w) + 2 ^ 16 * snd (halves w)" if "unat w < 2 ^ 32" for w :: "'u word"
    using that by (simp add: halves_def mask_16 unat_and_mask unat_drop_bit)
  then have "unat c = unat d" using assms unfolding valid_adler_def by metis
  then show ?thesis by (simp add: word_unat_eq_iff)
qed

lemma twice_cond_sub_mod:
  fixes m x :: nat
  shows "x < 3 * m \<Longrightarrow> (let y = (if m \<le> x then x - m else x) in if m \<le> y then y - m else y) = x mod m"
    and "x < 4 * m \<Longrightarrow> (let y = (if 2 * m \<le> x then x - 2 * m else x) in if m \<le> y then y - m else y) = x mod m"
  by (auto simp: Let_def le_mod_geq)

lemma combine_sums:
  fixes c d :: "'u::len word"
  assumes u: "32 \<le> LENGTH('u)" and "valid_adler c" and "valid_adler d"
  defines "a1 \<equiv> fst (halves c)" and "b1 \<equiv> snd (halves c)"
    and "a2 \<equiv> fst (halves d)" and "b2 \<equiv> snd (halves d)"
  shows "valid_adler (adler32_combine c d (int n)) \<and> halves (adler32_combine c d (int n))
    = ((a1 + (a2 + BASE - 1)) mod BASE, (n mod BASE * a1 mod BASE + (b1 + b2 + BASE - n mod BASE)) mod BASE)"
proof -
  let ?B = "of_nat BASE :: 'u word" and ?r = "n mod BASE"
  let ?rem = "of_nat ?r :: 'u word"
  let ?s1 = "c AND 0xffff" and ?h1 = "drop_bit 16 c AND 0xffff"
  let ?s2 = "d AND 0xffff" and ?h2 = "drop_bit 16 d AND 0xffff"
  let ?t1 = "?s1 + (?s2 + ?B - 1)" and ?t2 = "(?rem * ?s1) mod ?B + (?h1 + ?h2 + ?B - ?rem)"
  have u: "unat ?s1 = a1" "unat ?h1 = b1" "unat ?s2 = a2" "unat ?h2 = b2" "unat ?B = BASE"
    using unat_BASE [OF u] by (simp_all add: a1_def b1_def a2_def b2_def halves_def)
  have big: "2 ^ 32 \<le> (2::nat) ^ LENGTH('u)" by (rule power_len_ge [OF assms(1)])
  have b4: "4 * BASE < 2 ^ LENGTH('u)" using big by (simp add: BASE_def)
  have pm: "?r * a1 mod BASE < BASE" by (simp add: BASE_def)
  have lt: "a1 < BASE" "b1 < BASE" "a2 < BASE" "b2 < BASE" "?r < BASE"
    using assms(2,3) by (simp_all add: valid_adler_def a1_def b1_def a2_def b2_def BASE_def)
  have r: "unat ?rem = ?r" using lt(5) big by (intro unat_of_nat_small) (simp add: BASE_def)
  have "?r * a1 \<le> 65520 * 65520" by (rule mult_le_mono) (use lt in \<open>simp_all add: BASE_def\<close>)
  then have m: "unat ((?rem * ?s1) mod ?B) = ?r * a1 mod BASE"
    using big by (simp add: unat_mod_word unat_mult_small u r)
  have s: "unat (?s2 + ?B) = a2 + BASE" "unat (?h1 + ?h2) = b1 + b2"
    using lt b4 by (simp_all add: unat_add_small u)
  then have s': "unat (?s2 + ?B - 1) = a2 + BASE - 1" "unat (?h1 + ?h2 + ?B) = b1 + b2 + BASE"
    using lt b4 by (simp_all add: unat_add_small unat_sub_small u)
  then have "unat (?h1 + ?h2 + ?B - ?rem) = b1 + b2 + BASE - ?r"
    using lt(5) by (simp add: unat_sub_small r)
  then have t2: "unat ?t2 = ?r * a1 mod BASE + (b1 + b2 + BASE - ?r)"
    using unat_add_small [of "(?rem * ?s1) mod ?B" "?h1 + ?h2 + ?B - ?rem"] lt b4 pm
    unfolding m by linarith
  have t: "unat ?t1 = a1 + (a2 + BASE - 1)"
    using s' lt b4 by (simp add: unat_add_small u)
  have p: "unat (push_bit 1 ?B) = 2 * BASE"
    using unat_push_bit_small [of ?B 1] b4 unfolding u by simp
  let ?x = "if ?B \<le> ?t1 then ?t1 - ?B else ?t1"
  let ?y = "if push_bit 1 ?B \<le> ?t2 then ?t2 - push_bit 1 ?B else ?t2"
  define st where "st = (if ?B \<le> ?x then ?x - ?B else ?x, if ?B \<le> ?y then ?y - ?B else ?y)"
  have "adler32_combine c d (int n) = fst st OR push_bit 16 (snd st)"
    by (simp add: st_def adler32_combine_def adler32_combine_impl_def Let_def zmod_int [symmetric])
  moreover have "unat (fst st) = (a1 + (a2 + BASE - 1)) mod BASE"
    unfolding st_def fst_conv unat_cond_sub u t
    by (rule twice_cond_sub_mod(1) [unfolded Let_def]) (use lt in linarith)
  moreover have "unat (snd st) = (?r * a1 mod BASE + (b1 + b2 + BASE - ?r)) mod BASE"
    unfolding st_def snd_conv unat_cond_sub u t2 p
    by (rule twice_cond_sub_mod(2) [unfolded Let_def]) (use lt pm in linarith)
  ultimately show ?thesis
    using pack_eq [OF assms(1), of st] \<open>a1 < BASE\<close> by (simp add: map_prod_conv)
qed

definition adler_spec :: "u8 list \<Rightarrow> nat \<times> nat \<Rightarrow> nat \<times> nat" where
  "adler_spec xs ab =
     ((fst ab + (\<Sum>i<length xs. unat (xs ! i))) mod BASE,
      (snd ab + length xs * fst ab + (\<Sum>i<length xs. (length xs - i) * unat (xs ! i))) mod BASE)"

lemma raw_sums_closed:
  "raw_sums xs (0, 0) =
     (\<Sum>i<length xs. unat (xs ! i), \<Sum>i<length xs. (length xs - i) * unat (xs ! i))"
proof (induction xs)
  case (Cons x xs)
  then show ?case
    using raw_sums_linear [of xs "unat x" "unat x"]
    by (simp add: sum.lessThan_Suc_shift del: sum.lessThan_Suc)
qed simp

lemma adler_ref_spec:
  assumes "fst ab < BASE" and "snd ab < BASE"
  shows "adler_ref xs ab = adler_spec xs ab"
  using adler_ref_mod [of "fst ab" "snd ab" xs] raw_sums_linear [of xs "fst ab" "snd ab"] assms
  by (simp add: adler_spec_def raw_sums_closed)

lemma valid_adler_1: "32 \<le> LENGTH('u::len) \<Longrightarrow> valid_adler (1 :: 'u word)"
  and halves_1: "32 \<le> LENGTH('u::len) \<Longrightarrow> halves (1 :: 'u word) = (1, 0)"
  by (simp_all add: valid_adler_def halves_def BASE_def mask_16 unat_and_mask unat_drop_bit)

lemma adler32_buf_append:
  fixes c :: "'u::len word"
  assumes "32 \<le> LENGTH('u)" and "valid_adler c"
  shows "adler32_buf c (xs @ ys) = adler32_buf (adler32_buf c xs) ys"
  using adler32_buf_correct [OF assms(1)] assms(2)
  by (intro halves_inj) (simp_all add: adler_ref_append)

lemma adler32_buf_Nil:
  fixes c :: "'u::len word"
  assumes "32 \<le> LENGTH('u)" and "valid_adler c"
  shows "adler32_buf c [] = c"
  using adler32_buf_correct [OF assms, of "[]"] assms by (intro halves_inj) simp_all

lemma combine_mod_snd:
  fixes m n :: nat
  assumes "0 < m"
  shows "(n mod m * a mod m + (b + (n + w) mod m + m - n mod m)) mod m = (b + n * a + w) mod m"
    (is "?l mod m = ?r mod m")
proof -
  define k1 k2 k3 where "k1 = int (n div m)" "k2 = int ((n + w) div m)" "k3 = int ((n mod m * a) div m)"
  define r y p where "r = int (n mod m)" "y = int ((n + w) mod m)" "p = int (n mod m * a mod m)"
  have "int m * k1 + r = int n" "int m * k2 + y = int (n + w)" "int m * k3 + p = int (n mod m * a)"
    unfolding k1_k2_k3_def r_y_p_def by (simp_all only: of_nat_mult [symmetric] of_nat_add [symmetric] mult_div_mod_eq)
  then have eqs: "r = int n - int m * k1" "y = int n + int w - int m * k2" "p = r * int a - int m * k3"
    by (simp_all add: r_y_p_def)
  have "p + (int b + y + int m - r) - (int b + int n * int a + int w)
      = int m * (k1 - k1 * int a - k3 - k2 + 1)"
    unfolding eqs by (simp add: algebra_simps)
  moreover have "int ?l = p + (int b + y + int m - r)"
    using assms by (simp add: r_y_p_def of_nat_diff less_imp_le trans_le_add2 del: of_nat_mod)
  ultimately have "int ?l - int ?r = int m * (k1 - k1 * int a - k3 - k2 + 1)"
    by simp
  then have "int ?l mod int m = int ?r mod int m" by (simp only: mod_eq_dvd_iff dvd_triv_left)
  then show ?thesis by (metis zmod_int nat_int)
qed

lemma combine_mod_fst:
  fixes m :: nat
  assumes "0 < m"
  shows "(a + ((1 + s) mod m + m - 1)) mod m = (a + s) mod m"
proof -
  have "(a + ((1 + s) mod m + m - 1)) = (1 + s) mod m + (a + (m - 1))" using assms by simp
  also have "\<dots> mod m = (1 + s + (a + (m - 1))) mod m" by (rule mod_add_left_eq)
  also have "1 + s + (a + (m - 1)) = a + s + m" using assms by simp
  finally show ?thesis by simp
qed

lemma adler32_combine_buf:
  fixes c :: "'u::len word"
  assumes u: "32 \<le> LENGTH('u)" and c: "valid_adler c"
  shows "adler32_combine c (adler32_buf 1 ys) (int (length ys)) = adler32_buf c ys"
proof (rule halves_inj)
  obtain a b where h: "halves c = (a, b)" by force
  have lt: "a < BASE" "b < BASE" using c by (simp_all add: valid_adler_def h)
  let ?n = "length ys" and ?S = "fst (raw_sums ys (0, 0))" and ?W = "snd (raw_sums ys (0, 0))"
  have d: "valid_adler (adler32_buf (1 :: 'u word) ys)"
    "halves (adler32_buf (1 :: 'u word) ys) = ((1 + ?S) mod BASE, (?n + ?W) mod BASE)"
    using adler32_buf_correct [OF u valid_adler_1 [OF u], of ys] adler_ref_mod [of 1 0 ys]
      raw_sums_linear [of ys 1 0] by (simp_all add: halves_1 [OF u] BASE_def)
  have "(?n mod BASE * a mod BASE + (b + (?n + ?W) mod BASE + BASE - ?n mod BASE)) mod BASE
      = (b + ?n * a + ?W) mod BASE"
    by (rule combine_mod_snd) (simp add: BASE_def)
  moreover have "(a + ((1 + ?S) mod BASE + BASE - 1)) mod BASE = (a + ?S) mod BASE"
    by (rule combine_mod_fst) (simp add: BASE_def)
  ultimately show "halves (adler32_combine c (adler32_buf 1 ys) (int ?n)) = halves (adler32_buf c ys)"
    using combine_sums [OF u c d(1), of ?n] adler32_buf_correct [OF u c, of ys]
      adler_ref_mod [OF lt, of ys] raw_sums_linear [of ys a b] by (simp add: h d(2))
  show "valid_adler (adler32_combine c (adler32_buf 1 ys) (int ?n))" "valid_adler (adler32_buf c ys)"
    using combine_sums [OF u c d(1), of ?n] adler32_buf_correct [OF u c, of ys] by simp_all
qed



interpretation adler: combinable_checksum
  "adler32_buf :: u32 \<Rightarrow> _" 1 valid_adler "\<lambda>c d n. adler32_combine c d (int n)"
  by unfold_locales
    (simp_all add: valid_adler_1 adler32_buf_correct adler32_buf_append adler32_buf_Nil adler32_combine_buf)

interpretation adler64: combinable_checksum
  "adler32_buf :: u64 \<Rightarrow> _" 1 valid_adler "\<lambda>c d n. adler32_combine c d (int n)"
  by unfold_locales
    (simp_all add: valid_adler_1 adler32_buf_correct adler32_buf_append adler32_buf_Nil adler32_combine_buf)

section \<open>The macros for processors without division\<close>

text \<open>\<open>CHOP\<close>, \<open>MOD28\<close>, \<open>MOD\<close> and \<open>MOD63\<close> under \<open>NO_DIVIDE\<close>.\<close>

definition CHOP :: "'u::len word \<Rightarrow> 'u word" where
  "CHOP a = (let tmp = drop_bit 16 a; a = a AND 0xffff in a + (push_bit 4 tmp - tmp))"

definition MOD28_nodiv :: "'u::len word \<Rightarrow> 'u word" where
  "MOD28_nodiv a = (let a = CHOP a in if of_nat BASE \<le> a then a - of_nat BASE else a)"

definition MOD_nodiv :: "'u::len word \<Rightarrow> 'u word" where
  "MOD_nodiv a = MOD28_nodiv (CHOP a)"

definition MOD63_nodiv :: "u64 \<Rightarrow> u64" where
  "MOD63_nodiv a =
     (let tmp = drop_bit 32 a; a = a AND 0xffffffff;
          a = a + (push_bit 8 tmp - push_bit 5 tmp + tmp);
          tmp = drop_bit 16 a; a = a AND 0xffff; a = a + (push_bit 4 tmp - tmp);
          tmp = drop_bit 16 a; a = a AND 0xffff; a = a + (push_bit 4 tmp - tmp)
      in if of_nat BASE \<le> a then a - of_nat BASE else a)"

lemma fold_16: "(x mod 2 ^ 16 + 15 * (x div 2 ^ 16)) mod BASE = x mod BASE" for x :: nat
proof -
  have "x = x mod 2 ^ 16 + 15 * (x div 2 ^ 16) + x div 2 ^ 16 * BASE"
    using div_mult_mod_eq [of x "2 ^ 16"] by (simp add: BASE_def)
  then show ?thesis by (metis mod_mult_self1)
qed

lemma unat_CHOP:
  fixes a :: "'u::len word"
  assumes "16 * (unat a div 2 ^ 16) + 2 ^ 16 \<le> 2 ^ LENGTH('u)"
  shows "unat (CHOP a) = unat a mod 2 ^ 16 + 15 * (unat a div 2 ^ 16)"
proof -
  let ?q = "unat a div 2 ^ 16"
  have q: "unat (drop_bit 16 a) = ?q" by (simp add: unat_drop_bit)
  then have "unat (push_bit 4 (drop_bit 16 a)) = 16 * ?q"
    using unat_push_bit_small [of "drop_bit 16 a" 4] assms by simp
  then have "unat (push_bit 4 (drop_bit 16 a) - drop_bit 16 a) = 15 * ?q"
    using unat_sub_small [of "drop_bit 16 a" "push_bit 4 (drop_bit 16 a)"] q by simp
  moreover have "unat (a AND 0xffff) = unat a mod 2 ^ 16" "unat a mod 2 ^ 16 < 2 ^ 16"
    by (simp_all add: mask_16 unat_and_mask)
  ultimately show ?thesis
    unfolding CHOP_def Let_def using assms by (simp add: unat_add_small)
qed

lemma unat_CHOP_32:
  fixes a :: "'u::len word"
  assumes "32 \<le> LENGTH('u)" and "unat a < 2 ^ 32"
  shows "unat (CHOP a) = unat a mod 2 ^ 16 + 15 * (unat a div 2 ^ 16)"
proof (rule unat_CHOP)
  have "unat a div 2 ^ 16 < 2 ^ 16" using assms(2) by (simp add: less_mult_imp_div_less)
  then show "16 * (unat a div 2 ^ 16) + 2 ^ 16 \<le> 2 ^ LENGTH('u)"
    using power_len_ge [OF assms(1)] by simp
qed

lemma MOD28_nodiv_correct:
  fixes a :: "'u::len word"
  assumes "32 \<le> LENGTH('u)" and "unat a < 2 ^ 28"
  shows "unat (MOD28_nodiv a) = unat a mod BASE"
proof -
  have "unat a div 2 ^ 16 < 2 ^ 12" "unat a mod 2 ^ 16 < 2 ^ 16"
    using assms(2) by (simp_all add: less_mult_imp_div_less)
  then have "unat (CHOP a) < 2 * BASE"
    using unat_CHOP_32 [OF assms(1), of a] assms(2) by (simp add: BASE_def)
  then show ?thesis
    using unat_CHOP_32 [OF assms(1), of a] assms(2) fold_16 [of "unat a"]
    by (simp add: MOD28_nodiv_def Let_def cond_sub_BASE [OF assms(1)])
qed

lemma MOD_nodiv_correct:
  fixes a :: "'u::len word"
  assumes "32 \<le> LENGTH('u)" and "unat a < 2 ^ 32"
  shows "unat (MOD_nodiv a) = unat a mod BASE"
proof -
  have "unat a div 2 ^ 16 < 2 ^ 16" "unat a mod 2 ^ 16 < 2 ^ 16"
    using assms(2) by (simp_all add: less_mult_imp_div_less)
  then have "unat (CHOP a) < 2 ^ 28"
    unfolding unat_CHOP_32 [OF assms] by simp
  then show ?thesis
    using MOD28_nodiv_correct [OF assms(1), of "CHOP a"] fold_16 [of "unat a"]
    by (simp add: MOD_nodiv_def unat_CHOP_32 [OF assms])
qed

lemma MOD63_nodiv_correct:
  assumes "unat a < 2 ^ 63"
  shows "unat (MOD63_nodiv a) = unat a mod BASE"
proof -
  let ?t = "drop_bit 32 a"
  let ?q = "unat a div 2 ^ 32" and ?b = "(a AND 0xffffffff) + (push_bit 8 ?t - push_bit 5 ?t + ?t)"
  have q: "unat ?t = ?q" "?q < 2 ^ 31"
    using assms by (simp_all add: unat_drop_bit less_mult_imp_div_less)
  then have "unat (push_bit 8 ?t) = 256 * ?q" "unat (push_bit 5 ?t) = 32 * ?q"
    using unat_push_bit_small [of ?t 8] unat_push_bit_small [of ?t 5] by simp_all
  then have "unat (push_bit 8 ?t - push_bit 5 ?t) = 224 * ?q"
    using unat_sub_small [of "push_bit 5 ?t" "push_bit 8 ?t"] by simp
  then have "unat (push_bit 8 ?t - push_bit 5 ?t + ?t) = 225 * ?q"
    using q unat_add_small [of "push_bit 8 ?t - push_bit 5 ?t" ?t] by simp
  moreover have r: "unat (a AND 0xffffffff) = unat a mod 2 ^ 32" "unat a mod 2 ^ 32 < 2 ^ 32"
    using unat_and_mask [of a 32] by (simp_all add: mask_numeral mask_eq_exp_minus_1)
  ultimately have b: "unat ?b = unat a mod 2 ^ 32 + 225 * ?q"
    using q unat_add_small [of "a AND 0xffffffff" "push_bit 8 ?t - push_bit 5 ?t + ?t"] by simp
  then have lt: "unat ?b < 2 ^ 39" using q r by simp
  then have bq: "unat ?b div 2 ^ 16 < 2 ^ 23" "unat ?b mod 2 ^ 16 < 2 ^ 16"
    by (simp_all add: less_mult_imp_div_less)
  then have c: "unat (CHOP ?b) = unat ?b mod 2 ^ 16 + 15 * (unat ?b div 2 ^ 16)"
    by (intro unat_CHOP) simp
  then have "unat (CHOP ?b) < 2 ^ 28" using bq by simp
  then have "unat (MOD28_nodiv (CHOP ?b)) = unat ?b mod BASE"
    using MOD28_nodiv_correct [of "CHOP ?b"] fold_16 [of "unat ?b"] c by simp
  moreover have "MOD63_nodiv a = MOD28_nodiv (CHOP ?b)"
    by (simp only: MOD63_nodiv_def MOD28_nodiv_def CHOP_def Let_def)
  moreover have "unat a = unat ?b + ?q * 65551 * BASE"
    using div_mult_mod_eq [of "unat a" "2 ^ 32"] unfolding b by (simp add: BASE_def)
  ultimately show ?thesis by (metis mod_mult_self1)
qed

section \<open>Properties\<close>

text \<open>
  C12: on a readable buffer \<open>adler32_z\<close> returns, for every width of \<open>uLong\<close> from 32 bits, the
  valid checksum whose two halves are the sums of RFC 1950, whichever of its three paths it takes.
\<close>
theorem adler32_z_correct:
  fixes c :: "'u::len word"
  assumes "32 \<le> LENGTH('u)" and "valid_adler c" and "len \<le> length buf"
  shows "\<exists>r. adler32_z c (Some buf) len = Some r \<and> valid_adler r \<and>
    halves r = adler_spec (take len buf) (halves c)"
  using adler32_buf_correct [OF assms(1,2), of "take len buf"] assms(2,3)
  by (auto simp: adler32_z_def adler_ref_spec valid_adler_def)

theorem adler32_z_correct_witness:
  "\<exists>r. adler32_z (1 :: u32) (Some [97, 98, 99]) 3 = Some r \<and> valid_adler r \<and> halves r = (295, 589)"
  using adler32_z_correct [of "1 :: u32" 3 "[97, 98, 99]"]
  by (simp add: valid_adler_1 halves_1 adler_spec_def BASE_def numeral_3_eq_3 sum.lessThan_Suc_shift)

text \<open>
  C13: checksums of consecutive blocks, each computed from the initial value, combine to the
  checksum of the whole stream, and feeding a stream in any chunks gives the same value.
\<close>
theorem adler32_combine_stream:
  fixes c :: u64
  assumes "valid_adler c"
  shows "foldl (\<lambda>c ys. adler32_combine c (adler32_buf 1 ys) (int (length ys))) c yss
      = adler32_buf c (concat yss)
    \<and> foldl adler32_buf c yss = adler32_buf c (concat yss)"
  using assms by (intro conjI adler64.combine_blocks adler64.update_chunks)

theorem adler32_combine_stream_witness:
  "foldl (\<lambda>c ys. adler32_combine c (adler32_buf 1 ys) (int (length ys))) 1 [[1, 2], [3]]
     = adler32_buf (1 :: u64) [1, 2, 3]"
  using adler32_combine_stream [of 1 "[[1, 2], [3]]"] by (simp add: valid_adler_1)

text \<open>
  C14: the shift-and-add macros for processors without division compute the remainder modulo
  \<open>BASE\<close> on the ranges they are used for: 28 bits, 32 bits and non-negative 64-bit lengths.
\<close>
theorem adler32_no_divide:
  fixes a :: "'u::len word" and n :: u64
  assumes "32 \<le> LENGTH('u)"
  shows "(unat a < 2 ^ 28 \<longrightarrow> unat (MOD28_nodiv a) = unat a mod BASE) \<and>
    (unat a < 2 ^ 32 \<longrightarrow> unat (MOD_nodiv a) = unat a mod BASE) \<and>
    (unat n < 2 ^ 63 \<longrightarrow> unat (MOD63_nodiv n) = unat n mod BASE)"
  using MOD28_nodiv_correct MOD_nodiv_correct MOD63_nodiv_correct assms by blast

theorem adler32_no_divide_witness:
  "unat (MOD_nodiv (65536 :: u32)) = 15"
  using adler32_no_divide [of "65536 :: u32" 0] by (simp add: BASE_def)

end
