(* ===== verification/Shift_Register.thy ===== *)
theory Shift_Register
  imports Prelude
begin

text \<open>
  The linear feedback shift register behind the table-driven checksums of zlib and of the
  assembler: what a shift does to the low bits and to the high bits of the register, and the
  byte step that a table of 256 entries replaces.
\<close>

locale shift_register =
  fixes shift :: "'a::len word \<Rightarrow> 'a word"
    and feedback :: "'a word"
  assumes shift_bit: "shift c = (if bit c 0 then feedback else 0) XOR drop_bit 1 c"
    and wide: "8 \<le> LENGTH('a)"
begin

lemma shift_xor: "shift (a XOR b) = shift a XOR shift b"
  by (cases "bit a 0"; cases "bit b 0")
    (simp_all add: shift_bit bit_xor_iff drop_bit_xor ac_simps)

lemma shift_0: "shift 0 = 0"
  by (simp add: shift_bit)

lemma shifts_xor: "(shift ^^ n) (a XOR b) = (shift ^^ n) a XOR (shift ^^ n) b"
  by (induction n) (simp_all add: shift_xor)

lemma shifts_0: "(shift ^^ n) 0 = 0"
  by (induction n) (simp_all add: shift_0)

lemma linear: "xor_linear (shift ^^ n)"
  by (simp add: xor_linear_def shifts_0 shifts_xor)

lemma shift_push_bit:
  assumes "unat x < 2 ^ (LENGTH('a) - Suc k)" and "k < LENGTH('a)"
  shows "shift (push_bit (Suc k) x) = push_bit k x"
proof -
  have "drop_bit 1 (push_bit (Suc k) x) = push_bit k x"
    by (rule bit_word_eqI) (use assms(2) in
      \<open>auto simp: bit_simps simp del: push_bit_Suc dest: bit_less_imp_less [OF assms(1)]\<close>)
  then show ?thesis by (simp add: shift_bit bit_push_bit_iff del: push_bit_Suc)
qed

lemma shifts_push_bit:
  "unat x < 2 ^ (LENGTH('a) - k) \<Longrightarrow> k \<le> LENGTH('a) \<Longrightarrow> (shift ^^ k) (push_bit k x) = x"
proof (induction k)
  case (Suc k)
  have "unat x < 2 ^ (LENGTH('a) - k)"
    using Suc.prems by (meson diff_le_mono2 le_SucI less_le_trans one_le_numeral order_refl power_increasing)
  then have "(shift ^^ k) (shift (push_bit (Suc k) x)) = x"
    using Suc by (simp add: shift_push_bit del: push_bit_Suc)
  then show ?case by (simp add: funpow_swap1 del: push_bit_Suc)
qed simp

text \<open>Shifting out \<open>k\<close> bits: the low \<open>k\<close> bits are divided, the others move down.\<close>

lemma shifts_split:
  assumes "k \<le> LENGTH('a)"
  shows "(shift ^^ k) c = (shift ^^ k) (c AND mask k) XOR drop_bit k c"
proof -
  have lt: "unat (drop_bit k c) < 2 ^ (LENGTH('a) - k)"
    using unat_lt_len [of c] assms
    by (simp add: unat_drop_bit less_mult_imp_div_less power_add [symmetric])
  have "c = (c AND mask k) XOR push_bit k (drop_bit k c)"
    by (rule bit_word_eqI) (auto simp: bit_simps)
  then have "(shift ^^ k) c = (shift ^^ k) (c AND mask k) XOR (shift ^^ k) (push_bit k (drop_bit k c))"
    by (metis shifts_xor)
  then show ?thesis using shifts_push_bit [OF lt assms] by simp
qed

text \<open>The bits of a word, fed to the register one after another, least significant first.\<close>

lemma feed_bits:
  "n \<le> LENGTH('a) \<Longrightarrow> foldl (\<lambda>c b. shift (c XOR of_bool b)) c (map (bit w) [0..<n])
    = (shift ^^ n) (c XOR take_bit n w)" for w :: "'a word"
proof (induction n)
  case (Suc n)
  have "take_bit (Suc n) w = take_bit n w XOR push_bit n (of_bool (bit w n))"
    by (rule bit_word_eqI) (use Suc.prems in \<open>auto simp: bit_simps less_Suc_eq\<close>)
  moreover have "unat (of_bool (bit w n) :: 'a word) < 2 ^ (LENGTH('a) - n)"
    using Suc.prems by (auto intro: one_less_power [of "2 :: nat" "LENGTH('a) - n", simplified])
  then have "(shift ^^ n) (push_bit n (of_bool (bit w n))) = of_bool (bit w n)"
    using Suc.prems by (intro shifts_push_bit) simp_all
  ultimately show ?case
    using Suc by (simp add: shifts_xor ac_simps)
qed simp

lemma feed_byte:
  "foldl (\<lambda>c b. shift (c XOR of_bool b)) c (map (bit b) [0..<8]) = (shift ^^ 8) (c XOR ucast b)"
  for b :: u8
proof -
  have m: "map (bit b) [0..<8] = map (bit (ucast b :: 'a word)) [0..<8]"
    using wide by (simp add: bit_simps)
  have "take_bit 8 (ucast b :: 'a word) = ucast b"
    by (rule bit_word_eqI) (auto simp: bit_simps dest: bit_imp_le_length)
  then show ?thesis using wide by (subst m) (simp add: feed_bits)
qed

lemma feed_bytes:
  "foldl (\<lambda>c b. shift (c XOR of_bool b)) c (concat (map (\<lambda>b. map (bit b) [0..<8]) bs))
    = foldl (\<lambda>c b. (shift ^^ 8) (c XOR ucast b)) c bs" for bs :: "u8 list"
  by (induction bs arbitrary: c) (simp_all add: feed_byte)

text \<open>The step with a table: the low byte of the register and the data byte are looked up.\<close>

lemma table_step:
  "(shift ^^ 8) (c XOR ucast b) = (shift ^^ 8) ((c XOR ucast b) AND mask 8) XOR drop_bit 8 c"
  for b :: u8
proof -
  have "drop_bit 8 (c XOR ucast b) = drop_bit 8 c"
    by (rule bit_word_eqI) (auto simp: bit_simps dest: bit_imp_le_length)
  then show ?thesis
    using shifts_split [OF wide, of "c XOR ucast b"] by simp
qed

end

end
