(* ===== verification/Crc64.thy ===== *)
theory Crc64
  imports Shift_Register
begin

text \<open>
  \<open>nasm/nasmlib/crc64.c\<close>, the hash of the assembler's symbol tables, with the case folding of
  \<open>nasm/nasmlib/string.c\<close> that \<open>crc64i\<close> uses.

  A C string is the list of its bytes; a zero byte ends it, and so does the end of the list.
  \<open>cstr\<close> is the part that C sees.
\<close>

section \<open>C strings and case folding\<close>

definition cstr :: "u8 list \<Rightarrow> u8 list" where
  "cstr s = takeWhile (\<lambda>c. c \<noteq> 0) s"

text \<open>\<open>nasm_tolower_tab\<close> after \<open>tolower_init\<close>; \<open>tolower\<close> is the one of the C locale.\<close>

definition tolower :: "u8 \<Rightarrow> u8" where
  "tolower c = (if 65 \<le> c \<and> c \<le> 90 then c + 32 else c)"

definition nasm_tolower_tab :: "u8 list" where
  "nasm_tolower_tab = map (\<lambda>i. tolower (of_nat i)) [0..<256]"

definition nasm_tolower :: "u8 \<Rightarrow> u8" where
  "nasm_tolower c = nasm_tolower_tab ! unat c"

definition cur :: "u8 list \<Rightarrow> u8" where
  "cur s = (case s of [] \<Rightarrow> 0 | c # _ \<Rightarrow> c)"

function nasm_stricmp :: "u8 list \<Rightarrow> u8 list \<Rightarrow> int" where
  "nasm_stricmp s1 s2 =
     (let c1 = nasm_tolower (cur s1); c2 = nasm_tolower (cur s2); d = uint c1 - uint c2
      in if d \<noteq> 0 then d else if c1 = 0 then 0 else nasm_stricmp (tl s1) (tl s2))"
  by pat_completeness auto
termination
proof (relation "measure (\<lambda>(s1, s2). length s1)", simp)
  fix s1 s2 :: "u8 list" and c1 c2 d
  assume "c1 = nasm_tolower (cur s1)" "c1 \<noteq> 0"
  then have "s1 \<noteq> []" by (auto simp: cur_def nasm_tolower_def nasm_tolower_tab_def tolower_def)
  then show "((tl s1, tl s2), s1, s2) \<in> measure (\<lambda>(s1, s2). length s1)" by (cases s1) auto
qed

declare nasm_stricmp.simps [simp del]

lemma nasm_tolower_eq: "nasm_tolower c = tolower c"
  using unat_lt_len [of c] by (simp add: nasm_tolower_def nasm_tolower_tab_def)

lemma tolower_0 [simp]: "tolower c = 0 \<longleftrightarrow> c = 0"
proof -
  have "c + 32 \<noteq> 0" if "65 \<le> c" "c \<le> 90"
    using that by (simp add: word_le_nat_alt word_unat_eq_iff unat_word_ariths)
  then show ?thesis by (auto simp: tolower_def)
qed

lemma nasm_tolower_0 [simp]: "nasm_tolower c = 0 \<longleftrightarrow> c = 0"
  by (simp add: nasm_tolower_eq)

lemma cstr_Nil [simp]: "cstr [] = []"
  by (simp add: cstr_def)

lemma cstr_Cons: "cstr (c # s) = (if c = 0 then [] else c # cstr s)"
  by (simp add: cstr_def)

lemma cur_cstr: "cur s = 0 \<longleftrightarrow> cstr s = []" "cur s \<noteq> 0 \<Longrightarrow> cstr s = cur s # cstr (tl s)"
  by (cases s; simp add: cur_def cstr_Cons)+

lemma cstr_idem [simp]: "cstr (cstr s) = cstr s"
  by (induction s) (simp_all add: cstr_Cons)

lemma cstr_map_tolower [simp]: "cstr (map nasm_tolower s) = map nasm_tolower (cstr s)"
  by (induction s) (simp_all add: cstr_Cons)

lemma nasm_stricmp_eq:
  "nasm_stricmp s1 s2 = 0 \<longleftrightarrow> map nasm_tolower (cstr s1) = map nasm_tolower (cstr s2)"
proof (induction s1 s2 rule: nasm_stricmp.induct)
  case (1 s1 s2)
  have u: "uint a = uint b \<longleftrightarrow> a = b" for a b :: u8 by (simp add: word_uint_eq_iff)
  consider "nasm_tolower (cur s1) \<noteq> nasm_tolower (cur s2)"
    | "nasm_tolower (cur s1) = nasm_tolower (cur s2)" "cur s1 = 0"
    | "nasm_tolower (cur s1) = nasm_tolower (cur s2)" "cur s1 \<noteq> 0" by blast
  then show ?case
  proof cases
    case 1
    moreover have "map nasm_tolower (cstr s1) \<noteq> map nasm_tolower (cstr s2)"
      using 1 cur_cstr(2) [of s1] cur_cstr(2) [of s2] cur_cstr(1) [of s1] cur_cstr(1) [of s2]
      by (cases "cur s1 = 0"; cases "cur s2 = 0") auto
    ultimately show ?thesis by (simp add: nasm_stricmp.simps [of s1 s2] Let_def u)
  next
    case 2
    then have "cur s2 = 0" by (metis nasm_tolower_0)
    with 2 cur_cstr(1) [of s1] cur_cstr(1) [of s2]
    show ?thesis by (simp add: nasm_stricmp.simps [of s1 s2] Let_def)
  next
    case 3
    then have "cur s2 \<noteq> 0" by (metis nasm_tolower_0)
    with 3 "1.IH" show ?thesis
      by (simp add: nasm_stricmp.simps [of s1 s2] Let_def cur_cstr(2))
  qed
qed

section \<open>The checksum\<close>

definition crc64_tab :: "u64 list" where
  "crc64_tab = [0x0000000000000000, 0x7ad870c830358979, 0xf5b0e190606b12f2, 0x8f689158505e9b8b,
    0xc038e5739841b68f, 0xbae095bba8743ff6, 0x358804e3f82aa47d, 0x4f50742bc81f2d04,
    0xab28ecb46814fe75, 0xd1f09c7c5821770c, 0x5e980d24087fec87, 0x24407dec384a65fe,
    0x6b1009c7f05548fa, 0x11c8790fc060c183, 0x9ea0e857903e5a08, 0xe478989fa00bd371,
    0x7d08ff3b88be6f81, 0x07d08ff3b88be6f8, 0x88b81eabe8d57d73, 0xf2606e63d8e0f40a,
    0xbd301a4810ffd90e, 0xc7e86a8020ca5077, 0x4880fbd87094cbfc, 0x32588b1040a14285,
    0xd620138fe0aa91f4, 0xacf86347d09f188d, 0x2390f21f80c18306, 0x594882d7b0f40a7f,
    0x1618f6fc78eb277b, 0x6cc0863448deae02, 0xe3a8176c18803589, 0x997067a428b5bcf0,
    0xfa11fe77117cdf02, 0x80c98ebf2149567b, 0x0fa11fe77117cdf0, 0x75796f2f41224489,
    0x3a291b04893d698d, 0x40f16bccb908e0f4, 0xcf99fa94e9567b7f, 0xb5418a5cd963f206,
    0x513912c379682177, 0x2be1620b495da80e, 0xa489f35319033385, 0xde51839b2936bafc,
    0x9101f7b0e12997f8, 0xebd98778d11c1e81, 0x64b116208142850a, 0x1e6966e8b1770c73,
    0x8719014c99c2b083, 0xfdc17184a9f739fa, 0x72a9e0dcf9a9a271, 0x08719014c99c2b08,
    0x4721e43f0183060c, 0x3df994f731b68f75, 0xb29105af61e814fe, 0xc849756751dd9d87,
    0x2c31edf8f1d64ef6, 0x56e99d30c1e3c78f, 0xd9810c6891bd5c04, 0xa3597ca0a188d57d,
    0xec09088b6997f879, 0x96d1784359a27100, 0x19b9e91b09fcea8b, 0x636199d339c963f2,
    0xdf7adabd7a6e2d6f, 0xa5a2aa754a5ba416, 0x2aca3b2d1a053f9d, 0x50124be52a30b6e4,
    0x1f423fcee22f9be0, 0x659a4f06d21a1299, 0xeaf2de5e82448912, 0x902aae96b271006b,
    0x74523609127ad31a, 0x0e8a46c1224f5a63, 0x81e2d7997211c1e8, 0xfb3aa75142244891,
    0xb46ad37a8a3b6595, 0xceb2a3b2ba0eecec, 0x41da32eaea507767, 0x3b024222da65fe1e,
    0xa2722586f2d042ee, 0xd8aa554ec2e5cb97, 0x57c2c41692bb501c, 0x2d1ab4dea28ed965,
    0x624ac0f56a91f461, 0x1892b03d5aa47d18, 0x97fa21650afae693, 0xed2251ad3acf6fea,
    0x095ac9329ac4bc9b, 0x7382b9faaaf135e2, 0xfcea28a2faafae69, 0x8632586aca9a2710,
    0xc9622c4102850a14, 0xb3ba5c8932b0836d, 0x3cd2cdd162ee18e6, 0x460abd1952db919f,
    0x256b24ca6b12f26d, 0x5fb354025b277b14, 0xd0dbc55a0b79e09f, 0xaa03b5923b4c69e6,
    0xe553c1b9f35344e2, 0x9f8bb171c366cd9b, 0x10e3202993385610, 0x6a3b50e1a30ddf69,
    0x8e43c87e03060c18, 0xf49bb8b633338561, 0x7bf329ee636d1eea, 0x012b592653589793,
    0x4e7b2d0d9b47ba97, 0x34a35dc5ab7233ee, 0xbbcbcc9dfb2ca865, 0xc113bc55cb19211c,
    0x5863dbf1e3ac9dec, 0x22bbab39d3991495, 0xadd33a6183c78f1e, 0xd70b4aa9b3f20667,
    0x985b3e827bed2b63, 0xe2834e4a4bd8a21a, 0x6debdf121b863991, 0x1733afda2bb3b0e8,
    0xf34b37458bb86399, 0x8993478dbb8deae0, 0x06fbd6d5ebd3716b, 0x7c23a61ddbe6f812,
    0x3373d23613f9d516, 0x49aba2fe23cc5c6f, 0xc6c333a67392c7e4, 0xbc1b436e43a74e9d,
    0x95ac9329ac4bc9b5, 0xef74e3e19c7e40cc, 0x601c72b9cc20db47, 0x1ac40271fc15523e,
    0x5594765a340a7f3a, 0x2f4c0692043ff643, 0xa02497ca54616dc8, 0xdafce7026454e4b1,
    0x3e847f9dc45f37c0, 0x445c0f55f46abeb9, 0xcb349e0da4342532, 0xb1eceec59401ac4b,
    0xfebc9aee5c1e814f, 0x8464ea266c2b0836, 0x0b0c7b7e3c7593bd, 0x71d40bb60c401ac4,
    0xe8a46c1224f5a634, 0x927c1cda14c02f4d, 0x1d148d82449eb4c6, 0x67ccfd4a74ab3dbf,
    0x289c8961bcb410bb, 0x5244f9a98c8199c2, 0xdd2c68f1dcdf0249, 0xa7f41839ecea8b30,
    0x438c80a64ce15841, 0x3954f06e7cd4d138, 0xb63c61362c8a4ab3, 0xcce411fe1cbfc3ca,
    0x83b465d5d4a0eece, 0xf96c151de49567b7, 0x76048445b4cbfc3c, 0x0cdcf48d84fe7545,
    0x6fbd6d5ebd3716b7, 0x15651d968d029fce, 0x9a0d8ccedd5c0445, 0xe0d5fc06ed698d3c,
    0xaf85882d2576a038, 0xd55df8e515432941, 0x5a3569bd451db2ca, 0x20ed197575283bb3,
    0xc49581ead523e8c2, 0xbe4df122e51661bb, 0x3125607ab548fa30, 0x4bfd10b2857d7349,
    0x04ad64994d625e4d, 0x7e7514517d57d734, 0xf11d85092d094cbf, 0x8bc5f5c11d3cc5c6,
    0x12b5926535897936, 0x686de2ad05bcf04f, 0xe70573f555e26bc4, 0x9ddd033d65d7e2bd,
    0xd28d7716adc8cfb9, 0xa85507de9dfd46c0, 0x273d9686cda3dd4b, 0x5de5e64efd965432,
    0xb99d7ed15d9d8743, 0xc3450e196da80e3a, 0x4c2d9f413df695b1, 0x36f5ef890dc31cc8,
    0x79a59ba2c5dc31cc, 0x037deb6af5e9b8b5, 0x8c157a32a5b7233e, 0xf6cd0afa9582aa47,
    0x4ad64994d625e4da, 0x300e395ce6106da3, 0xbf66a804b64ef628, 0xc5bed8cc867b7f51,
    0x8aeeace74e645255, 0xf036dc2f7e51db2c, 0x7f5e4d772e0f40a7, 0x05863dbf1e3ac9de,
    0xe1fea520be311aaf, 0x9b26d5e88e0493d6, 0x144e44b0de5a085d, 0x6e963478ee6f8124,
    0x21c640532670ac20, 0x5b1e309b16452559, 0xd476a1c3461bbed2, 0xaeaed10b762e37ab,
    0x37deb6af5e9b8b5b, 0x4d06c6676eae0222, 0xc26e573f3ef099a9, 0xb8b627f70ec510d0,
    0xf7e653dcc6da3dd4, 0x8d3e2314f6efb4ad, 0x0256b24ca6b12f26, 0x788ec2849684a65f,
    0x9cf65a1b368f752e, 0xe62e2ad306bafc57, 0x6946bb8b56e467dc, 0x139ecb4366d1eea5,
    0x5ccebf68aecec3a1, 0x2616cfa09efb4ad8, 0xa97e5ef8cea5d153, 0xd3a62e30fe90582a,
    0xb0c7b7e3c7593bd8, 0xca1fc72bf76cb2a1, 0x45775673a732292a, 0x3faf26bb9707a053,
    0x70ff52905f188d57, 0x0a2722586f2d042e, 0x854fb3003f739fa5, 0xff97c3c80f4616dc,
    0x1bef5b57af4dc5ad, 0x61372b9f9f784cd4, 0xee5fbac7cf26d75f, 0x9487ca0fff135e26,
    0xdbd7be24370c7322, 0xa10fceec0739fa5b, 0x2e675fb4576761d0, 0x54bf2f7c6752e8a9,
    0xcdcf48d84fe75459, 0xb71738107fd2dd20, 0x387fa9482f8c46ab, 0x42a7d9801fb9cfd2,
    0x0df7adabd7a6e2d6, 0x772fdd63e7936baf, 0xf8474c3bb7cdf024, 0x829f3cf387f8795d,
    0x66e7a46c27f3aa2c, 0x1c3fd4a417c62355, 0x935745fc4798b8de, 0xe98f353477ad31a7,
    0xa6df411fbfb21ca3, 0xdc0731d78f8795da, 0x536fa08fdfd90e51, 0x29b7d047efec8728]"

definition CRC64_INIT :: u64 where "CRC64_INIT = 0xffffffffffffffff"

definition crc64_step :: "u64 \<Rightarrow> u8 \<Rightarrow> u64" where
  "crc64_step crc c = crc64_tab ! unat ((ucast crc :: u8) XOR c) XOR drop_bit 8 crc"

fun crc64 :: "u64 \<Rightarrow> u8 list \<Rightarrow> u64" where
  "crc64 crc [] = crc"
| "crc64 crc (c # str) = (if c = 0 then crc else crc64 (crc64_step crc c) str)"

fun crc64i :: "u64 \<Rightarrow> u8 list \<Rightarrow> u64" where
  "crc64i crc [] = crc"
| "crc64i crc (c # str) = (if c = 0 then crc else crc64i (crc64_step crc (nasm_tolower c)) str)"

lemma crc64_cstr: "crc64 crc s = foldl crc64_step crc (cstr s)"
  by (induction s arbitrary: crc) (simp_all add: cstr_Cons)

lemma crc64i_lower: "crc64i crc s = crc64 crc (map nasm_tolower s)"
  by (induction s arbitrary: crc) simp_all

section \<open>Reference: one bit at a time\<close>

text \<open>The reflected polynomial of the table, and the register that is shifted bit by bit.\<close>

definition crc64_poly :: u64 where "crc64_poly = 0x95ac9329ac4bc9b5"

definition crc64_shift :: "u64 \<Rightarrow> u64" where
  "crc64_shift c = (if c AND 1 \<noteq> 0 then crc64_poly XOR drop_bit 1 c else drop_bit 1 c)"

definition crc64_bit :: "u64 \<Rightarrow> bool \<Rightarrow> u64" where
  "crc64_bit c b = crc64_shift (c XOR of_bool b)"

definition crc64_ref :: "u64 \<Rightarrow> u8 list \<Rightarrow> u64" where
  "crc64_ref c s = foldl crc64_bit c (concat (map (\<lambda>b. map (bit b) [0..<8]) s))"

lemma crc64_shift_bit: "crc64_shift c = (if bit c 0 then crc64_poly else 0) XOR drop_bit 1 c"
  by (auto simp: crc64_shift_def and_one_eq bit_0 even_iff_mod_2_eq_zero)

interpretation reg64: shift_register crc64_shift crc64_poly
  by unfold_locales (simp_all add: crc64_shift_bit)

lemma crc64_shift_eval:
  "crc64_shift (numeral n) =
     (if (numeral n :: u64) AND 1 \<noteq> 0 then 0x95ac9329ac4bc9b5 XOR drop_bit 1 (numeral n)
      else drop_bit 1 (numeral n))"
  "crc64_shift 1 = 0x95ac9329ac4bc9b5"
  by (simp_all add: crc64_shift_def crc64_poly_def)

lemma crc64_powers:
  "(crc64_shift ^^ 8) 1 = 0x7ad870c830358979"
  "(crc64_shift ^^ 8) 2 = 0xf5b0e190606b12f2"
  "(crc64_shift ^^ 8) 4 = 0xc038e5739841b68f"
  "(crc64_shift ^^ 8) 8 = 0xab28ecb46814fe75"
  "(crc64_shift ^^ 8) 16 = 0x7d08ff3b88be6f81"
  "(crc64_shift ^^ 8) 32 = 0xfa11fe77117cdf02"
  "(crc64_shift ^^ 8) 64 = 0xdf7adabd7a6e2d6f"
  "(crc64_shift ^^ 8) 128 = 0x95ac9329ac4bc9b5"
  by (simp_all add: crc64_shift_eval funpow_8)

lemma crc64_tab_generated: "crc64_tab = map (\<lambda>n. (crc64_shift ^^ 8) (of_nat n)) [0..<256]"
proof -
  have "8 \<le> LENGTH(64)" by simp
  note s = table_span [OF reg64.linear [of 8] this]
  show ?thesis unfolding s crc64_tab_def crc64_powers by (simp add: span_def)
qed

lemma crc64_step_eq: "crc64_step c b = (crc64_shift ^^ 8) (c XOR ucast b)"
proof -
  have i: "unat ((ucast c :: u8) XOR b) < 256" using unat_u8_le [of "ucast c XOR b"] by simp
  have "of_nat (unat ((ucast c :: u8) XOR b)) = (ucast ((ucast c :: u8) XOR b) :: u64)"
    by simp
  also have "\<dots> = (c XOR ucast b) AND mask 8"
    by (rule bit_word_eqI) (auto simp: bit_simps dest: bit_imp_le_length)
  finally have "crc64_tab ! unat ((ucast c :: u8) XOR b) = (crc64_shift ^^ 8) ((c XOR ucast b) AND mask 8)"
    using i by (simp add: crc64_tab_generated)
  then show ?thesis using reg64.table_step [of c b] by (simp add: crc64_step_def)
qed

lemma crc64_ref_eq: "crc64_ref c s = foldl crc64_step c s"
  using reg64.feed_bytes [of c s]
  by (simp add: crc64_ref_def crc64_bit_def [abs_def] crc64_step_eq [abs_def])

section \<open>Properties\<close>

text \<open>
  C18: \<open>crc64\<close> and \<open>crc64i\<close> return the CRC, computed bit by bit with the reflected polynomial, of
  the bytes before the terminating zero, as they are or folded to lower case; strings that
  \<open>nasm_stricmp\<close> calls equal have the same hash.
\<close>
theorem crc64_correct:
  "crc64 c s = crc64_ref c (cstr s) \<and>
   crc64i c s = crc64_ref c (map nasm_tolower (cstr s)) \<and>
   (nasm_stricmp s t = 0 \<longrightarrow> crc64i c s = crc64i c t)"
  by (simp add: crc64_ref_eq crc64i_lower crc64_cstr nasm_stricmp_eq)

theorem crc64_correct_witness:
  "crc64i CRC64_INIT [65, 0, 5] = crc64i CRC64_INIT [97]"
proof -
  have "nasm_stricmp [65, 0, 5] [97] = 0"
    by (simp add: nasm_stricmp_eq cstr_def nasm_tolower_eq tolower_def)
  then show ?thesis using crc64_correct [of CRC64_INIT "[65, 0, 5]" "[97]"] by blast
qed

end
