(* ===== verification/Ilog2.thy ===== *)
theory Ilog2
  imports Prelude
begin

text \<open>
  \<open>nasm/nasmlib/ilog2.c\<close> (the portable versions) and \<open>is_power2\<close> of \<open>nasm/include/nasmlib.h\<close>: binary
  logarithms by bisection of the word, and the check and logarithm of an alignment.
\<close>

section \<open>The code\<close>

definition is_power2 :: "'a::len word \<Rightarrow> bool" where
  "is_power2 v \<longleftrightarrow> v \<noteq> 0 \<and> v AND (v - 1) = 0"

text \<open>\<open>ROUND(v, a, w)\<close> on the pair of the two variables.\<close>

definition ROUND :: "nat \<Rightarrow> u32 \<times> int \<Rightarrow> u32 \<times> int" where
  "ROUND w = (\<lambda>(v, a).
     if v AND push_bit w (push_bit w 1 - 1) \<noteq> 0 then (drop_bit w v, a + int w) else (v, a))"

definition ilog2_32 :: "u32 \<Rightarrow> int" where
  "ilog2_32 v = snd (ROUND 1 (ROUND 2 (ROUND 4 (ROUND 8 (ROUND 16 (v, 0))))))"

definition ilog2_64 :: "u64 \<Rightarrow> int" where
  "ilog2_64 vv =
     (let v = ucast (drop_bit 32 vv);
          (v, p) = (if v \<noteq> 0 then (v, 32) else (ucast vv, 0))
      in snd (ROUND 1 (ROUND 2 (ROUND 4 (ROUND 8 (ROUND 16 (v, p)))))))"

definition alignlog2_32 :: "u32 \<Rightarrow> int" where
  "alignlog2_32 v = (if v AND (v - 1) \<noteq> 0 then -1 else ilog2_32 v)"

definition alignlog2_64 :: "u64 \<Rightarrow> int" where
  "alignlog2_64 v = (if v AND (v - 1) \<noteq> 0 then -1 else ilog2_64 v)"

section \<open>Powers of two\<close>


lemma exp_minus_1: "(2::'a::len word) ^ k - 1 = mask k"
  by (simp add: mask_eq_exp_minus_1)

lemma is_power2_exp:
  assumes "k < LENGTH('a)"
  shows "is_power2 ((2::'a::len word) ^ k)"
proof -
  have "(2::'a word) ^ k \<noteq> 0" using assms by simp
  moreover have "(2::'a word) ^ k AND mask k = 0"
    by (rule bit_word_eqI) (auto simp: bit_simps)
  ultimately show ?thesis by (simp add: is_power2_def exp_minus_1)
qed

lemma power2_between:
  fixes n :: nat
  assumes "0 < n"
  obtains k where "2 ^ k \<le> n" "n < 2 ^ Suc k"
  using ex_power_ivl1 [of 2 n] assms by auto

lemma bit_top:
  fixes x :: "'a::len word"
  assumes "2 ^ k \<le> unat x" "unat x < 2 ^ Suc k"
  shows "bit x k"
proof -
  have "unat x div 2 ^ k = 1" using assms by (intro div_nat_eqI) simp_all
  then have "bit (unat x) k" by (simp add: bit_iff_odd)
  then show ?thesis by (simp add: bit_unsigned_iff)
qed

lemma is_power2_iff: "is_power2 v \<longleftrightarrow> (\<exists>k<LENGTH('a). v = 2 ^ k)" for v :: "'a::len word"
proof
  assume v: "is_power2 v"
  then have "0 < unat v" by (simp add: is_power2_def unat_gt_0)
  then obtain k where k: "2 ^ k \<le> unat v" "unat v < 2 ^ Suc k" by (rule power2_between)
  have kl: "k < LENGTH('a)"
    using k(1) unat_lt_len [of v] by (metis le_less_trans power_strict_increasing_iff one_less_numeral_iff semiring_norm(76))
  have "unat v = 2 ^ k"
  proof (rule ccontr)
    assume "unat v \<noteq> 2 ^ k"
    then have "unat (v - 1) = unat v - 1" "2 ^ k \<le> unat v - 1"
      using k(1) by (simp_all add: unat_sub_small)
    then have "bit (v - 1) k" using k(2) by (intro bit_top) auto
    then have "bit (v AND (v - 1)) k" using bit_top [OF k] by (simp add: bit_and_iff)
    then show False using v by (simp add: is_power2_def)
  qed
  then have "v = 2 ^ k" using kl by (simp add: word_unat_eq_iff unat_2_power)
  then show "\<exists>k<LENGTH('a). v = 2 ^ k" using kl by blast
qed (auto intro: is_power2_exp)

section \<open>The rounds\<close>

definition is_log :: "nat \<Rightarrow> 'a::len word \<Rightarrow> bool" where
  "is_log p v \<longleftrightarrow> 2 ^ p \<le> unat v \<and> unat v < 2 ^ Suc p"

lemma ROUND_less:
  assumes "unat v < 2 ^ (2 * w)" "2 * w \<le> 32" "ROUND w (v, a) = (v', a')"
  shows "unat v' < 2 ^ w \<and>
    (\<forall>p. is_log p v' \<longrightarrow> is_log (p + nat (a' - a)) v) \<and>
    (v \<noteq> 0 \<longrightarrow> v' \<noteq> 0) \<and> a \<le> a'"
proof -
  have hi: "(v AND push_bit w (push_bit w 1 - 1) = 0) \<longleftrightarrow> unat v < 2 ^ w"
  proof -
    have m: "push_bit w (push_bit w 1 - 1 :: u32) = push_bit w (mask w)"
      by (simp add: exp_minus_1)
    have "v AND push_bit w (mask w) = push_bit w (drop_bit w v)"
      by (rule bit_word_eqI) (use assms(2) in \<open>auto simp: bit_simps dest: bit_less_imp_less [OF assms(1)]\<close>)
    moreover have "unat v div 2 ^ w * 2 ^ w < 2 ^ 32"
      using unat_lt_len [of v] by (intro le_less_trans [OF div_times_less_eq_dividend]) simp
    then have "unat (push_bit w (drop_bit w v)) = unat v div 2 ^ w * 2 ^ w"
      using unat_push_bit_small [of "drop_bit w v" w] by (simp add: unat_drop_bit)
    then have "push_bit w (drop_bit w v) = 0 \<longleftrightarrow> unat v div 2 ^ w = 0"
      by (simp add: unat_eq_zero [symmetric] del: unat_eq_zero)
    ultimately show ?thesis unfolding m by (simp add: div_eq_0_iff)
  qed
  show ?thesis
  proof (cases "unat v < 2 ^ w")
    case True
    then show ?thesis using assms(3) hi by (auto simp: ROUND_def)
  next
    case False
    have v': "v' = drop_bit w v" "a' = a + int w"
      using assms(3) hi False by (auto simp: ROUND_def)
    have u: "unat v' = unat v div 2 ^ w" by (simp add: v' unat_drop_bit)
    have "is_log (p + w) v" if "is_log p v'" for p
      using that unfolding is_log_def u
      by (simp add: less_eq_div_iff_mult_less_eq div_less_iff_less_mult power_add mult_ac)
    moreover have "unat v' < 2 ^ w"
      using assms(1) unfolding u by (simp add: div_less_iff_less_mult power_add [symmetric] mult_2)
    moreover have "unat v' \<noteq> 0" using False unfolding u by (simp add: div_eq_0_iff del: div_greater_zero_iff)
    ultimately show ?thesis using v' by auto
  qed
qed

lemma ROUNDs:
  fixes v :: u32 and a :: int
  defines "q \<equiv> snd (ROUND 1 (ROUND 2 (ROUND 4 (ROUND 8 (ROUND 16 (v, a))))))"
  shows "(v \<noteq> 0 \<longrightarrow> is_log (nat (q - a)) v) \<and> a \<le> q \<and> (v = 0 \<longrightarrow> q = a)"
proof -
  obtain v1 a1 where r1: "ROUND 16 (v, a) = (v1, a1)" by fastforce
  obtain v2 a2 where r2: "ROUND 8 (v1, a1) = (v2, a2)" by fastforce
  obtain v3 a3 where r3: "ROUND 4 (v2, a2) = (v3, a3)" by fastforce
  obtain v4 a4 where r4: "ROUND 2 (v3, a3) = (v4, a4)" by fastforce
  obtain v5 a5 where r5: "ROUND 1 (v4, a4) = (v5, a5)" by fastforce
  have q: "q = a5" unfolding q_def r1 r2 r3 r4 r5 by simp
  have "unat v < 2 ^ (2 * 16)" using unat_lt_len [of v] by simp
  note i1 = ROUND_less [OF this _ r1, simplified]
  then have "unat v1 < 2 ^ (2 * 8)" by simp
  note i2 = ROUND_less [OF this _ r2, simplified]
  then have "unat v2 < 2 ^ (2 * 4)" by simp
  note i3 = ROUND_less [OF this _ r3, simplified]
  then have "unat v3 < 2 ^ (2 * 2)" by simp
  note i4 = ROUND_less [OF this _ r4, simplified]
  then have "unat v4 < 2 ^ (2 * 1)" by simp
  note i5 = ROUND_less [OF this _ r5, simplified]
  have z: "a5 = a" if "v = 0"
    using r1 r2 r3 r4 r5 that by (simp add: ROUND_def)
  have le: "a \<le> a5" using i1 i2 i3 i4 i5 by linarith
  have "is_log (nat (a5 - a)) v" if "v \<noteq> 0"
  proof -
    have "v5 \<noteq> 0" using that i1 i2 i3 i4 i5 by blast
    then have "is_log 0 v5" using i5 unat_gt_0 [of v5] by (simp add: is_log_def)
    then have "is_log (0 + nat (a5 - a4) + nat (a4 - a3) + nat (a3 - a2) + nat (a2 - a1) + nat (a1 - a)) v"
      using i1 i2 i3 i4 i5 by blast
    moreover have "0 + nat (a5 - a4) + nat (a4 - a3) + nat (a3 - a2) + nat (a2 - a1) + nat (a1 - a) = nat (a5 - a)"
      using i1 i2 i3 i4 i5 by linarith
    ultimately show ?thesis by simp
  qed
  with z le show ?thesis unfolding q by blast
qed

lemma ilog2_32_bounds:
  "v \<noteq> 0 \<Longrightarrow> 2 ^ nat (ilog2_32 v) \<le> unat v \<and> unat v < 2 ^ Suc (nat (ilog2_32 v))"
  "0 \<le> ilog2_32 v" "ilog2_32 0 = 0"
  using ROUNDs [of v 0] ROUNDs [of 0 0] by (simp_all add: ilog2_32_def is_log_def)

lemma ilog2_64_bounds:
  "v \<noteq> 0 \<Longrightarrow> 2 ^ nat (ilog2_64 v) \<le> unat v \<and> unat v < 2 ^ Suc (nat (ilog2_64 v))"
  "0 \<le> ilog2_64 v" "ilog2_64 0 = 0"
proof -
  have u: "unat (ucast (drop_bit 32 v) :: u32) = unat v div 2 ^ 32"
    using unat_lt_len [of v]
    by (simp add: unsigned_ucast_eq unat_drop_bit take_bit_nat_eq_self less_mult_imp_div_less)
  let ?h = "ucast (drop_bit 32 v) :: u32"
  have "(v \<noteq> 0 \<longrightarrow> 2 ^ nat (ilog2_64 v) \<le> unat v \<and> unat v < 2 ^ Suc (nat (ilog2_64 v))) \<and> 0 \<le> ilog2_64 v \<and> (v = 0 \<longrightarrow> ilog2_64 v = 0)"
  proof (cases "?h = 0")
    case True
    then have "unat v < 2 ^ 32" using u by simp
    then have l: "unat (ucast v :: u32) = unat v"
      by (simp add: unsigned_ucast_eq take_bit_nat_eq_self)
    then have "(ucast v :: u32) = 0 \<longleftrightarrow> v = 0" by (metis unat_eq_0)
    then show ?thesis using ROUNDs [of "ucast v" 0] True l by (simp add: ilog2_64_def is_log_def)
  next
    case False
    define p where "p = nat (ilog2_64 v - 32)"
    have p: "2 ^ p \<le> unat ?h" "unat ?h < 2 ^ Suc p" "32 \<le> ilog2_64 v"
      using ROUNDs [of ?h 32] False by (simp_all add: ilog2_64_def p_def is_log_def)
    have "nat (ilog2_64 v) = p + 32" using p(3) by (simp add: p_def)
    moreover have "2 ^ (p + 32) \<le> unat v" "unat v < 2 ^ Suc (p + 32)"
      using p(1,2) unfolding u
      by (simp_all add: less_eq_div_iff_mult_less_eq div_less_iff_less_mult power_add)
    moreover have "v \<noteq> 0" using False by auto
    ultimately show ?thesis using p(3) by simp
  qed
  then show "v \<noteq> 0 \<Longrightarrow> 2 ^ nat (ilog2_64 v) \<le> unat v \<and> unat v < 2 ^ Suc (nat (ilog2_64 v))"
    "0 \<le> ilog2_64 v" by blast+
  show "ilog2_64 0 = 0" using ROUNDs [of 0 0] by (simp add: ilog2_64_def)
qed

lemma exponent_unique:
  fixes n :: nat
  assumes "2 ^ p \<le> n" "n < 2 ^ Suc p" "2 ^ q \<le> n" "n < 2 ^ Suc q"
  shows "p = q"
proof -
  have "(2::nat) ^ p < 2 ^ Suc q" "(2::nat) ^ q < 2 ^ Suc p" using assms by linarith+
  then have "p < Suc q" "q < Suc p"
    using power_less_imp_less_exp [of "2 :: nat"] by (metis one_less_numeral_iff semiring_norm(76))+
  then show ?thesis by simp
qed

lemma alignlog2_32_power: "k < 32 \<Longrightarrow> alignlog2_32 (2 ^ k) = int k"
proof -
  assume k: "k < 32"
  then have z: "(2::u32) ^ k \<noteq> 0" "(2::u32) ^ k AND (2 ^ k - 1) = 0"
    using is_power2_exp [where 'a = 32, of k] by (auto simp: is_power2_def)
  have "nat (ilog2_32 (2 ^ k)) = k"
    using ilog2_32_bounds(1) [OF z(1)] k
    by (intro exponent_unique [of _ "unat ((2::u32) ^ k)"]) (simp_all add: unat_2_power)
  then show ?thesis using z ilog2_32_bounds(2) [of "2 ^ k"] by (simp add: alignlog2_32_def)
qed

lemma alignlog2_64_power: "k < 64 \<Longrightarrow> alignlog2_64 (2 ^ k) = int k"
proof -
  assume k: "k < 64"
  then have z: "(2::u64) ^ k \<noteq> 0" "(2::u64) ^ k AND (2 ^ k - 1) = 0"
    using is_power2_exp [where 'a = 64, of k] by (auto simp: is_power2_def)
  have "nat (ilog2_64 (2 ^ k)) = k"
    using ilog2_64_bounds(1) [OF z(1)] k
    by (intro exponent_unique [of _ "unat ((2::u64) ^ k)"]) (simp_all add: unat_2_power)
  then show ?thesis using z ilog2_64_bounds(2) [of "2 ^ k"] by (simp add: alignlog2_64_def)
qed

section \<open>Properties\<close>

text \<open>
  C19: the bisections return the position of the highest set bit, and 0 for 0.
\<close>
theorem ilog2_correct:
  "(v \<noteq> 0 \<longrightarrow> 2 ^ nat (ilog2_32 v) \<le> unat v \<and> unat v < 2 ^ Suc (nat (ilog2_32 v))) \<and>
   (w \<noteq> 0 \<longrightarrow> 2 ^ nat (ilog2_64 w) \<le> unat w \<and> unat w < 2 ^ Suc (nat (ilog2_64 w))) \<and>
   0 \<le> ilog2_32 v \<and> 0 \<le> ilog2_64 w \<and> ilog2_32 0 = 0 \<and> ilog2_64 0 = 0"
  using ilog2_32_bounds(1,2) [of v] ilog2_64_bounds(1,2) [of w] ilog2_32_bounds(3) ilog2_64_bounds(3)
  by blast

theorem ilog2_correct_witness:
  "2 ^ nat (ilog2_32 300) \<le> unat (300 :: u32) \<and> unat (300 :: u32) < 2 ^ Suc (nat (ilog2_32 300))"
proof -
  have "(300 :: u32) \<noteq> 0" by simp
  then show ?thesis using ilog2_correct [of 300 0] by blast
qed

text \<open>
  C20: the logarithm of an alignment is defined exactly for 0 and the powers of two: it is the
  exponent, 0 for 0, and -1 for every other value.
\<close>
theorem alignlog2_correct:
  "(k < 32 \<longrightarrow> alignlog2_32 (2 ^ k) = int k) \<and> (k < 64 \<longrightarrow> alignlog2_64 (2 ^ k) = int k) \<and>
   alignlog2_32 0 = 0 \<and> alignlog2_64 0 = 0 \<and>
   (alignlog2_32 v = -1 \<longleftrightarrow> v \<noteq> 0 \<and> \<not> is_power2 v) \<and>
   (alignlog2_64 w = -1 \<longleftrightarrow> w \<noteq> 0 \<and> \<not> is_power2 w)"
proof (intro conjI impI)
  show "alignlog2_32 0 = 0" "alignlog2_64 0 = 0"
    by (simp_all add: alignlog2_32_def alignlog2_64_def ilog2_32_bounds ilog2_64_bounds)
  show "alignlog2_32 v = -1 \<longleftrightarrow> v \<noteq> 0 \<and> \<not> is_power2 v"
    using ilog2_32_bounds(2) [of v] by (auto simp: alignlog2_32_def is_power2_def)
  show "alignlog2_64 w = -1 \<longleftrightarrow> w \<noteq> 0 \<and> \<not> is_power2 w"
    using ilog2_64_bounds(2) [of w] by (auto simp: alignlog2_64_def is_power2_def)
qed (simp_all add: alignlog2_32_power alignlog2_64_power)

theorem alignlog2_correct_witness: "alignlog2_32 (2 ^ 4) = 4 \<and> alignlog2_64 (2 ^ 40) = 40"
  using alignlog2_correct [where k = 4 and v = 0 and w = 0]
    alignlog2_correct [where k = 40 and v = 0 and w = 0] by simp

end
