(* ===== verification/Hashtbl.thy ===== *)
theory Hashtbl
  imports Crc64 Ilog2 "HOL-Library.Multiset" "HOL-Library.Monad_Syntax"
begin

text \<open>
  \<open>nasm/nasmlib/hashtbl.c\<close>: the open-addressing hash table of the assembler, with double hashing
  over a table whose size is a power of two, and the find-or-add clients of
  \<open>nasm/asm/preproc.c\<close>.

  The table is a list of nodes (\<open>[]\<close> when it has been freed), a pointer to a node is its index,
  and a \<open>NULL\<close> key or data pointer is \<open>None\<close>.
  The loops that probe may run forever on a full table, so they are partial: \<open>None\<close> means that the
  call does not return, or that it reads outside the table.
\<close>

section \<open>The code\<close>

record 'd hash_tbl_node =
  nd_hash :: u64
  nd_key :: "u8 list option"
  nd_data :: "'d option"

record 'd hash_table =
  ht_table :: "'d hash_tbl_node list"
  ht_load :: u64
  ht_size :: u64
  ht_max_load :: u64

record hash_insert =
  hi_hash :: u64
  hi_where :: u64

definition HASH_MAX_LOAD :: u64 where "HASH_MAX_LOAD = 2"

definition hash_calc :: "u8 list \<Rightarrow> u64" where "hash_calc key = crc64 CRC64_INIT key"
definition hash_calci :: "u8 list \<Rightarrow> u64" where "hash_calci key = crc64i CRC64_INIT key"
definition hash_max_load :: "u64 \<Rightarrow> u64" where
  "hash_max_load sz = sz * (HASH_MAX_LOAD - 1) div HASH_MAX_LOAD"
definition hash_expand :: "u64 \<Rightarrow> u64" where "hash_expand sz = push_bit 1 sz"
definition hash_mask :: "u64 \<Rightarrow> u64" where "hash_mask sz = sz - 1"
definition hash_pos :: "u64 \<Rightarrow> u64 \<Rightarrow> u64" where "hash_pos hash msk = hash AND msk"
definition hash_inc :: "u64 \<Rightarrow> u64 \<Rightarrow> u64" where
  "hash_inc hash msk = (drop_bit 32 hash AND msk) OR 1"
definition hash_pos_next :: "u64 \<Rightarrow> u64 \<Rightarrow> u64 \<Rightarrow> u64" where
  "hash_pos_next pos inc msk = (pos + inc) AND msk"

text \<open>\<open>nasm_zalloc\<close> returns zeroed memory or ends the program.\<close>

definition empty_node :: "'d hash_tbl_node" where
  "empty_node = \<lparr>nd_hash = 0, nd_key = None, nd_data = None\<rparr>"

definition alloc_table :: "u64 \<Rightarrow> 'd hash_tbl_node list" where
  "alloc_table newsize = replicate (unat newsize) empty_node"

text \<open>\<open>None\<close>: the assertion fails.\<close>

definition hash_init :: "u64 \<Rightarrow> 'd hash_table option" where
  "hash_init sz =
     (if \<not> is_power2 sz then None
      else Some \<lparr>ht_table = alloc_table sz, ht_load = 0, ht_size = sz,
                 ht_max_load = hash_max_load sz\<rparr>)"

text \<open>The result of a search: the index of the node that has the key, or the data for \<open>hash_add\<close>.\<close>

datatype find_result = Found u64 | Missing hash_insert

partial_function (option) find_loop ::
    "(u8 list \<Rightarrow> bool) \<Rightarrow> 'd hash_tbl_node list \<Rightarrow> u64 \<Rightarrow> u64 \<Rightarrow> u64 \<Rightarrow> u64 \<Rightarrow> find_result option" where
  "find_loop same tbl hash pos inc msk =
     (if length tbl \<le> unat pos then None
      else
        (case nd_key (tbl ! unat pos) of
           None \<Rightarrow> Some (Missing \<lparr>hi_hash = hash, hi_where = pos\<rparr>)
         | Some k \<Rightarrow>
             if hash = nd_hash (tbl ! unat pos) \<and> same k then Some (Found pos)
             else find_loop same tbl hash (hash_pos_next pos inc msk) inc msk))"

definition hash_find :: "'d hash_table \<Rightarrow> u8 list \<Rightarrow> find_result option" where
  "hash_find head key =
     (let hash = hash_calc key; msk = hash_mask (ht_size head)
      in find_loop (\<lambda>k. cstr key = cstr k) (ht_table head) hash
           (hash_pos hash msk) (hash_inc hash msk) msk)"

definition hash_findi :: "'d hash_table \<Rightarrow> u8 list \<Rightarrow> find_result option" where
  "hash_findi head key =
     (let hash = hash_calci key; msk = hash_mask (ht_size head)
      in find_loop (\<lambda>k. nasm_stricmp key k = 0) (ht_table head) hash
           (hash_pos hash msk) (hash_inc hash msk) msk)"

partial_function (option) free_loop ::
    "'d hash_tbl_node list \<Rightarrow> u64 \<Rightarrow> u64 \<Rightarrow> u64 \<Rightarrow> u64 option" where
  "free_loop newtbl pos inc msk =
     (if length newtbl \<le> unat pos then None
      else if nd_key (newtbl ! unat pos) = None then Some pos
      else free_loop newtbl (hash_pos_next pos inc msk) inc msk)"

text \<open>
  The loop over the old table. The pointer \<open>np\<close> to the new node is an index into the old table
  until the node is copied, and into the new one from then on.
\<close>

datatype node_ptr = Old nat | New u64

fun rebalance :: "'d hash_tbl_node list \<Rightarrow> nat \<Rightarrow> u64 \<Rightarrow> 'd hash_tbl_node list \<Rightarrow> node_ptr \<Rightarrow>
    ('d hash_tbl_node list \<times> node_ptr) option" where
  "rebalance [] i msk newtbl np = Some (newtbl, np)"
| "rebalance (op # ops) i msk newtbl np =
     (if nd_key op = None then rebalance ops (Suc i) msk newtbl np
      else do {
        pos \<leftarrow> free_loop newtbl (hash_pos (nd_hash op) msk) (hash_inc (nd_hash op) msk) msk;
        rebalance ops (Suc i) msk (newtbl[unat pos := op]) (if np = Old i then New pos else np)
      })"

definition ptr_index :: "node_ptr \<Rightarrow> nat" where
  "ptr_index np = (case np of Old i \<Rightarrow> i | New pos \<Rightarrow> unat pos)"

text \<open>The result is the table and the index of the new node, whose data the caller may change.\<close>

definition hash_add :: "'d hash_table \<Rightarrow> hash_insert \<Rightarrow> u8 list \<Rightarrow> 'd option \<Rightarrow>
    ('d hash_table \<times> nat) option" where
  "hash_add head ins key data =
     (let np = hi_where ins;
          head = head\<lparr>ht_table := (ht_table head)[unat np :=
                        \<lparr>nd_hash = hi_hash ins, nd_key = Some key, nd_data = data\<rparr>],
                      ht_load := ht_load head + 1\<rparr>
      in if ht_max_load head < ht_load head
         then
           (let newsize = hash_expand (ht_size head); newtbl = alloc_table newsize;
                msk = hash_mask newsize
            in do {
              (newtbl, p) \<leftarrow> rebalance (ht_table head) 0 msk newtbl (Old (unat np));
              Some (head\<lparr>ht_table := newtbl, ht_size := newsize, ht_max_load := hash_max_load newsize\<rparr>,
                    ptr_index p)
            })
         else Some (head, unat np))"

text \<open>
  \<open>hash_iterate\<close>: the data of the next node, the new iterator and the key; an iterator \<open>None\<close> is
  \<open>NULL\<close>.
\<close>

function iterate_loop :: "'d hash_tbl_node list \<Rightarrow> nat \<Rightarrow> nat \<Rightarrow> 'd option \<times> nat option \<times> u8 list option" where
  "iterate_loop tbl np ep =
     (if np < ep
      then if nd_key (tbl ! np) \<noteq> None
           then (nd_data (tbl ! np), Some (Suc np), nd_key (tbl ! np))
           else iterate_loop tbl (Suc np) ep
      else (None, None, None))"
  by pat_completeness auto
termination
  by (relation "measure (\<lambda>(tbl, np, ep). ep - np)") auto

declare iterate_loop.simps [simp del]

definition hash_iterate :: "'d hash_table \<Rightarrow> nat option \<Rightarrow> 'd option \<times> nat option \<times> u8 list option" where
  "hash_iterate head iterator =
     (case iterator of
        None \<Rightarrow> if ht_table head = [] then (None, None, None)
                 else iterate_loop (ht_table head) 0 (unat (ht_size head))
      | Some np \<Rightarrow> iterate_loop (ht_table head) np (unat (ht_size head)))"

definition hash_free :: "'d hash_table \<Rightarrow> 'd hash_table" where
  "hash_free head = head\<lparr>ht_table := []\<rparr>"

text \<open>The preprocessor's find-or-add, which copies the key, and its lookup.\<close>

definition hash_findi_add :: "'d hash_table \<Rightarrow> u8 list \<Rightarrow> ('d hash_table \<times> nat) option" where
  "hash_findi_add hash str =
     do {
       r \<leftarrow> hash_findi hash str;
       (case r of
          Found pos \<Rightarrow> Some (hash, unat pos)
        | Missing hi \<Rightarrow> hash_add hash hi (cstr str) None)
     }"

definition hash_findix :: "'d hash_table \<Rightarrow> u8 list \<Rightarrow> 'd option option" where
  "hash_findix hash str =
     do {
       p \<leftarrow> hash_findi hash str;
       (case p of
          Found pos \<Rightarrow> Some (nd_data (ht_table hash ! unat pos))
        | Missing _ \<Rightarrow> Some None)
     }"

section \<open>Probing\<close>

lemma mask_exp: "k < 64 \<Longrightarrow> hash_mask (2 ^ k) = mask k"
  by (simp add: hash_mask_def mask_eq_exp_minus_1)

text \<open>The \<open>n\<close>-th slot that a search for a hash looks at.\<close>

definition probe :: "nat \<Rightarrow> u64 \<Rightarrow> nat \<Rightarrow> u64" where
  "probe k h n = (hash_pos h (mask k) + of_nat n * hash_inc h (mask k)) AND mask k"

lemma probe_0: "probe k h 0 = hash_pos h (mask k)"
  by (simp add: probe_def hash_pos_def)

lemma len64: "LENGTH(64) = 64"
  by simp

lemma mod_exp_64: "k \<le> 64 \<Longrightarrow> n mod 2 ^ 64 mod 2 ^ k = n mod (2 ^ k :: nat)"
  by (rule mod_mod_cancel) (rule le_imp_power_dvd)

lemma and_mask_add:
  fixes a b :: u64
  assumes "k \<le> 64"
  shows "((a AND mask k) + b) AND mask k = (a + b) AND mask k"
  unfolding word_unat_eq_iff unat_and_mask unat_word_ariths len64
  by (simp only: mod_exp_64 [OF assms] mod_add_left_eq)

lemma probe_Suc:
  "k \<le> 64 \<Longrightarrow> hash_pos_next (probe k h n) (hash_inc h (mask k)) (mask k) = probe k h (Suc n)"
  unfolding hash_pos_next_def probe_def of_nat_Suc
  by (simp only: and_mask_add distrib_right mult_1_left add.assoc add.commute [of "hash_inc h (mask k)"])

lemma unat_probe:
  assumes "k \<le> 64"
  shows "unat (probe k h n) = (unat (hash_pos h (mask k)) + n * unat (hash_inc h (mask k))) mod 2 ^ k"
proof -
  have d: "(2::nat) ^ k dvd 2 ^ 64" using assms by (rule le_imp_power_dvd)
  have "unat (probe k h n) = unat (hash_pos h (mask k) + of_nat n * hash_inc h (mask k)) mod 2 ^ k"
    by (simp only: probe_def unat_and_mask)
  also have "\<dots> = ((unat (hash_pos h (mask k)) + (n mod 2 ^ 64 * unat (hash_inc h (mask k))) mod 2 ^ 64) mod 2 ^ 64) mod 2 ^ k"
    by (simp only: unat_word_ariths unat_of_nat len64)
  also have "\<dots> = (unat (hash_pos h (mask k)) + (n mod 2 ^ 64 * unat (hash_inc h (mask k))) mod 2 ^ 64) mod 2 ^ k"
    by (rule mod_mod_cancel [OF d])
  also have "\<dots> = (unat (hash_pos h (mask k)) + (n * unat (hash_inc h (mask k))) mod 2 ^ 64) mod 2 ^ k"
    by (simp only: mod_mult_left_eq)
  also have "\<dots> = (unat (hash_pos h (mask k)) + (n * unat (hash_inc h (mask k))) mod 2 ^ 64 mod 2 ^ k) mod 2 ^ k"
    by (simp only: mod_add_right_eq)
  also have "\<dots> = (unat (hash_pos h (mask k)) + n * unat (hash_inc h (mask k))) mod 2 ^ k"
    unfolding mod_mod_cancel [OF d] by (simp only: mod_add_right_eq)
  finally show ?thesis .
qed

lemma probe_less: "k \<le> 64 \<Longrightarrow> unat (probe k h n) < 2 ^ k"
  by (simp add: unat_probe)

lemma odd_inc: "odd (unat (hash_inc h m))"
proof -
  have "bit (unat (hash_inc h m)) 0"
    by (simp add: hash_inc_def bit_unsigned_iff bit_or_iff del: bit_0)
  then show ?thesis by (simp add: bit_0)
qed

lemma mult_odd_inj:
  fixes p c k n n' :: nat
  assumes "odd c" "(p + n * c) mod 2 ^ k = (p + n' * c) mod 2 ^ k" "n < 2 ^ k" "n' < 2 ^ k"
  shows "n = n'"
proof -
  have "(int p + int n * int c) mod 2 ^ k = (int p + int n' * int c) mod 2 ^ k"
    using arg_cong [OF assms(2), of int] by (simp add: of_nat_mod)
  then have "2 ^ k dvd (int n - int n') * int c"
    by (simp add: mod_eq_dvd_iff algebra_simps)
  moreover have "coprime (2 ^ k) (int c)" using assms(1) by simp
  ultimately have "2 ^ k dvd int n - int n'" by (simp add: coprime_dvd_mult_left_iff)
  moreover have "\<bar>int n - int n'\<bar> < 2 ^ k"
  proof -
    have "int n < 2 ^ k" "int n' < 2 ^ k" using assms(3,4) by simp_all
    then show ?thesis by linarith
  qed
  ultimately have "int n - int n' = 0" by (metis dvd_imp_le_int linorder_not_le abs_power2 abs_numeral power_abs)
  then show ?thesis by simp
qed

text \<open>Every slot is looked at among the first \<open>2 ^ k\<close> probes, because the increment is odd.\<close>

lemma probe_cycle:
  assumes "k \<le> 64" "i < 2 ^ k"
  obtains n where "n < 2 ^ k" "unat (probe k h n) = i"
proof -
  have inj: "inj_on (\<lambda>n. unat (probe k h n)) {..<2 ^ k}"
    by (rule inj_onI) (use assms(1) odd_inc in \<open>auto simp: unat_probe dest!: mult_odd_inj\<close>)
  have "(\<lambda>n. unat (probe k h n)) ` {..<2 ^ k} \<subseteq> {..<2 ^ k}"
    using probe_less [OF assms(1)] by auto
  then have "(\<lambda>n. unat (probe k h n)) ` {..<2 ^ k} = {..<2 ^ k}"
    by (intro endo_inj_surj inj) simp_all
  then have "i \<in> (\<lambda>n. unat (probe k h n)) ` {..<2 ^ k}" using assms(2) by simp
  then show thesis using that by auto
qed

abbreviation occupied :: "'d hash_tbl_node \<Rightarrow> bool" where
  "occupied nd \<equiv> nd_key nd \<noteq> None"

lemma find_loop_probe:
  assumes "k < 64" "length tbl = 2 ^ k"
    and "\<And>j. j < m \<Longrightarrow> occupied (tbl ! unat (probe k h j)) \<and>
      \<not> (h = nd_hash (tbl ! unat (probe k h j)) \<and> same (the (nd_key (tbl ! unat (probe k h j)))))"
    and "n \<le> m"
  shows "find_loop same tbl h (probe k h n) (hash_inc h (mask k)) (mask k)
    = find_loop same tbl h (probe k h m) (hash_inc h (mask k)) (mask k)"
  using assms(4)
proof (induction "m - n" arbitrary: n)
  case (Suc d)
  then have n: "n < m" by simp
  obtain key where key: "nd_key (tbl ! unat (probe k h n)) = Some key"
    "\<not> (h = nd_hash (tbl ! unat (probe k h n)) \<and> same key)"
    using assms(3) [OF n] by auto
  have "find_loop same tbl h (probe k h n) (hash_inc h (mask k)) (mask k)
      = find_loop same tbl h (probe k h (Suc n)) (hash_inc h (mask k)) (mask k)"
    using key probe_less [of k h n] assms(1,2)
    by (subst find_loop.simps) (auto simp: probe_Suc)
  also have "\<dots> = find_loop same tbl h (probe k h m) (hash_inc h (mask k)) (mask k)"
    using Suc.hyps(1) [of "Suc n"] Suc.hyps(2) n by simp
  finally show ?case .
qed simp

lemma free_loop_probe:
  assumes "k < 64" "length tbl = 2 ^ k"
    and "\<And>j. j < m \<Longrightarrow> occupied (tbl ! unat (probe k h j))"
    and "\<not> occupied (tbl ! unat (probe k h m))" and "n \<le> m"
  shows "free_loop tbl (probe k h n) (hash_inc h (mask k)) (mask k) = Some (probe k h m)"
  using assms(5)
proof (induction "m - n" arbitrary: n)
  case 0
  then have "n = m" by simp
  then show ?case using assms(1,2,4) probe_less [of k h m] by (subst free_loop.simps) auto
next
  case (Suc d)
  then have n: "n < m" by simp
  show ?case
    using Suc.hyps(1) [of "Suc n"] Suc.hyps(2) n assms(3) [OF n] assms(1,2) probe_less [of k h n]
    by (subst free_loop.simps) (auto simp: probe_Suc)
qed

lemma first_vacant:
  assumes "k \<le> 64" "length tbl = 2 ^ k" "\<exists>nd \<in> set tbl. \<not> occupied nd"
  obtains m where "\<not> occupied (tbl ! unat (probe k h m))"
    "\<And>j. j < m \<Longrightarrow> occupied (tbl ! unat (probe k h j))"
proof -
  obtain i where "i < 2 ^ k" "\<not> occupied (tbl ! i)"
    using assms(2,3) by (metis in_set_conv_nth)
  then obtain n where "\<not> occupied (tbl ! unat (probe k h n))"
    using probe_cycle [OF assms(1)] by metis
  then show thesis
    using that [of "LEAST n. \<not> occupied (tbl ! unat (probe k h n))"]
      LeastI [of "\<lambda>n. \<not> occupied (tbl ! unat (probe k h n))"] not_less_Least by blast
qed

section \<open>Placement of the nodes\<close>

text \<open>
  Every node can be reached from the first slot of its hash over occupied slots.
  A new node keeps this when it is written to the first vacant slot of its hash.
\<close>

definition placed :: "nat \<Rightarrow> 'd hash_tbl_node list \<Rightarrow> bool" where
  "placed k tbl \<longleftrightarrow> k < 64 \<and> length tbl = 2 ^ k \<and>
     (\<forall>i < 2 ^ k. occupied (tbl ! i) \<longrightarrow>
        (\<exists>n. unat (probe k (nd_hash (tbl ! i)) n) = i \<and>
             (\<forall>j < n. occupied (tbl ! unat (probe k (nd_hash (tbl ! i)) j)))))"

definition nodes :: "'d hash_tbl_node list \<Rightarrow> 'd hash_tbl_node list" where
  "nodes tbl = filter occupied tbl"

lemma placed_update:
  assumes tbl: "placed k tbl" and m: "\<not> occupied (tbl ! unat (probe k (nd_hash nd) m))"
    "\<And>j. j < m \<Longrightarrow> occupied (tbl ! unat (probe k (nd_hash nd) j))" and nd: "occupied nd"
  shows "placed k (tbl[unat (probe k (nd_hash nd) m) := nd])"
proof -
  let ?p = "unat (probe k (nd_hash nd) m)"
  let ?t = "tbl[?p := nd]"
  have len: "length tbl = 2 ^ k" "k < 64" using tbl by (simp_all add: placed_def)
  have p: "?p < length tbl" using probe_less [of k "nd_hash nd" m] len by simp
  have keep: "occupied (tbl ! i) \<Longrightarrow> occupied (?t ! i)" for i
    using p nd by (cases "i = ?p") simp_all
  have "\<exists>n. unat (probe k (nd_hash (?t ! i)) n) = i \<and>
      (\<forall>j < n. occupied (?t ! unat (probe k (nd_hash (?t ! i)) j)))"
    if "i < 2 ^ k" "occupied (?t ! i)" for i
  proof (cases "i = ?p")
    case True
    then have "?t ! i = nd" using p by simp
    then show ?thesis using True m(2) keep by auto
  next
    case False
    then have i: "?t ! i = tbl ! i" by simp
    then have "occupied (tbl ! i)" using that(2) by simp
    then have "\<exists>n. unat (probe k (nd_hash (tbl ! i)) n) = i \<and>
        (\<forall>j < n. occupied (tbl ! unat (probe k (nd_hash (tbl ! i)) j)))"
      using tbl that(1) by (simp add: placed_def)
    then show ?thesis unfolding i using keep by blast
  qed
  then show ?thesis using len by (simp add: placed_def)
qed

lemma mset_nodes_update:
  assumes "i < length tbl" "\<not> occupied (tbl ! i)" "occupied nd"
  shows "mset (nodes (tbl[i := nd])) = add_mset nd (mset (nodes tbl))"
proof -
  have "nodes tbl = nodes (take i tbl @ tbl ! i # drop (Suc i) tbl)"
    by (rule arg_cong) (rule id_take_nth_drop [OF assms(1)])
  also have "\<dots> = nodes (take i tbl) @ nodes (drop (Suc i) tbl)"
    using assms(2) by (simp add: nodes_def)
  finally show ?thesis using assms(1,3) by (simp add: upd_conv_take_nth_drop nodes_def)
qed

lemma ex_vacant: "length (nodes tbl) < length tbl \<Longrightarrow> \<exists>nd \<in> set tbl. \<not> occupied nd"
  unfolding nodes_def by (rule ccontr) (auto simp: filter_id_conv [THEN iffD2])

lemma placed_alloc: "k < 64 \<Longrightarrow> placed k (alloc_table (2 ^ k))"
  by (simp add: placed_def alloc_table_def unat_2_power empty_node_def)

lemma nodes_alloc: "nodes (alloc_table sz) = []"
  by (simp add: nodes_def alloc_table_def empty_node_def)

lemma free_loop_place:
  assumes "placed k tbl" "length (nodes tbl) < 2 ^ k" "occupied nd"
  obtains pos where
    "free_loop tbl (hash_pos (nd_hash nd) (mask k)) (hash_inc (nd_hash nd) (mask k)) (mask k) = Some pos"
    "unat pos < length tbl" "\<not> occupied (tbl ! unat pos)" "placed k (tbl[unat pos := nd])"
    "mset (nodes (tbl[unat pos := nd])) = add_mset nd (mset (nodes tbl))"
proof -
  have len: "length tbl = 2 ^ k" "k < 64" using assms(1) by (simp_all add: placed_def)
  obtain m where m: "\<not> occupied (tbl ! unat (probe k (nd_hash nd) m))"
    "\<And>j. j < m \<Longrightarrow> occupied (tbl ! unat (probe k (nd_hash nd) j))"
    using first_vacant [of k tbl] ex_vacant assms(2) len
    by (metis less_imp_le)
  have l: "unat (probe k (nd_hash nd) m) < length tbl"
    using probe_less [of k "nd_hash nd" m] len by simp
  show thesis
    by (rule that [of "probe k (nd_hash nd) m"])
      (use free_loop_probe [OF len(2,1) m(2,1), of 0] probe_0 placed_update [OF assms(1) m assms(3)]
        mset_nodes_update [OF l m(1) assms(3)] l m in auto)
qed

text \<open>The rebalancing loop copies all nodes, and follows the pointer to the new one.\<close>

definition rebalanced :: "nat \<Rightarrow> nat \<Rightarrow> 'd hash_tbl_node list \<Rightarrow> 'd hash_tbl_node list \<Rightarrow> node_ptr \<Rightarrow>
    'd hash_tbl_node list \<Rightarrow> node_ptr \<Rightarrow> bool" where
  "rebalanced k i ops newtbl np newtbl' np' \<longleftrightarrow> placed k newtbl' \<and>
     mset (nodes newtbl') = mset (nodes newtbl) + mset (nodes ops) \<and>
     (\<forall>j < 2 ^ k. occupied (newtbl ! j) \<longrightarrow> newtbl' ! j = newtbl ! j) \<and>
     (\<forall>j. i \<le> j \<and> j < i + length ops \<and> np = Old j \<and> occupied (ops ! (j - i)) \<longrightarrow>
       (\<exists>pos. np' = New pos \<and> unat pos < 2 ^ k \<and> newtbl' ! unat pos = ops ! (j - i))) \<and>
     ((\<forall>j \<ge> i. np \<noteq> Old j) \<longrightarrow> np' = np)"

lemma rebalanced_vacant:
  assumes "\<not> occupied op" "rebalanced k (Suc i) ops newtbl np newtbl' np'"
  shows "rebalanced k i (op # ops) newtbl np newtbl' np'"
proof -
  note r = assms(2) [unfolded rebalanced_def]
  have "\<exists>pos. np' = New pos \<and> unat pos < 2 ^ k \<and> newtbl' ! unat pos = (op # ops) ! (j - i)"
    if "i \<le> j" "j < i + length (op # ops)" "np = Old j" "occupied ((op # ops) ! (j - i))" for j
  proof -
    have "j \<noteq> i" using that(4) assms(1) by auto
    then have "j - i = Suc (j - Suc i)" "Suc i \<le> j" using that(1) by auto
    then show ?thesis using r that by simp
  qed
  moreover have "np' = np" if "\<forall>j \<ge> i. np \<noteq> Old j"
    using r that by simp
  ultimately show ?thesis using r assms(1) by (simp add: rebalanced_def nodes_def)
qed

lemma rebalanced_copy:
  assumes op: "occupied op" and len: "length newtbl = 2 ^ k"
    and pos: "unat pos < length newtbl" "\<not> occupied (newtbl ! unat pos)"
    and r: "rebalanced k (Suc i) ops (newtbl[unat pos := op]) (if np = Old i then New pos else np) newtbl' np'"
  shows "rebalanced k i (op # ops) newtbl np newtbl' np'"
proof -
  let ?t = "newtbl[unat pos := op]" and ?np = "if np = Old i then New pos else np"
  note r = r [unfolded rebalanced_def]
  have kept: "newtbl' ! j = ?t ! j" if "j < 2 ^ k" "occupied (?t ! j)" for j
    using r [THEN conjunct2, THEN conjunct2, THEN conjunct1] that by simp
  have new: "newtbl' ! unat pos = op"
    using kept [of "unat pos"] pos(1) op len by simp
  have keep: "newtbl' ! j = newtbl ! j" if "j < 2 ^ k" "occupied (newtbl ! j)" for j
    using kept [of j] that pos(2) by (cases "j = unat pos") simp_all
  note track = r [THEN conjunct2, THEN conjunct2, THEN conjunct2]
  have moved: "\<exists>pos. np' = New pos \<and> unat pos < 2 ^ k \<and> newtbl' ! unat pos = (op # ops) ! (j - i)"
    if "i \<le> j" "j < i + length (op # ops)" "np = Old j" "occupied ((op # ops) ! (j - i))" for j
  proof (cases "j = i")
    case True
    then have "?np = New pos" using that(3) by simp
    then have "np' = New pos" using track [THEN conjunct2] by simp
    then show ?thesis using True pos(1) new len by simp
  next
    case False
    then have j: "j - i = Suc (j - Suc i)" "Suc i \<le> j" "?np = Old j" using that(1,3) by auto
    then have "\<exists>pos. np' = New pos \<and> unat pos < 2 ^ k \<and> newtbl' ! unat pos = ops ! (j - Suc i)"
      using track [THEN conjunct1, rule_format, of j] that by simp
    then show ?thesis unfolding j(1) by simp
  qed
  have same: "np' = np" if "\<forall>j \<ge> i. np \<noteq> Old j"
  proof -
    have "?np = np" using that by simp
    then show ?thesis using track [THEN conjunct2] that by simp
  qed
  have m: "mset (nodes newtbl') = mset (nodes newtbl) + mset (nodes (op # ops))"
    using r [THEN conjunct2, THEN conjunct1] mset_nodes_update [OF pos op] op by (simp add: nodes_def)
  show ?thesis
    unfolding rebalanced_def
    by (intro conjI r [THEN conjunct1] m) (use keep moved same in blast)+
qed

lemma rebalance_correct:
  assumes "placed k newtbl" "length (nodes newtbl) + length (nodes ops) < 2 ^ k"
  shows "\<exists>newtbl' np'. rebalance ops i (mask k) newtbl np = Some (newtbl', np') \<and>
    rebalanced k i ops newtbl np newtbl' np'"
  using assms
proof (induction ops arbitrary: i newtbl np)
  case Nil
  then show ?case by (auto simp: rebalanced_def nodes_def)
next
  case (Cons op ops)
  show ?case
  proof (cases "occupied op")
    case False
    then have "length (nodes newtbl) + length (nodes ops) < 2 ^ k"
      using Cons.prems by (simp add: nodes_def)
    from Cons.IH [OF Cons.prems(1) this, of "Suc i" np] False show ?thesis
      by (auto intro: rebalanced_vacant)
  next
    case True
    then have "length (nodes newtbl) < 2 ^ k" using Cons.prems(2) by simp
    from free_loop_place [OF Cons.prems(1) this True] obtain pos where pos:
      "free_loop newtbl (hash_pos (nd_hash op) (mask k)) (hash_inc (nd_hash op) (mask k)) (mask k) = Some pos"
      "unat pos < length newtbl" "\<not> occupied (newtbl ! unat pos)" "placed k (newtbl[unat pos := op])"
      "mset (nodes (newtbl[unat pos := op])) = add_mset op (mset (nodes newtbl))" .
    have len: "length newtbl = 2 ^ k" using Cons.prems(1) by (simp add: placed_def)
    have "length (nodes (newtbl[unat pos := op])) = Suc (length (nodes newtbl))"
      using arg_cong [OF pos(5), of size] by simp
    then have "length (nodes (newtbl[unat pos := op])) + length (nodes ops) < 2 ^ k"
      using Cons.prems(2) True by (simp add: nodes_def)
    from Cons.IH [OF pos(4) this, of "Suc i" "if np = Old i then New pos else np"]
      rebalanced_copy [OF True len pos(2,3)]
    show ?thesis using True pos(1) by auto
  qed
qed

section \<open>The table as a map\<close>

text \<open>
  Two keys are the same key if \<open>canon\<close> maps them to the same value, and \<open>hcalc\<close> is the hash
  function: \<open>cstr\<close> and \<open>hash_calc\<close> for \<open>hash_find\<close>, the lower-cased string and \<open>hash_calci\<close> for
  \<open>hash_findi\<close>. The bound on the size keeps \<open>size * sizeof (node)\<close> below \<open>2 ^ 64\<close>.
\<close>

definition canon_key :: "(u8 list \<Rightarrow> u8 list) \<Rightarrow> 'd hash_tbl_node \<Rightarrow> u8 list" where
  "canon_key canon nd = canon (the (nd_key nd))"

definition hash_ok :: "(u8 list \<Rightarrow> u8 list) \<Rightarrow> (u8 list \<Rightarrow> u64) \<Rightarrow> 'd hash_table \<Rightarrow> bool" where
  "hash_ok canon hcalc t \<longleftrightarrow>
     (\<exists>k \<le> 58. ht_size t = 2 ^ k \<and> placed k (ht_table t)) \<and>
     ht_max_load t = hash_max_load (ht_size t) \<and>
     unat (ht_load t) = length (nodes (ht_table t)) \<and> ht_load t \<le> ht_max_load t \<and>
     (\<forall>nd \<in> set (nodes (ht_table t)). nd_hash nd = hcalc (the (nd_key nd))) \<and>
     distinct (map (canon_key canon) (nodes (ht_table t)))"

definition entry :: "(u8 list \<Rightarrow> u8 list) \<Rightarrow> 'd hash_tbl_node \<Rightarrow> u8 list \<times> 'd option" where
  "entry canon nd = (canon_key canon nd, nd_data nd)"

definition hash_map :: "(u8 list \<Rightarrow> u8 list) \<Rightarrow> 'd hash_table \<Rightarrow> u8 list \<rightharpoonup> 'd option" where
  "hash_map canon t = map_of (map (entry canon) (nodes (ht_table t)))"

text \<open>What a search that does not find the key promises to \<open>hash_add\<close>.\<close>

definition vacant_for :: "u64 \<Rightarrow> 'd hash_table \<Rightarrow> hash_insert \<Rightarrow> bool" where
  "vacant_for h t hi \<longleftrightarrow> hi_hash hi = h \<and>
     (\<exists>k m. ht_size t = 2 ^ k \<and> k < 64 \<and> hi_where hi = probe k h m \<and>
        \<not> occupied (ht_table t ! unat (probe k h m)) \<and>
        (\<forall>j < m. occupied (ht_table t ! unat (probe k h j))))"

lemma unat_max_load: "k < 64 \<Longrightarrow> unat (hash_max_load (2 ^ k)) = 2 ^ k div 2"
  by (simp add: hash_max_load_def HASH_MAX_LOAD_def unat_div unat_2_power)

lemma hash_ok_vacant:
  assumes "hash_ok canon hcalc t" "ht_size t = 2 ^ k" "placed k (ht_table t)"
  shows "length (nodes (ht_table t)) < 2 ^ k"
proof -
  have "k < 64" using assms(3) by (simp add: placed_def)
  have "unat (ht_load t) \<le> unat (ht_max_load t)" "unat (ht_load t) = length (nodes (ht_table t))"
    "ht_max_load t = hash_max_load (2 ^ k)"
    using assms(1,2) by (auto simp: hash_ok_def word_le_nat_alt)
  then have "length (nodes (ht_table t)) \<le> 2 ^ k div 2"
    using \<open>k < 64\<close> by (simp add: unat_max_load)
  also have "\<dots> < 2 ^ k" by simp
  finally show ?thesis .
qed

lemma set_nodes: "nd \<in> set (nodes tbl) \<longleftrightarrow> (\<exists>i < length tbl. tbl ! i = nd \<and> occupied nd)"
  by (auto simp: nodes_def in_set_conv_nth)

lemma nodes_inj:
  assumes "distinct (map f (nodes tbl))" "i < length tbl" "j < length tbl"
    "occupied (tbl ! i)" "occupied (tbl ! j)" "f (tbl ! i) = f (tbl ! j)"
  shows "i = j"
  using assms
proof (induction tbl arbitrary: i j)
  case (Cons nd tbl)
  have tail: "tbl ! i' \<in> set (nodes tbl)" if "i' < length tbl" "occupied (tbl ! i')" for i'
    using that by (auto simp: set_nodes)
  have d: "distinct (map f (nodes tbl))" using Cons.prems(1) by (cases "occupied nd") (auto simp: nodes_def)
  have n: "f nd \<notin> f ` set (nodes tbl)" if "occupied nd"
    using Cons.prems(1) that by (simp add: nodes_def)
  show ?case
    using Cons.prems(2-6) Cons.IH [OF d] tail n
    by (cases i; cases j) (simp; metis image_eqI)+
qed simp

locale key_order =
  fixes canon :: "u8 list \<Rightarrow> u8 list" and hcalc :: "u8 list \<Rightarrow> u64"
  assumes hcalc_canon: "canon a = canon b \<Longrightarrow> hcalc a = hcalc b"
begin

lemma find_correct:
  assumes ok: "hash_ok canon hcalc (t :: 'd hash_table)" and same: "\<And>k. same k \<longleftrightarrow> canon key = canon k"
  defines "msk \<equiv> hash_mask (ht_size t)"
  defines "r \<equiv> find_loop same (ht_table t) (hcalc key) (hash_pos (hcalc key) msk) (hash_inc (hcalc key) msk) msk"
  shows "(case hash_map canon t (canon key) of
       Some d \<Rightarrow> \<exists>pos. r = Some (Found pos) \<and> unat pos < length (ht_table t) \<and>
                   entry canon (ht_table t ! unat pos) = (canon key, d)
     | None \<Rightarrow> \<exists>hi. r = Some (Missing hi) \<and> vacant_for (hcalc key) t hi)"
proof -
  obtain k where k: "k \<le> 58" "ht_size t = 2 ^ k" "placed k (ht_table t)"
    using ok by (auto simp: hash_ok_def)
  have len: "k < 64" "length (ht_table t) = 2 ^ k" using k by (simp_all add: placed_def)
  have msk: "msk = mask k" using len(1) k(2) by (simp add: msk_def mask_exp)
  let ?h = "hcalc key" and ?tbl = "ht_table t"
  have in_tbl: "unat (probe k ?h n) < length ?tbl" for n
    using probe_less [of k ?h n] len by simp
  have hash: "nd_hash nd = hcalc (the (nd_key nd))" if "nd \<in> set (nodes ?tbl)" for nd
    using ok that by (simp add: hash_ok_def)
  have dist: "distinct (map (canon_key canon) (nodes ?tbl))" using ok by (simp add: hash_ok_def)
  note steps = find_loop_probe [OF len, where h = ?h and same = same and n = 0, folded msk, unfolded probe_0, folded msk]
  show ?thesis
  proof (cases "hash_map canon t (canon key)")
    case None
    then have "canon key \<notin> canon_key canon ` set (nodes ?tbl)"
      by (simp add: hash_map_def map_of_eq_None_iff entry_def image_image)
    then have no: "canon_key canon nd \<noteq> canon key" if "nd \<in> set (nodes ?tbl)" for nd
      using that by (metis image_eqI)
    have "\<exists>nd \<in> set ?tbl. \<not> occupied nd"
      using hash_ok_vacant [OF ok k(2,3)] len(2) by (intro ex_vacant) simp
    from first_vacant [where h = ?h, OF less_imp_le [OF len(1)] len(2) this]
    obtain m where m: "\<not> occupied (?tbl ! unat (probe k ?h m))"
      "\<And>j. j < m \<Longrightarrow> occupied (?tbl ! unat (probe k ?h j))" by blast
    have "\<not> same (the (nd_key (?tbl ! unat (probe k ?h j))))" if "j < m" for j
    proof -
      have "?tbl ! unat (probe k ?h j) \<in> set (nodes ?tbl)"
        unfolding set_nodes using m(2) [OF that] in_tbl by blast
      from no [OF this] show ?thesis unfolding same canon_key_def by (rule not_sym)
    qed
    then have "r = find_loop same ?tbl ?h (probe k ?h m) (hash_inc ?h msk) msk"
      unfolding r_def using m(2) by (intro steps) auto
    also have "\<dots> = Some (Missing \<lparr>hi_hash = ?h, hi_where = probe k ?h m\<rparr>)"
      using m(1) in_tbl [of m] by (subst find_loop.simps) simp
    finally have "r = Some (Missing \<lparr>hi_hash = ?h, hi_where = probe k ?h m\<rparr>)" .
    moreover have "vacant_for ?h t \<lparr>hi_hash = ?h, hi_where = probe k ?h m\<rparr>"
      unfolding vacant_for_def hash_insert.simps
      by (intro conjI refl exI [of _ k] exI [of _ m] allI impI k(2) len(1) m)
    ultimately show ?thesis unfolding None by simp
  next
    case (Some d)
    then have "(canon key, d) \<in> entry canon ` set (nodes ?tbl)"
      unfolding hash_map_def by (metis map_of_SomeD set_map)
    then obtain i where i: "i < length ?tbl" "occupied (?tbl ! i)" "entry canon (?tbl ! i) = (canon key, d)"
      by (auto simp: set_nodes)
    have ck: "canon_key canon (?tbl ! i) = canon key" using i(3) by (simp add: entry_def)
    have "?tbl ! i \<in> set (nodes ?tbl)" unfolding set_nodes using i(1,2) by blast
    from hash [OF this] have hi: "nd_hash (?tbl ! i) = ?h"
      using hcalc_canon [OF ck [unfolded canon_key_def]] by simp
    have "\<exists>n. unat (probe k (nd_hash (?tbl ! i)) n) = i \<and>
        (\<forall>j < n. occupied (?tbl ! unat (probe k (nd_hash (?tbl ! i)) j)))"
      using k(3) i(1,2) len(2) by (simp add: placed_def)
    then obtain n where n: "unat (probe k ?h n) = i" "\<And>j. j < n \<Longrightarrow> occupied (?tbl ! unat (probe k ?h j))"
      unfolding hi by blast
    define m where "m = (LEAST n. unat (probe k ?h n) = i)"
    have m: "unat (probe k ?h m) = i" "m \<le> n" "\<And>j. j < m \<Longrightarrow> unat (probe k ?h j) \<noteq> i"
      unfolding m_def using n(1) by (auto intro: LeastI Least_le dest: not_less_Least)
    have "occupied (?tbl ! unat (probe k ?h j)) \<and> \<not> same (the (nd_key (?tbl ! unat (probe k ?h j))))"
      if "j < m" for j
    proof
      show o: "occupied (?tbl ! unat (probe k ?h j))" using n(2) m(2) that by simp
      show "\<not> same (the (nd_key (?tbl ! unat (probe k ?h j))))"
        using nodes_inj [OF dist in_tbl i(1) o i(2)] m(3) [OF that]
        unfolding ck same by (metis canon_key_def)
    qed
    then have "r = find_loop same ?tbl ?h (probe k ?h m) (hash_inc ?h msk) msk"
      unfolding r_def by (intro steps) auto
    also have "\<dots> = Some (Found (probe k ?h m))"
    proof -
      have "same (the (nd_key (?tbl ! i)))" unfolding same by (rule ck [unfolded canon_key_def, symmetric])
      then show ?thesis
        using i(1,2) by (subst find_loop.simps) (auto simp: m(1) hi)
    qed
    finally have "r = Some (Found (probe k ?h m))" .
    then show ?thesis using Some i(1,3) m(1) by simp
  qed
qed

lemma map_of_add:
  assumes "distinct (map fst xs)" "a \<notin> fst ` set xs" "mset ys = add_mset (a, b) (mset xs)"
  shows "map_of ys = (map_of xs)(a \<mapsto> b)" "distinct (map fst ys)"
proof -
  have m: "mset ys = mset ((a, b) # xs)" using assms(3) by simp
  then have "mset (map fst ys) = mset (map fst ((a, b) # xs))" by (metis mset_map)
  then show d: "distinct (map fst ys)"
    using mset_eq_imp_distinct_iff [of "map fst ys" "map fst ((a, b) # xs)"] assms(1,2) by simp
  have "set ys = set ((a, b) # xs)" using m by (metis set_mset_mset)
  moreover have "distinct (map fst ((a, b) # xs))" using assms(1,2) by simp
  ultimately have "map_of ys = map_of ((a, b) # xs)" using d map_of_inject_set by blast
  then show "map_of ys = (map_of xs)(a \<mapsto> b)" by simp
qed

lemma add_ok:
  assumes ok: "hash_ok canon hcalc (t :: 'd hash_table)" and new: "hash_map canon t (canon key) = None"
    and tbl: "placed k tbl" "k \<le> 58"
    and ms: "mset (nodes tbl) = add_mset nd (mset (nodes (ht_table t)))"
    and nd: "nd = \<lparr>nd_hash = hcalc key, nd_key = Some key', nd_data = d\<rparr>" "canon key' = canon key"
    and load: "unat (ht_load t + 1) = Suc (length (nodes (ht_table t)))"
      "ht_load t + 1 \<le> hash_max_load (2 ^ k)"
  defines "t' \<equiv> \<lparr>ht_table = tbl, ht_load = ht_load t + 1, ht_size = 2 ^ k,
      ht_max_load = hash_max_load (2 ^ k)\<rparr>"
  shows "hash_ok canon hcalc t' \<and> hash_map canon t' = (hash_map canon t)(canon key \<mapsto> d)"
proof -
  let ?xs = "map (entry canon) (nodes (ht_table t))" and ?ys = "map (entry canon) (nodes tbl)"
  have ck: "map fst (map (entry canon) ns) = map (canon_key canon) ns" for ns
    by (simp add: entry_def o_def)
  have e: "entry canon nd = (canon key, d)" using nd by (simp add: entry_def canon_key_def)
  have d: "distinct (map fst ?xs)" unfolding ck using ok by (simp add: hash_ok_def)
  have n: "canon key \<notin> fst ` set ?xs" using new by (simp add: hash_map_def map_of_eq_None_iff)
  have "mset ?ys = image_mset (entry canon) (mset (nodes tbl))" by (rule mset_map)
  then have m: "mset ?ys = add_mset (canon key, d) (mset ?xs)" by (simp add: ms e)
  note f = map_of_add [OF d n m]
  have s: "set (nodes tbl) = insert nd (set (nodes (ht_table t)))"
    using arg_cong [OF ms, of set_mset] by simp
  have h: "\<forall>x \<in> set (nodes tbl). nd_hash x = hcalc (the (nd_key x))"
    using ok hcalc_canon [OF nd(2)] nd(1) by (simp add: s hash_ok_def)
  have "length (nodes tbl) = Suc (length (nodes (ht_table t)))"
    using arg_cong [OF ms, of size] by simp
  then have "hash_ok canon hcalc t'"
    using tbl load h f(2) unfolding ck by (auto simp: hash_ok_def t'_def)
  then show ?thesis using f(1) by (simp add: hash_map_def t'_def)
qed

text \<open>
  Adding a key that a search has not found. The bound on the number of nodes is the one on memory:
  the table never has more than \<open>2 ^ 58\<close> slots.
\<close>

lemma add_correct:
  assumes ok: "hash_ok canon hcalc (t :: 'd hash_table)" and new: "hash_map canon t (canon key) = None"
    and hi: "vacant_for (hcalc key) t hi" and key': "canon key' = canon key"
    and small: "unat (ht_load t) < 2 ^ 56"
  shows "\<exists>t' p. hash_add t hi key' d = Some (t', p) \<and> hash_ok canon hcalc t' \<and>
    hash_map canon t' = (hash_map canon t)(canon key \<mapsto> d) \<and> ht_load t' = ht_load t + 1 \<and>
    p < length (ht_table t') \<and>
    ht_table t' ! p = \<lparr>nd_hash = hcalc key, nd_key = Some key', nd_data = d\<rparr>"
proof -
  obtain k where k: "k \<le> 58" "ht_size t = 2 ^ k" "placed k (ht_table t)"
    using ok by (auto simp: hash_ok_def)
  have len: "k < 64" "length (ht_table t) = 2 ^ k" using k by (simp_all add: placed_def)
  let ?nd = "\<lparr>nd_hash = hcalc key, nd_key = Some key', nd_data = d\<rparr>"
  obtain k' m where m: "2 ^ k = (2 :: u64) ^ k'" "k' < 64" "hi_where hi = probe k' (hcalc key) m" "hi_hash hi = hcalc key"
    "\<not> occupied (ht_table t ! unat (probe k' (hcalc key) m))"
    "\<And>j. j < m \<Longrightarrow> occupied (ht_table t ! unat (probe k' (hcalc key) j))"
    using hi k(2) by (auto simp: vacant_for_def)
  have "(2 :: nat) ^ k = 2 ^ k'" using arg_cong [OF m(1), of unat] len(1) m(2) by (simp add: unat_2_power)
  then have k': "k' = k" by simp
  note m = m [unfolded k']
  let ?p = "unat (hi_where hi)"
  let ?tbl = "(ht_table t)[?p := ?nd]"
  have p: "?p < length (ht_table t)" using probe_less [of k "hcalc key" m] m(3) len by simp
  have pl: "placed k ?tbl" using placed_update [OF k(3), of ?nd m] m by simp
  have ms: "mset (nodes ?tbl) = add_mset ?nd (mset (nodes (ht_table t)))"
    using mset_nodes_update [OF p, of ?nd] m by simp
  have ld: "unat (ht_load t) = length (nodes (ht_table t))" using ok by (simp add: hash_ok_def)
  have ld1: "unat (ht_load t + 1) = Suc (length (nodes (ht_table t)))"
    using ld small by (subst unat_add_small) simp_all
  have mx: "ht_max_load t = hash_max_load (2 ^ k)" using ok k(2) by (simp add: hash_ok_def)
  show ?thesis
  proof (cases "ht_load t + 1 \<le> hash_max_load (2 ^ k)")
    case True
    have "hash_add t hi key' d = Some (\<lparr>ht_table = ?tbl, ht_load = ht_load t + 1, ht_size = 2 ^ k,
        ht_max_load = hash_max_load (2 ^ k)\<rparr>, ?p)"
      using True [unfolded not_less [symmetric]] mx k(2) m(4)
      by (cases t) (simp add: hash_add_def Let_def)
    then show ?thesis
      using add_ok [OF ok new pl k(1) ms _ key' ld1 True] p by simp
  next
    case False
    have "2 ^ k div 2 < unat (ht_load t) + 1"
      using False ld ld1 len(1) by (simp add: word_le_nat_alt unat_max_load)
    then have "(2::nat) ^ k \<le> 2 * 2 ^ 56" using small by simp
    then have "(2::nat) ^ k \<le> 2 ^ 57" by simp
    then have k57: "k \<le> 57" by (simp only: power_increasing_iff one_less_numeral_iff semiring_norm)
    have sz: "hash_expand (ht_size t) = 2 ^ Suc k"
      using k(2) by (simp add: hash_expand_def push_bit_eq_mult)
    have msk: "hash_mask (2 ^ Suc k) = mask (Suc k)" using k57 by (intro mask_exp) simp
    have vac: "length (nodes (alloc_table (2 ^ Suc k) :: 'd hash_tbl_node list)) + length (nodes ?tbl) < 2 ^ Suc k"
      using hash_ok_vacant [OF ok k(2,3)] arg_cong [OF ms, of size] by (simp add: nodes_alloc)
    have al: "placed (Suc k) (alloc_table (2 ^ Suc k))" using k57 by (intro placed_alloc) simp
    obtain newtbl np where reb: "rebalance ?tbl 0 (mask (Suc k)) (alloc_table (2 ^ Suc k)) (Old ?p) = Some (newtbl, np)"
      and r: "rebalanced (Suc k) 0 ?tbl (alloc_table (2 ^ Suc k)) (Old ?p) newtbl np"
      using rebalance_correct [OF al vac] by blast
    note r = r [unfolded rebalanced_def]
    have npl: "placed (Suc k) newtbl" using r by (rule conjunct1)
    have nms: "mset (nodes newtbl) = add_mset ?nd (mset (nodes (ht_table t)))"
      using r [THEN conjunct2, THEN conjunct1] ms by (simp add: nodes_alloc)
    have "\<exists>pos. np = New pos \<and> unat pos < 2 ^ Suc k \<and> newtbl ! unat pos = ?tbl ! (?p - 0)"
      by (rule r [THEN conjunct2, THEN conjunct2, THEN conjunct2, THEN conjunct1, rule_format])
        (use p in simp)
    then have at: "ptr_index np < 2 ^ Suc k" "newtbl ! ptr_index np = ?nd"
      using p by (auto simp: ptr_index_def)
    let ?t' = "\<lparr>ht_table = newtbl, ht_load = ht_load t + 1, ht_size = 2 ^ Suc k,
        ht_max_load = hash_max_load (2 ^ Suc k)\<rparr>"
    have add: "hash_add t hi key' d = Some (?t', ptr_index np)"
      using False mx m(4) reb sz msk unfolding not_le hash_add_def Let_def
      by (cases t) (simp del: power_Suc)
    have "length (nodes (ht_table t)) < 2 ^ k" by (rule hash_ok_vacant [OF ok k(2,3)])
    then have "ht_load t + 1 \<le> hash_max_load (2 ^ Suc k)"
      using k57 ld1 by (simp add: word_le_nat_alt unat_max_load del: power_Suc) simp
    from add_ok [OF ok new npl _ nms _ key' ld1 this] k57
    show ?thesis using add at npl by (simp add: placed_def del: power_Suc)
  qed
qed

end

section \<open>The interface of the table\<close>

text \<open>
  What the clients of the table rely on: a search returns a node of the key or a place for it, and
  the key can be added there. \<open>room\<close> bounds the number of entries by the memory of the machine.
\<close>

locale string_table =
  fixes canon :: "u8 list \<Rightarrow> u8 list"
    and ok :: "'t \<Rightarrow> bool"
    and contents :: "'t \<Rightarrow> u8 list \<rightharpoonup> 'd option"
    and load :: "'t \<Rightarrow> nat"
    and datum :: "'t \<Rightarrow> nat \<Rightarrow> 'd option"
    and find :: "'t \<Rightarrow> u8 list \<Rightarrow> find_result option"
    and add :: "'t \<Rightarrow> hash_insert \<Rightarrow> u8 list \<Rightarrow> 'd option \<Rightarrow> ('t \<times> nat) option"
    and room :: nat
  assumes find_Some: "ok t \<Longrightarrow> contents t (canon key) = Some d \<Longrightarrow>
      \<exists>pos. find t key = Some (Found pos) \<and> datum t (unat pos) = d"
    and find_None: "ok t \<Longrightarrow> contents t (canon key) = None \<Longrightarrow> load t < room \<Longrightarrow> canon key' = canon key \<Longrightarrow>
      \<exists>hi t' p. find t key = Some (Missing hi) \<and> add t hi key' d = Some (t', p) \<and> ok t' \<and>
        contents t' = (contents t)(canon key \<mapsto> d) \<and> load t' = Suc (load t) \<and> datum t' p = d"
begin

definition find_or_add :: "'t \<Rightarrow> u8 list \<Rightarrow> u8 list \<Rightarrow> 'd option \<Rightarrow> ('t \<times> nat) option" where
  "find_or_add t key key' d =
     do {
       r \<leftarrow> find t key;
       (case r of Found pos \<Rightarrow> Some (t, unat pos) | Missing hi \<Rightarrow> add t hi key' d)
     }"

lemma find_or_add_correct:
  assumes "ok t" "load t < room" "canon key' = canon key"
  shows "\<exists>t' p. find_or_add t key key' d = Some (t', p) \<and> ok t' \<and>
    contents t' = (if canon key \<in> dom (contents t) then contents t else (contents t)(canon key \<mapsto> d)) \<and>
    Some (datum t' p) = contents t' (canon key) \<and>
    load t' = (if canon key \<in> dom (contents t) then load t else Suc (load t))"
proof (cases "contents t (canon key)")
  case None
  from find_None [OF assms(1) None assms(2,3), of d] None show ?thesis
    by (auto simp: find_or_add_def)
next
  case (Some d')
  from find_Some [OF assms(1) Some] Some assms(1) show ?thesis
    by (auto simp: find_or_add_def)
qed

text \<open>Interning a list of keys keeps the entry of the first key of every class.\<close>

primrec intern_all :: "'t \<Rightarrow> (u8 list \<times> 'd option) list \<Rightarrow> 't option" where
  "intern_all t [] = Some t"
| "intern_all t (kd # kds) = do { (t', p) \<leftarrow> find_or_add t (fst kd) (fst kd) (snd kd); intern_all t' kds }"

lemma intern_all_correct:
  "ok t \<Longrightarrow> load t + length kds < room \<Longrightarrow>
    \<exists>t'. intern_all t kds = Some t' \<and> ok t' \<and>
      contents t' = map_of (map (\<lambda>(k, d). (canon k, d)) kds) ++ contents t"
proof (induction kds arbitrary: t)
  case (Cons kd kds)
  have r: "load t < room" using Cons.prems(2) by simp
  obtain t' p where t': "find_or_add t (fst kd) (fst kd) (snd kd) = Some (t', p)" "ok t'"
    "contents t' = (if canon (fst kd) \<in> dom (contents t) then contents t else (contents t)(canon (fst kd) \<mapsto> snd kd))"
    "load t' = (if canon (fst kd) \<in> dom (contents t) then load t else Suc (load t))"
    using find_or_add_correct [OF Cons.prems(1) r refl, of "fst kd" "snd kd"] by blast
  have "load t' + length kds < room" using t'(4) Cons.prems(2) by (simp split: if_splits)
  from Cons.IH [OF t'(2) this] obtain t'' where t'': "intern_all t' kds = Some t''" "ok t''"
    "contents t'' = map_of (map (\<lambda>(k, d). (canon k, d)) kds) ++ contents t'" by blast
  have "map_of (map (\<lambda>(k, d). (canon k, d)) kds) ++ contents t'
      = map_of (map (\<lambda>(k, d). (canon k, d)) (kd # kds)) ++ contents t"
    unfolding t'(3) by (rule ext, cases kd) (auto simp: map_add_def split: option.splits)
  with t''(3) have "contents t'' = map_of (map (\<lambda>(k, d). (canon k, d)) (kd # kds)) ++ contents t"
    by (rule trans)
  moreover have "intern_all t (kd # kds) = Some t''" using t'(1) t''(1) by simp
  ultimately show ?case using t''(2) by blast
qed simp

end

definition datum :: "'d hash_table \<Rightarrow> nat \<Rightarrow> 'd option" where
  "datum t i = nd_data (ht_table t ! i)"

definition lower :: "u8 list \<Rightarrow> u8 list" where
  "lower s = map nasm_tolower (cstr s)"

interpretation exact: key_order cstr hash_calc
  by unfold_locales (simp add: hash_calc_def crc64_cstr)

interpretation folded: key_order lower hash_calci
  by unfold_locales (simp add: hash_calci_def crc64i_lower crc64_cstr lower_def)

lemma hash_find_cases:
  assumes "hash_ok cstr hash_calc t"
  shows "(case hash_map cstr t (cstr key) of
       Some d \<Rightarrow> \<exists>pos. hash_find t key = Some (Found pos) \<and> unat pos < length (ht_table t) \<and>
                   entry cstr (ht_table t ! unat pos) = (cstr key, d)
     | None \<Rightarrow> \<exists>hi. hash_find t key = Some (Missing hi) \<and> vacant_for (hash_calc key) t hi)"
  unfolding hash_find_def Let_def by (rule exact.find_correct [OF assms refl])

lemma hash_findi_cases:
  assumes "hash_ok lower hash_calci t"
  shows "(case hash_map lower t (lower key) of
       Some d \<Rightarrow> \<exists>pos. hash_findi t key = Some (Found pos) \<and> unat pos < length (ht_table t) \<and>
                   entry lower (ht_table t ! unat pos) = (lower key, d)
     | None \<Rightarrow> \<exists>hi. hash_findi t key = Some (Missing hi) \<and> vacant_for (hash_calci key) t hi)"
  unfolding hash_findi_def Let_def
  by (rule folded.find_correct [OF assms]) (simp add: nasm_stricmp_eq lower_def)

interpretation ht: string_table cstr "hash_ok cstr hash_calc" "hash_map cstr" "\<lambda>t. unat (ht_load t)"
  datum hash_find hash_add "2 ^ 56"
proof
  fix t :: "'a hash_table" and key d
  assume "hash_ok cstr hash_calc t" "hash_map cstr t (cstr key) = Some d"
  then show "\<exists>pos. hash_find t key = Some (Found pos) \<and> datum t (unat pos) = d"
    using hash_find_cases [of t key] by (auto simp: entry_def datum_def)
next
  fix t :: "'a hash_table" and key key' d
  assume ok: "hash_ok cstr hash_calc t" and new: "hash_map cstr t (cstr key) = None"
    and room: "unat (ht_load t) < 2 ^ 56" and key': "cstr key' = cstr key"
  obtain hi where hi: "hash_find t key = Some (Missing hi)" "vacant_for (hash_calc key) t hi"
    using hash_find_cases [OF ok, of key] new by auto
  have "unat (ht_load t + 1) = Suc (unat (ht_load t))"
    using room by (subst unat_add_small) simp_all
  with exact.add_correct [OF ok new hi(2) key' room, of d] hi(1)
  show "\<exists>hi t' p. hash_find t key = Some (Missing hi) \<and> hash_add t hi key' d = Some (t', p) \<and>
      hash_ok cstr hash_calc t' \<and> hash_map cstr t' = (hash_map cstr t)(cstr key \<mapsto> d) \<and>
      unat (ht_load t') = Suc (unat (ht_load t)) \<and> datum t' p = d"
    by (auto simp: datum_def)
qed

interpretation hti: string_table lower "hash_ok lower hash_calci" "hash_map lower" "\<lambda>t. unat (ht_load t)"
  datum hash_findi hash_add "2 ^ 56"
proof
  fix t :: "'a hash_table" and key d
  assume "hash_ok lower hash_calci t" "hash_map lower t (lower key) = Some d"
  then show "\<exists>pos. hash_findi t key = Some (Found pos) \<and> datum t (unat pos) = d"
    using hash_findi_cases [of t key] by (auto simp: entry_def datum_def)
next
  fix t :: "'a hash_table" and key key' d
  assume ok: "hash_ok lower hash_calci t" and new: "hash_map lower t (lower key) = None"
    and room: "unat (ht_load t) < 2 ^ 56" and key': "lower key' = lower key"
  obtain hi where hi: "hash_findi t key = Some (Missing hi)" "vacant_for (hash_calci key) t hi"
    using hash_findi_cases [OF ok, of key] new by auto
  have "unat (ht_load t + 1) = Suc (unat (ht_load t))"
    using room by (subst unat_add_small) simp_all
  with folded.add_correct [OF ok new hi(2) key' room, of d] hi(1)
  show "\<exists>hi t' p. hash_findi t key = Some (Missing hi) \<and> hash_add t hi key' d = Some (t', p) \<and>
      hash_ok lower hash_calci t' \<and> hash_map lower t' = (hash_map lower t)(lower key \<mapsto> d) \<and>
      unat (ht_load t') = Suc (unat (ht_load t)) \<and> datum t' p = d"
    by (auto simp: datum_def)
qed

lemma hash_init_ok:
  assumes "k \<le> 58" "hash_init (2 ^ k) = Some t"
  shows "hash_ok canon hcalc t" "hash_map canon t = Map.empty" "ht_load t = 0"
proof -
  have t: "t = \<lparr>ht_table = alloc_table (2 ^ k), ht_load = 0, ht_size = 2 ^ k, ht_max_load = hash_max_load (2 ^ k)\<rparr>"
    using assms(2) by (simp add: hash_init_def split: if_splits)
  have "placed k (alloc_table (2 ^ k))" using assms(1) by (intro placed_alloc) simp
  then show "hash_ok canon hcalc t" "hash_map canon t = Map.empty" "ht_load t = 0"
    using assms(1) by (auto simp: t hash_ok_def hash_map_def nodes_alloc)
qed

lemma hash_init_Some: "k < 64 \<Longrightarrow> \<exists>t. hash_init (2 ^ k) = Some t"
  by (simp add: hash_init_def is_power2_exp)

section \<open>Iteration\<close>

lemma iterate_loop_cases:
  assumes "ep = length tbl"
  shows "case nodes (drop np tbl) of
      [] \<Rightarrow> iterate_loop tbl np ep = (None, None, None)
    | nd # rest \<Rightarrow> \<exists>n. iterate_loop tbl np ep = (nd_data nd, Some n, nd_key nd) \<and>
        np < n \<and> n \<le> ep \<and> nodes (drop n tbl) = rest"
  using assms
proof (induction tbl np ep rule: iterate_loop.induct)
  case (1 tbl np ep)
  show ?case
  proof (cases "np < ep")
    case True
    then have d: "drop np tbl = tbl ! np # drop (Suc np) tbl"
      using "1.prems" by (simp add: Cons_nth_drop_Suc)
    show ?thesis
    proof (cases "occupied (tbl ! np)")
      case occ: True
      then show ?thesis using True unfolding d by (subst iterate_loop.simps) (auto simp: nodes_def Suc_le_eq)
    next
      case False
      have "nodes (drop np tbl) = nodes (drop (Suc np) tbl)" using False unfolding d by (simp add: nodes_def)
      moreover have "iterate_loop tbl np ep = iterate_loop tbl (Suc np) ep"
        using True False by (subst iterate_loop.simps) simp
      ultimately show ?thesis using "1.IH" [OF True] False "1.prems"
        by (auto split: list.splits dest: Suc_lessD)
    qed
  next
    case False
    then show ?thesis using "1.prems" by (subst iterate_loop.simps) (simp add: nodes_def)
  qed
qed

lemma hash_ok_nodes:
  "hash_ok canon hcalc t \<Longrightarrow> length (nodes (ht_table t)) = unat (ht_load t) \<and>
    length (ht_table t) = unat (ht_size t) \<and> ht_table t \<noteq> []"
  by (auto simp: hash_ok_def placed_def unat_2_power)

text \<open>The loop of a caller that visits all entries, such as \<open>src_free\<close>; \<open>fuel\<close> bounds the calls.\<close>

fun iterate_all :: "nat \<Rightarrow> 'd hash_table \<Rightarrow> nat option \<Rightarrow> (u8 list option \<times> 'd option) list option" where
  "iterate_all 0 t it = None"
| "iterate_all (Suc fuel) t it =
     (case hash_iterate t it of
        (d, None, k) \<Rightarrow> Some []
      | (d, Some it', k) \<Rightarrow> map_option ((#) (k, d)) (iterate_all fuel t (Some it')))"

lemma iterate_all_from:
  assumes "length (ht_table t) = unat (ht_size t)"
  shows "length (nodes (drop n (ht_table t))) < fuel \<Longrightarrow>
    iterate_all fuel t (Some n) = Some (map (\<lambda>nd. (nd_key nd, nd_data nd)) (nodes (drop n (ht_table t))))"
proof (induction fuel arbitrary: n)
  case (Suc fuel)
  from iterate_loop_cases [OF assms [symmetric], of n] Suc show ?case
    by (auto simp: hash_iterate_def split: list.splits)
qed simp

lemma iterate_all_NULL:
  assumes "ht_table t \<noteq> []"
  shows "iterate_all fuel t None = iterate_all fuel t (Some 0)"
  using assms by (cases fuel) (simp_all add: hash_iterate_def)

lemma hash_findi_add_eq: "hash_findi_add t str = hti.find_or_add t str (cstr str) None"
  by (simp add: hash_findi_add_def hti.find_or_add_def)

primrec findi_add_all :: "'d hash_table \<Rightarrow> u8 list list \<Rightarrow> 'd hash_table option" where
  "findi_add_all t [] = Some t"
| "findi_add_all t (str # strs) = do { (t', p) \<leftarrow> hash_findi_add t str; findi_add_all t' strs }"

lemma lower_cstr: "lower (cstr s) = lower s"
  by (simp add: lower_def)

lemma findi_add_all_correct:
  "hash_ok lower hash_calci t \<Longrightarrow> unat (ht_load t) + length strs < 2 ^ 56 \<Longrightarrow>
    \<exists>t'. findi_add_all t strs = Some t' \<and> hash_ok lower hash_calci t' \<and>
      dom (hash_map lower t') = dom (hash_map lower t) \<union> lower ` set strs \<and>
      hash_map lower t \<subseteq>\<^sub>m hash_map lower t'"
proof (induction strs arbitrary: t)
  case (Cons str strs)
  have r: "unat (ht_load t) < 2 ^ 56" using Cons.prems(2) by simp
  obtain t' p where t': "hash_findi_add t str = Some (t', p)" "hash_ok lower hash_calci t'"
    "hash_map lower t' = (if lower str \<in> dom (hash_map lower t) then hash_map lower t
       else (hash_map lower t)(lower str \<mapsto> None))"
    "unat (ht_load t') = (if lower str \<in> dom (hash_map lower t) then unat (ht_load t) else Suc (unat (ht_load t)))"
    using hti.find_or_add_correct [OF Cons.prems(1) r lower_cstr, of str None]
    unfolding hash_findi_add_eq by blast
  have "unat (ht_load t') + length strs < 2 ^ 56" using t'(4) Cons.prems(2) by (simp split: if_splits)
  from Cons.IH [OF t'(2) this] obtain t'' where t'': "findi_add_all t' strs = Some t''"
    "hash_ok lower hash_calci t''" "dom (hash_map lower t'') = dom (hash_map lower t') \<union> lower ` set strs"
    "hash_map lower t' \<subseteq>\<^sub>m hash_map lower t''" by blast
  have "dom (hash_map lower t'') = dom (hash_map lower t) \<union> lower ` set (str # strs)"
    using t''(3) t'(3) by auto
  moreover have "hash_map lower t \<subseteq>\<^sub>m hash_map lower t'" using t'(3) by (auto simp: map_le_def)
  then have "hash_map lower t \<subseteq>\<^sub>m hash_map lower t''" using t''(4) by (rule map_le_trans)
  moreover have "findi_add_all t (str # strs) = Some t''" using t'(1) t''(1) by simp
  ultimately show ?case using t''(2) by blast
qed simp

section \<open>Properties\<close>

text \<open>
  C21: on a well-formed table, a search ends at the node of the key, or at a slot where
  \<open>hash_add\<close> adds the key: the table stays well-formed, also when it is rebalanced into one of
  twice the size, its map is extended by the key alone, and the returned pointer is the one of the
  new node.
\<close>
theorem hash_find_add_correct:
  assumes "hash_ok cstr hash_calc t" and "unat (ht_load t) < 2 ^ 56"
  shows "case hash_map cstr t (cstr key) of
      Some d \<Rightarrow> \<exists>pos. hash_find t key = Some (Found pos) \<and> datum t (unat pos) = d
    | None \<Rightarrow> \<exists>hi t' p. hash_find t key = Some (Missing hi) \<and> hash_add t hi key d = Some (t', p) \<and>
        hash_ok cstr hash_calc t' \<and> hash_map cstr t' = (hash_map cstr t)(cstr key \<mapsto> d) \<and>
        unat (ht_load t') = Suc (unat (ht_load t)) \<and> datum t' p = d"
  using ht.find_Some [OF assms(1)] ht.find_None [OF assms(1) _ assms(2) refl]
  by (auto split: option.split)

theorem hash_find_add_correct_witness:
  "\<exists>t :: nat hash_table. hash_init 1 = Some t \<and>
    (\<exists>hi t' p. hash_find t [97] = Some (Missing hi) \<and> hash_add t hi [97] (Some 7) = Some (t', p) \<and>
       hash_map cstr t' [97] = Some (Some 7))"
proof -
  obtain t :: "nat hash_table" where t: "hash_init (2 ^ 0) = Some t"
    using hash_init_Some [of 0] by auto
  have ok: "hash_ok cstr hash_calc t" "hash_map cstr t = Map.empty" "ht_load t = 0"
    using hash_init_ok [OF _ t] by simp_all
  have "cstr [97] = [97]" by (simp add: cstr_def)
  with hash_find_add_correct [OF ok(1), of "[97]" "Some 7"] ok(2,3) have
    "\<exists>hi t' p. hash_find t [97] = Some (Missing hi) \<and> hash_add t hi [97] (Some 7) = Some (t', p) \<and>
       hash_map cstr t' [97] = Some (Some 7)" by auto
  with t show ?thesis by auto
qed

text \<open>
  C22: the preprocessor's find-or-add, on a table that \<open>hash_init\<close> makes: any sequence of names is
  added without failing, every name is there once whatever the case of its letters, and nothing
  else is.
\<close>
theorem hash_findi_add_correct:
  assumes "k \<le> 58" and "length strs < 2 ^ 56"
  shows "\<exists>t t'. hash_init (2 ^ k) = Some t \<and> findi_add_all t strs = Some t' \<and>
    dom (hash_map lower t') = lower ` set strs \<and> unat (ht_load t') = card (lower ` set strs) \<and>
    (\<forall>str. (\<exists>pos. hash_findi t' str = Some (Found pos)) \<longleftrightarrow> (\<exists>s \<in> set strs. nasm_stricmp str s = 0))"
proof -
  obtain t :: "'a hash_table" where t: "hash_init (2 ^ k) = Some t"
    using hash_init_Some [of k] assms(1) by auto
  note ok = hash_init_ok [OF assms(1) t]
  obtain t' where t': "findi_add_all t strs = Some t'" "hash_ok lower hash_calci t'"
    "dom (hash_map lower t') = lower ` set strs"
    using findi_add_all_correct [OF ok(1), of strs] ok(2,3) assms(2) by auto
  have "dom (hash_map lower t') = canon_key lower ` set (nodes (ht_table t'))"
    by (simp add: hash_map_def dom_map_of_conv_image_fst image_image entry_def)
  then have "card (lower ` set strs) = card (set (map (canon_key lower) (nodes (ht_table t'))))"
    using t'(3) by simp
  also have "\<dots> = unat (ht_load t')"
    using t'(2) unfolding hash_ok_def by (subst distinct_card) auto
  finally have c: "unat (ht_load t') = card (lower ` set strs)" by simp
  have "(\<exists>pos. hash_findi t' str = Some (Found pos)) \<longleftrightarrow> lower str \<in> dom (hash_map lower t')" for str
    using hash_findi_cases [OF t'(2), of str] by (auto split: option.splits)
  then have "(\<exists>pos. hash_findi t' str = Some (Found pos)) \<longleftrightarrow> (\<exists>s \<in> set strs. nasm_stricmp str s = 0)" for str
    by (auto simp: t'(3) nasm_stricmp_eq lower_def)
  with t t' c show ?thesis by blast
qed

theorem hash_findi_add_correct_witness:
  "\<exists>t t'. hash_init (2 ^ 1) = Some (t :: nat hash_table) \<and> findi_add_all t [[65], [97], [98], [99]] = Some t' \<and>
    unat (ht_load t') = 3"
proof -
  have "lower ` set [[65], [97], [98], [99]] = {[97], [98], [99]}"
    by (simp add: lower_def cstr_def nasm_tolower_eq tolower_def)
  then have c: "card (lower ` set [[65], [97], [98], [99]]) = 3" by simp
  have "length [[65], [97], [98], [99 :: u8]] < 2 ^ 56" "(1 :: nat) \<le> 58" by simp_all
  from hash_findi_add_correct [OF this(2,1), where 'a = nat] show ?thesis
    unfolding c by blast
qed

text \<open>
  C23: a caller that iterates over a well-formed table gets every entry exactly once, and then
  \<open>NULL\<close>.
\<close>
theorem hash_iterate_correct:
  assumes "hash_ok canon hcalc t"
  shows "\<exists>es. iterate_all (Suc (unat (ht_load t))) t None = Some es \<and> length es = unat (ht_load t) \<and>
    distinct (map (\<lambda>(k, d). canon (the k)) es) \<and>
    map_of (map (\<lambda>(k, d). (canon (the k), d)) es) = hash_map canon t"
proof -
  note n = hash_ok_nodes [OF assms]
  let ?es = "map (\<lambda>nd. (nd_key nd, nd_data nd)) (nodes (ht_table t))"
  have "iterate_all (Suc (unat (ht_load t))) t None = Some ?es"
    using iterate_all_from [of t 0] n by (simp add: iterate_all_NULL del: iterate_all.simps)
  moreover have "distinct (map (\<lambda>(k, d). canon (the k)) ?es)"
    using assms by (simp add: hash_ok_def o_def canon_key_def [abs_def])
  moreover have "map_of (map (\<lambda>(k, d). (canon (the k), d)) ?es) = hash_map canon t"
    by (simp add: hash_map_def o_def entry_def [abs_def] canon_key_def)
  ultimately show ?thesis using n by auto
qed

theorem hash_iterate_correct_witness:
  "\<exists>t es. hash_init (2 ^ 4) = Some (t :: nat hash_table) \<and> iterate_all 1 t None = Some es \<and> es = []"
proof -
  obtain t :: "nat hash_table" where t: "hash_init (2 ^ 4) = Some t"
    using hash_init_Some [of 4] by auto
  have ok: "hash_ok cstr hash_calc t" "ht_load t = 0" using hash_init_ok [OF _ t] by simp_all
  from hash_iterate_correct [OF ok(1)] ok(2) t show ?thesis by (auto simp del: iterate_all.simps)
qed

end
