(* ===== verification/Srcfile.thy ===== *)
theory Srcfile
  imports Hashtbl
begin

text \<open>
  \<open>nasm/nasmlib/srcfile.c\<close>: the current position in the input. File names are interned in a hash
  table, where the data of an entry is the copied name itself.
\<close>

section \<open>The code\<close>

record src_state =
  filename_hash :: "u8 list hash_table"
  file_name :: "u8 list option"
  line_number :: u32

definition HASH_MEDIUM :: u64 where "HASH_MEDIUM = 16"

definition src_init :: "src_state option" where
  "src_init = map_option
     (\<lambda>t. \<lparr>filename_hash = t, file_name = None, line_number = 0\<rparr>) (hash_init HASH_MEDIUM)"

text \<open>The old name and the new state; \<open>nasm_strdup\<close> copies the bytes up to the zero.\<close>

definition src_set_fname :: "src_state \<Rightarrow> u8 list option \<Rightarrow> (u8 list option \<times> src_state) option" where
  "src_set_fname st newname =
     do {
       (newname, t) \<leftarrow>
         (case newname of
            None \<Rightarrow> Some (None, filename_hash st)
          | Some name \<Rightarrow>
              do {
                dp \<leftarrow> hash_find (filename_hash st) name;
                (case dp of
                   Found pos \<Rightarrow> Some (nd_data (ht_table (filename_hash st) ! unat pos), filename_hash st)
                 | Missing hi \<Rightarrow>
                     do {
                       (t, p) \<leftarrow> hash_add (filename_hash st) hi (cstr name) (Some (cstr name));
                       Some (Some (cstr name), t)
                     })
              });
       Some (file_name st, st\<lparr>filename_hash := t, file_name := newname\<rparr>)
     }"

definition src_set_linnum :: "src_state \<Rightarrow> u32 \<Rightarrow> u32 \<times> src_state" where
  "src_set_linnum st newline = (line_number st, st\<lparr>line_number := newline\<rparr>)"

definition src_set :: "src_state \<Rightarrow> u32 \<Rightarrow> u8 list option \<Rightarrow> src_state option" where
  "src_set st line fname =
     do { (old, st) \<leftarrow> src_set_fname st fname; Some (snd (src_set_linnum st line)) }"

definition src_get_fname :: "src_state \<Rightarrow> u8 list option" where "src_get_fname st = file_name st"
definition src_get_linnum :: "src_state \<Rightarrow> u32" where "src_get_linnum st = line_number st"

text \<open>
  The result, the new \<open>*xline\<close> and the new \<open>*xname\<close>. Equal pointers point to equal strings, so the
  comparison of the pointers that guards \<open>strcmp\<close> does not change the result.
\<close>

definition src_get :: "src_state \<Rightarrow> u32 \<Rightarrow> u8 list option \<Rightarrow> u32 \<times> u32 \<times> u8 list option" where
  "src_get st xl xn =
     ((case (file_name st, xn) of
         (Some f, Some x) \<Rightarrow> if cstr x \<noteq> cstr f then - 2 else line_number st - xl
       | _ \<Rightarrow> - 2),
      line_number st, file_name st)"

text \<open>The names that \<open>src_free\<close> frees, and the freed table; \<open>fuel\<close> bounds the calls of the loop.\<close>

fun src_free_loop :: "nat \<Rightarrow> u8 list hash_table \<Rightarrow> nat option \<Rightarrow> u8 list list option" where
  "src_free_loop 0 t it = None"
| "src_free_loop (Suc fuel) t it =
     (case hash_iterate t it of
        (None, it', k) \<Rightarrow> Some []
      | (Some dp, it', k) \<Rightarrow> map_option ((#) dp) (src_free_loop fuel t it'))"

definition src_free :: "nat \<Rightarrow> src_state \<Rightarrow> (u8 list list \<times> src_state) option" where
  "src_free fuel st =
     map_option (\<lambda>freed. (freed, st\<lparr>filename_hash := hash_free (filename_hash st)\<rparr>))
       (src_free_loop fuel (filename_hash st) None)"

section \<open>The invariant\<close>

definition names :: "src_state \<Rightarrow> u8 list set" where
  "names st = dom (hash_map cstr (filename_hash st))"

definition src_ok :: "src_state \<Rightarrow> bool" where
  "src_ok st \<longleftrightarrow> hash_ok cstr hash_calc (filename_hash st) \<and>
     (\<forall>k d. hash_map cstr (filename_hash st) k = Some d \<longrightarrow> d = Some k) \<and>
     set_option (file_name st) \<subseteq> names st"

lemma src_init_ok: "\<exists>st. src_init = Some st \<and> src_ok st \<and> names st = {} \<and> ht_load (filename_hash st) = 0"
proof -
  obtain t :: "u8 list hash_table" where t: "hash_init (2 ^ 4) = Some t"
    using hash_init_Some [of 4] by auto
  show ?thesis
    using t hash_init_ok [OF _ t]
    by (simp add: src_init_def HASH_MEDIUM_def src_ok_def names_def)
qed

lemma hash_map_cstr: "k \<in> dom (hash_map cstr t) \<Longrightarrow> cstr k = k"
  by (auto simp: hash_map_def dom_map_of_conv_image_fst entry_def canon_key_def)

lemma src_set_fname_ok:
  assumes ok: "src_ok st" and room: "unat (ht_load (filename_hash st)) < 2 ^ 56"
  shows "\<exists>st'. src_set_fname st newname = Some (file_name st, st') \<and> src_ok st' \<and>
    file_name st' = map_option cstr newname \<and> line_number st' = line_number st \<and>
    names st' = names st \<union> cstr ` set_option newname"
proof (cases newname)
  case None
  then show ?thesis using ok by (simp add: src_set_fname_def src_ok_def names_def)
next
  case (Some name)
  let ?t = "filename_hash st"
  have t: "hash_ok cstr hash_calc ?t" using ok by (simp add: src_ok_def)
  show ?thesis
  proof (cases "hash_map cstr ?t (cstr name)")
    case None
    obtain hi t' p where r: "hash_find ?t name = Some (Missing hi)"
      "hash_add ?t hi (cstr name) (Some (cstr name)) = Some (t', p)" "hash_ok cstr hash_calc t'"
      "hash_map cstr t' = (hash_map cstr ?t)(cstr name \<mapsto> Some (cstr name))"
      using ht.find_None [OF t None room cstr_idem, of "Some (cstr name)"] by blast
    let ?st = "st\<lparr>filename_hash := t', file_name := Some (cstr name)\<rparr>"
    have "src_set_fname st newname = Some (file_name st, ?st)"
      using r(1,2) Some by (simp add: src_set_fname_def)
    moreover have "src_ok ?st" using ok r(3,4) by (simp add: src_ok_def names_def)
    moreover have "names ?st = names st \<union> cstr ` set_option newname"
      using r(4) Some by (simp add: names_def)
    ultimately show ?thesis using Some by auto
  next
    case (Some d)
    then have d: "d = Some (cstr name)" using ok by (simp add: src_ok_def)
    obtain pos where pos: "hash_find ?t name = Some (Found pos)" "datum ?t (unat pos) = Some (cstr name)"
      using ht.find_Some [OF t Some] d by blast
    let ?st = "st\<lparr>file_name := Some (cstr name)\<rparr>"
    have "src_set_fname st newname = Some (file_name st, ?st)"
      using pos \<open>newname = Some name\<close> by (simp add: src_set_fname_def datum_def)
    moreover have "src_ok ?st" using ok Some by (auto simp: src_ok_def names_def)
    moreover have "names ?st = names st \<union> cstr ` set_option newname"
      using Some \<open>newname = Some name\<close> by (auto simp: names_def)
    ultimately show ?thesis using \<open>newname = Some name\<close> by auto
  qed
qed

lemma iterate_loop_end: "iterate_loop tbl np ep = (d, None, k) \<Longrightarrow> d = None"
proof (induction tbl np ep rule: iterate_loop.induct)
  case (1 tbl np ep)
  then show ?case by (simp add: iterate_loop.simps [of tbl np ep] split: if_splits)
qed

lemma hash_iterate_end: "hash_iterate t it = (d, None, k) \<Longrightarrow> d = None"
  by (auto simp: hash_iterate_def split: option.splits if_splits dest: iterate_loop_end)

lemma src_free_loop_all:
  assumes "\<forall>(k, d) \<in> set es. d \<noteq> None"
  shows "iterate_all fuel t it = Some es \<Longrightarrow> src_free_loop fuel t it = Some (map (the \<circ> snd) es)"
  using assms
proof (induction fuel t it arbitrary: es rule: iterate_all.induct)
  case (2 fuel t it)
  obtain d it' k where r: "hash_iterate t it = (d, it', k)" by (metis prod_cases3)
  show ?case
  proof (cases it')
    case None
    then have "d = None"
      using r hash_iterate_end by blast
    then show ?thesis using 2 r None by simp
  next
    case (Some i)
    then obtain es' where "iterate_all fuel t (Some i) = Some es'" "es = (k, d) # es'"
      using "2.prems"(1) r by auto
    then show ?thesis using "2.IH" [OF r [symmetric] refl Some] "2.prems"(2) r Some by auto
  qed
qed simp

lemma src_free_ok:
  assumes ok: "src_ok st"
  shows "\<exists>freed st'. src_free (Suc (unat (ht_load (filename_hash st)))) st = Some (freed, st') \<and>
    distinct freed \<and> set freed = names st \<and> ht_table (filename_hash st') = []"
proof -
  let ?t = "filename_hash st"
  have t: "hash_ok cstr hash_calc ?t" using ok by (simp add: src_ok_def)
  let ?e = "\<lambda>nd. (nd_key nd, nd_data nd)"
  let ?es = "map ?e (nodes (ht_table ?t))"
  have es: "iterate_all (Suc (unat (ht_load ?t))) ?t None = Some ?es"
    using iterate_all_from [of ?t 0] hash_ok_nodes [OF t] by (simp add: iterate_all_NULL del: iterate_all.simps)
  have d: "distinct (map (canon_key cstr) (nodes (ht_table ?t)))" using t by (simp add: hash_ok_def)
  have data: "nd_data nd = Some (canon_key cstr nd)" if "nd \<in> set (nodes (ht_table ?t))" for nd
  proof -
    have "distinct (map fst (map (entry cstr) (nodes (ht_table ?t))))"
      using d by (simp add: entry_def o_def)
    then have "hash_map cstr ?t (canon_key cstr nd) = Some (nd_data nd)"
      unfolding hash_map_def using that by (simp add: map_of_eq_Some_iff entry_def image_iff) blast
    then show ?thesis using ok by (simp add: src_ok_def)
  qed
  then have freed: "map (the \<circ> snd) ?es = map (canon_key cstr) (nodes (ht_table ?t))" by simp
  have "src_free_loop (Suc (unat (ht_load ?t))) ?t None = Some (map (canon_key cstr) (nodes (ht_table ?t)))"
    unfolding freed [symmetric]
    by (rule src_free_loop_all [OF _ es]) (use data in auto)
  moreover have "set (map (canon_key cstr) (nodes (ht_table ?t))) = names st"
    by (simp add: names_def hash_map_def dom_map_of_conv_image_fst image_image entry_def)
  ultimately show ?thesis using d
    by (simp add: src_free_def hash_free_def del: src_free_loop.simps)
qed

section \<open>Properties\<close>

text \<open>
  C24: setting the file name returns the old one, makes the (possibly shared) copy of the new name
  current and leaves a table whose entries are the copies of all names seen, and \<open>src_free\<close> frees
  every copy exactly once.
\<close>
theorem src_set_fname_correct:
  assumes "src_ok st" and "unat (ht_load (filename_hash st)) < 2 ^ 56"
  shows "\<exists>st' freed st''. src_set_fname st newname = Some (file_name st, st') \<and> src_ok st' \<and>
    src_get_fname st' = map_option cstr newname \<and> src_get_linnum st' = src_get_linnum st \<and>
    src_free (Suc (unat (ht_load (filename_hash st')))) st' = Some (freed, st'') \<and>
    distinct freed \<and> set freed = names st \<union> cstr ` set_option newname"
proof -
  from src_set_fname_ok [OF assms, of newname] obtain st' where st':
    "src_set_fname st newname = Some (file_name st, st')" "src_ok st'"
    "file_name st' = map_option cstr newname" "line_number st' = line_number st"
    "names st' = names st \<union> cstr ` set_option newname" by blast
  from src_free_ok [OF st'(2)] obtain freed st'' where
    "src_free (Suc (unat (ht_load (filename_hash st')))) st' = Some (freed, st'')"
    "distinct freed" "set freed = names st'" by blast
  with st' have "src_set_fname st newname = Some (file_name st, st') \<and> src_ok st' \<and>
    src_get_fname st' = map_option cstr newname \<and> src_get_linnum st' = src_get_linnum st \<and>
    src_free (Suc (unat (ht_load (filename_hash st')))) st' = Some (freed, st'') \<and>
    distinct freed \<and> set freed = names st \<union> cstr ` set_option newname"
    by (simp add: src_get_fname_def src_get_linnum_def del: src_free_loop.simps)
  then show ?thesis by (intro exI)
qed

theorem src_set_fname_correct_witness:
  "\<exists>st st'. src_init = Some st \<and> src_set_fname st (Some [97, 0]) = Some (None, st') \<and>
    src_get_fname st' = Some [97]"
proof -
  obtain st where st: "src_init = Some st" "src_ok st" "names st = {}" "ht_load (filename_hash st) = 0"
    using src_init_ok by blast
  then have "file_name st = None" by (simp add: src_ok_def)
  have m: "map_option cstr (Some [97, 0]) = Some [97]" by (simp add: cstr_def)
  have "unat (ht_load (filename_hash st)) < 2 ^ 56" by (simp add: st(4))
  from src_set_fname_correct [OF st(2) this, of "Some [97, 0]", unfolded m \<open>file_name st = None\<close>]
  obtain st' where "src_set_fname st (Some [97, 0]) = Some (None, st')" "src_get_fname st' = Some [97]"
    by (elim exE conjE) (rule that)
  with st(1) show ?thesis by blast
qed

end
