(* ===== verification/Rbtree.thy ===== *)
theory Rbtree
  imports Prelude "HOL-Library.Multiset"
begin

text \<open>
  \<open>nasm/nasmlib/rbtree.c\<close>: the left-leaning red-black tree that the object formats use to find the
  symbol at or below an address. A node is embedded in a larger structure, which is the last
  component of \<open>RB\<close>; \<open>NULL\<close> is \<open>Null\<close>.
\<close>

section \<open>The code\<close>

datatype 'a rbtree = Null | RB (key: u64) (left: "'a rbtree") (right: "'a rbtree") (red: bool) (val: 'a)

function rb_search_loop :: "'a rbtree \<Rightarrow> u64 \<Rightarrow> 'a rbtree \<Rightarrow> 'a rbtree" where
  "rb_search_loop tree k best =
     (case tree of
        Null \<Rightarrow> best
      | RB tk l r c v \<Rightarrow>
          if tk = k then tree
          else if k < tk then rb_search_loop l k best
          else rb_search_loop r k tree)"
  by pat_completeness auto
termination
  by (relation "measure (\<lambda>(tree, k, best). size tree)") auto

declare rb_search_loop.simps [simp del]

definition rb_search :: "'a rbtree \<Rightarrow> u64 \<Rightarrow> 'a rbtree" where
  "rb_search tree k = rb_search_loop tree k Null"

definition is_red :: "'a rbtree \<Rightarrow> bool" where
  "is_red h \<longleftrightarrow> (case h of Null \<Rightarrow> False | RB _ _ _ c _ \<Rightarrow> c)"

text \<open>The rotations and the flip are called on nodes whose children are not \<open>NULL\<close>.\<close>

fun rotate_left :: "'a rbtree \<Rightarrow> 'a rbtree" where
  "rotate_left (RB hk hl (RB xk xl xr xc xv) hc hv) = RB xk (RB hk hl xl True hv) xr hc xv"
| "rotate_left h = h"

fun rotate_right :: "'a rbtree \<Rightarrow> 'a rbtree" where
  "rotate_right (RB hk (RB xk xl xr xc xv) hr hc hv) = RB xk xl (RB hk xr hr True hv) hc xv"
| "rotate_right h = h"

fun color_flip :: "'a rbtree \<Rightarrow> 'a rbtree" where
  "color_flip (RB hk (RB lk ll lr lc lv) (RB rk rl rr rc rv) hc hv) =
     RB hk (RB lk ll lr (\<not> lc) lv) (RB rk rl rr (\<not> rc) rv) (\<not> hc) hv"
| "color_flip h = h"

lemma size_color_flip [simp]: "size (color_flip h) = size h"
  by (cases h rule: color_flip.cases) simp_all

lemma color_flip_Null [simp]: "color_flip h = Null \<longleftrightarrow> h = Null"
  by (cases h rule: color_flip.cases) simp_all

function rb_insert :: "'a rbtree \<Rightarrow> u64 \<Rightarrow> 'a \<Rightarrow> 'a rbtree" where
  "rb_insert tree nk nv =
     (if tree = Null then RB nk Null Null True nv
      else
        let tree = (if is_red (left tree) \<and> is_red (right tree) then color_flip tree else tree);
            tree = (case tree of
                Null \<Rightarrow> Null
              | RB k l r c v \<Rightarrow>
                  if nk < k then RB k (rb_insert l nk nv) r c v else RB k l (rb_insert r nk nv) c v);
            tree = (if is_red (right tree) then rotate_left tree else tree);
            tree = (if is_red (left tree) \<and> is_red (left (left tree)) then rotate_right tree else tree)
        in tree)"
  by pat_completeness auto
termination
proof (relation "measure (\<lambda>(tree, nk, nv). size tree)", simp)
  fix tree t :: "'a rbtree" and nk nv k l r c v
  assume "tree \<noteq> Null" and t: "t = (if is_red (left tree) \<and> is_red (right tree) then color_flip tree else tree)"
    and r: "t = RB k l r c v"
  have "size t = size tree" by (simp add: t)
  then show "((l, nk, nv), tree, nk, nv) \<in> measure (\<lambda>(tree, nk, nv). size tree)"
    "((r, nk, nv), tree, nk, nv) \<in> measure (\<lambda>(tree, nk, nv). size tree)"
    using r by auto
qed

declare rb_insert.simps [simp del]

section \<open>Steps of an insertion\<close>

definition flip :: "'a rbtree \<Rightarrow> 'a rbtree" where
  "flip t = (if is_red (left t) \<and> is_red (right t) then color_flip t else t)"

definition fix_left :: "'a rbtree \<Rightarrow> 'a rbtree" where
  "fix_left t = (if is_red (right t) then rotate_left t else t)"

definition fix_right :: "'a rbtree \<Rightarrow> 'a rbtree" where
  "fix_right t = (if is_red (left t) \<and> is_red (left (left t)) then rotate_right t else t)"

lemma is_red_simps [simp]: "\<not> is_red Null" "is_red (RB k l r c v) \<longleftrightarrow> c"
  by (simp_all add: is_red_def)

lemma is_redE:
  assumes "is_red t"
  obtains k l r v where "t = RB k l r True v"
  using assms by (cases t) auto

lemma rb_insert_Null: "rb_insert Null nk nv = RB nk Null Null True nv"
  by (simp add: rb_insert.simps)

lemma rb_insert_RB:
  assumes "t \<noteq> Null" "flip t = RB k l r c v"
  shows "rb_insert t nk nv = fix_right (fix_left
    (if nk < k then RB k (rb_insert l nk nv) r c v else RB k l (rb_insert r nk nv) c v))"
  using assms by (simp add: rb_insert.simps [of t] Let_def flip_def fix_left_def fix_right_def)

lemma flip_cases:
  assumes "t = RB k l r c v"
  obtains (both) lk ll lr lv rk rl rr rv where "l = RB lk ll lr True lv" "r = RB rk rl rr True rv"
      "flip t = RB k (RB lk ll lr False lv) (RB rk rl rr False rv) (\<not> c) v"
    | (other) "\<not> (is_red l \<and> is_red r)" "flip t = t"
proof (cases "is_red l \<and> is_red r")
  case True
  then show thesis using assms both by (auto simp: flip_def elim!: is_redE)
next
  case False
  show thesis by (rule other) (use False assms in \<open>auto simp: flip_def\<close>)
qed

lemma flip_RB: "t \<noteq> Null \<Longrightarrow> \<exists>k l r c v. flip t = RB k l r c v \<and> size l < size t \<and> size r < size t"
proof -
  assume "t \<noteq> Null"
  then obtain k l r c v where t: "t = RB k l r c v" by (cases t) simp
  from t show ?thesis
  proof (cases rule: flip_cases)
    case both
    then show ?thesis using t by simp
  next
    case other
    then show ?thesis using t by simp
  qed
qed

lemma rb_insert_induct [case_names Null step]:
  assumes "P Null"
    and "\<And>t k l r c v. t \<noteq> Null \<Longrightarrow> flip t = RB k l r c v \<Longrightarrow> P l \<Longrightarrow> P r \<Longrightarrow> P t"
  shows "P t"
proof (induction t rule: measure_induct_rule [of size])
  case (less t)
  then show ?case using assms flip_RB [of t] by (cases "t = Null") blast+
qed

section \<open>The nodes in order\<close>

fun inorder :: "'a rbtree \<Rightarrow> (u64 \<times> 'a) list" where
  "inorder Null = []"
| "inorder (RB k l r c v) = inorder l @ (k, v) # inorder r"

definition keys_sorted :: "'a rbtree \<Rightarrow> bool" where
  "keys_sorted t \<longleftrightarrow> sorted (map fst (inorder t))"

text \<open>A node goes behind all nodes whose keys are not greater.\<close>

definition ins_after :: "u64 \<Rightarrow> 'a \<Rightarrow> (u64 \<times> 'a) list \<Rightarrow> (u64 \<times> 'a) list" where
  "ins_after k v xs = takeWhile (\<lambda>x. fst x \<le> k) xs @ (k, v) # dropWhile (\<lambda>x. fst x \<le> k) xs"

lemma ins_after_less: "k < fst a \<Longrightarrow> ins_after k v (xs @ a # ys) = ins_after k v xs @ a # ys"
  by (induction xs) (auto simp: ins_after_def)

lemma ins_after_ge:
  "\<forall>x \<in> set xs. fst x \<le> fst a \<Longrightarrow> fst a \<le> k \<Longrightarrow> ins_after k v (xs @ a # ys) = xs @ a # ins_after k v ys"
proof (induction xs)
  case (Cons x xs)
  have "fst x \<le> k" using Cons.prems order.trans by (metis list.set_intros(1))
  then show ?case using Cons by (simp add: ins_after_def)
qed (simp add: ins_after_def)

lemma mset_ins_after: "mset (ins_after k v xs) = add_mset (k, v) (mset xs)"
proof -
  have "mset xs = mset (takeWhile (\<lambda>x. fst x \<le> k) xs) + mset (dropWhile (\<lambda>x. fst x \<le> k) xs)"
    by (metis mset_append takeWhile_dropWhile_id)
  then show ?thesis by (simp add: ins_after_def)
qed

lemma sorted_ins_after: "sorted (map fst xs) \<Longrightarrow> sorted (map fst (ins_after k v xs))"
  by (induction xs) (auto simp: ins_after_def dest: set_takeWhileD set_dropWhileD)

lemma inorder_flip [simp]: "inorder (flip t) = inorder t"
  by (cases t rule: color_flip.cases) (simp_all add: flip_def)

lemma inorder_fix_left [simp]: "inorder (fix_left t) = inorder t"
  by (cases t rule: rotate_left.cases) (simp_all add: fix_left_def)

lemma inorder_fix_right [simp]: "inorder (fix_right t) = inorder t"
  by (cases t rule: rotate_right.cases) (simp_all add: fix_right_def)

lemma inorder_rb_insert:
  "keys_sorted t \<Longrightarrow> inorder (rb_insert t nk nv) = ins_after nk nv (inorder t)"
proof (induction t rule: rb_insert_induct)
  case Null
  then show ?case by (simp add: rb_insert_Null ins_after_def)
next
  case (step t k l r c v)
  have t: "inorder t = inorder l @ (k, v) # inorder r"
    using inorder_flip [of t] unfolding step.hyps(2) by simp
  have s: "keys_sorted l" "keys_sorted r" "\<forall>x \<in> set (inorder l). fst x \<le> k"
    using step.prems by (auto simp: keys_sorted_def t sorted_append)
  show ?case
    using step.IH(1) [OF s(1)] step.IH(2) [OF s(2)] s(3)
    by (simp add: rb_insert_RB [OF step.hyps(1,2)] t ins_after_less ins_after_ge)
qed

lemma keys_sorted_insert: "keys_sorted t \<Longrightarrow> keys_sorted (rb_insert t nk nv)"
  by (simp add: keys_sorted_def inorder_rb_insert sorted_ins_after)

section \<open>Searching\<close>

lemma rb_search_loop_simps [simp]:
  "rb_search_loop Null k best = best"
  "rb_search_loop (RB tk l r c v) k best =
     (if tk = k then RB tk l r c v
      else if k < tk then rb_search_loop l k best
      else rb_search_loop r k (RB tk l r c v))"
  by (simp_all add: rb_search_loop.simps [of Null] rb_search_loop.simps [of "RB tk l r c v"])

text \<open>
  \<open>floor_in xs k n\<close>: the node \<open>n\<close> is one of the nodes \<open>xs\<close> with the greatest key that is not above
  \<open>k\<close>, or \<open>NULL\<close> if there is none.
\<close>

definition floor_in :: "(u64 \<times> 'a) list \<Rightarrow> u64 \<Rightarrow> 'a rbtree \<Rightarrow> bool" where
  "floor_in xs k n \<longleftrightarrow>
     (case n of
        Null \<Rightarrow> \<forall>x \<in> set xs. k < fst x
      | RB nk l r c v \<Rightarrow> (nk, v) \<in> set xs \<and> nk \<le> k \<and> (\<forall>x \<in> set xs. fst x \<le> k \<longrightarrow> fst x \<le> nk))"

definition best_node :: "'a rbtree \<Rightarrow> (u64 \<times> 'a) list" where
  "best_node n = (case n of Null \<Rightarrow> [] | RB k l r c v \<Rightarrow> [(k, v)])"

lemma best_node_simps [simp]: "best_node Null = []" "best_node (RB k l r c v) = [(k, v)]"
  by (simp_all add: best_node_def)

lemma floor_in_simps [simp]:
  "floor_in xs k Null \<longleftrightarrow> (\<forall>x \<in> set xs. k < fst x)"
  "floor_in xs k (RB nk l r c v) \<longleftrightarrow>
     (nk, v) \<in> set xs \<and> nk \<le> k \<and> (\<forall>x \<in> set xs. fst x \<le> k \<longrightarrow> fst x \<le> nk)"
  by (simp_all add: floor_in_def)

lemma floor_in_add:
  assumes "floor_in xs k n" and "\<And>x. x \<in> set ys \<Longrightarrow> k < fst x \<or> (\<exists>z \<in> set xs. fst z \<le> k \<and> fst x \<le> fst z)"
  shows "floor_in (xs @ ys) k n"
proof (cases n)
  case Null
  then show ?thesis using assms by fastforce
next
  case (RB nk l r c v)
  then show ?thesis using assms by (auto dest!: assms(2))
qed

lemma floor_in_set: "set xs = set ys \<Longrightarrow> floor_in xs k n = floor_in ys k n"
  by (cases n) simp_all

lemma rb_search_loop_floor:
  "keys_sorted t \<Longrightarrow> (\<forall>b \<in> set (best_node best). fst b \<le> k \<and> (\<forall>x \<in> set (inorder t). fst b \<le> fst x)) \<Longrightarrow>
    floor_in (inorder t @ best_node best) k (rb_search_loop t k best)"
proof (induction t arbitrary: best)
  case Null
  then show ?case by (cases best) simp_all
next
  case (RB tk l r c v)
  have s: "keys_sorted l" "keys_sorted r" "\<forall>x \<in> set (inorder l). fst x \<le> tk" "\<forall>x \<in> set (inorder r). tk \<le> fst x"
    using RB.prems(1) by (auto simp: keys_sorted_def sorted_append)
  have b: "\<forall>b \<in> set (best_node best). fst b \<le> k \<and> fst b \<le> tk"
    using RB.prems(2) by simp
  consider "tk = k" | "k < tk" | "tk < k" by force
  then show ?case
  proof cases
    case 1
    then show ?thesis using b by auto
  next
    case 2
    have "floor_in (inorder l @ best_node best) k (rb_search_loop l k best)"
      using RB.IH(1) [OF s(1), of best] RB.prems(2) by simp
    then have "floor_in ((inorder l @ best_node best) @ (tk, v) # inorder r) k (rb_search_loop l k best)"
      by (rule floor_in_add) (use 2 s(4) in \<open>auto intro: less_le_trans\<close>)
    then have "floor_in (inorder (RB tk l r c v) @ best_node best) k (rb_search_loop l k best)"
      by (rule floor_in_set [THEN iffD1, rotated]) auto
    then show ?thesis using 2 by auto
  next
    case 3
    have "floor_in (inorder r @ [(tk, v)]) k (rb_search_loop r k (RB tk l r c v))"
      using RB.IH(2) [OF s(2), of "RB tk l r c v"] 3 s(4) by simp
    then have "floor_in ((inorder r @ [(tk, v)]) @ inorder l @ best_node best) k (rb_search_loop r k (RB tk l r c v))"
      by (rule floor_in_add) (use 3 s(3) b in auto)
    then have "floor_in (inorder (RB tk l r c v) @ best_node best) k (rb_search_loop r k (RB tk l r c v))"
      by (rule floor_in_set [THEN iffD1, rotated]) auto
    then show ?thesis using 3 by auto
  qed
qed

lemma rb_search_floor: "keys_sorted t \<Longrightarrow> floor_in (inorder t) k (rb_search t k)"
  using rb_search_loop_floor [of t Null k] by (simp add: rb_search_def)

section \<open>Balance\<close>

text \<open>
  \<open>good\<close> trees have the same number of black nodes on every path, red nodes without red children,
  and a red right child only beside a red left one; the root of \<open>root_ok\<close> trees may be red and
  have red children, because \<open>rb_insert\<close> leaves the root red.
\<close>

fun bheight :: "'a rbtree \<Rightarrow> nat" where
  "bheight Null = 0"
| "bheight (RB k l r c v) = bheight l + (if c then 0 else 1)"

fun good :: "'a rbtree \<Rightarrow> bool" where
  "good Null \<longleftrightarrow> True"
| "good (RB k l r c v) \<longleftrightarrow> good l \<and> good r \<and> bheight l = bheight r \<and> (is_red r \<longrightarrow> is_red l) \<and>
     (c \<longrightarrow> \<not> is_red l \<and> \<not> is_red r)"

fun root_ok :: "'a rbtree \<Rightarrow> bool" where
  "root_ok Null \<longleftrightarrow> True"
| "root_ok (RB k l r c v) \<longleftrightarrow> good l \<and> good r \<and> bheight l = bheight r \<and> (is_red r \<longrightarrow> is_red l)"

lemma good_root_ok: "good t \<Longrightarrow> root_ok t"
  by (cases t) simp_all

text \<open>What an insertion into a good tree can make of it, before its parent is fixed.\<close>

definition grown :: "'a rbtree \<Rightarrow> 'a rbtree \<Rightarrow> bool" where
  "grown t t' \<longleftrightarrow> bheight t' = bheight t \<and> t' \<noteq> Null \<and> root_ok t' \<and> (\<not> is_red t \<longrightarrow> good t') \<and>
     (is_red t \<longrightarrow> is_red t' \<and> \<not> is_red (right t')) \<and>
     (t \<noteq> Null \<and> \<not> is_red t \<and> \<not> (is_red (left t) \<and> is_red (right t)) \<longrightarrow> \<not> is_red t')"

lemma grown_left:
  assumes "good (RB k l r c v)" "\<not> (is_red l \<and> is_red r)" "grown l l'"
  shows "grown (RB k l r c v) (fix_right (fix_left (RB k l' r c v)))"
proof -
  have r: "\<not> is_red r" using assms(1,2) by auto
  then have f: "fix_left (RB k l' r c v) = RB k l' r c v" by (simp add: fix_left_def)
  show ?thesis
  proof (cases "is_red l' \<and> is_red (left l')")
    case True
    then obtain xk xl xr xv where l': "l' = RB xk xl xr True xv" using is_redE by blast
    then show ?thesis using assms r True unfolding f by (auto simp: fix_right_def grown_def)
  next
    case False
    then have "fix_right (RB k l' r c v) = RB k l' r c v" by (auto simp: fix_right_def)
    then show ?thesis using assms r False unfolding f by (cases l') (auto simp: grown_def)
  qed
qed

lemma grown_right:
  assumes "good (RB k l r c v)" "\<not> (is_red l \<and> is_red r)" "grown r r'"
  shows "grown (RB k l r c v) (fix_right (fix_left (RB k l r' c v)))"
proof (cases "is_red r'")
  case False
  then have "fix_left (RB k l r' c v) = RB k l r' c v" by (simp add: fix_left_def)
  moreover have "\<not> is_red (left l)" if "is_red l" using assms(1) that by (cases l) simp_all
  ultimately have "fix_right (fix_left (RB k l r' c v)) = RB k l r' c v" by (auto simp: fix_right_def)
  then show ?thesis using assms False by (simp add: grown_def)
next
  case True
  then obtain xk xl xr xv where r': "r' = RB xk xl xr True xv" by (rule is_redE)
  have r: "\<not> is_red r" using assms True by auto
  then have g: "good r'" "bheight r' = bheight r" using assms(3) by (simp_all add: grown_def)
  have f: "fix_left (RB k l r' c v) = RB xk (RB k l xl True v) xr c xv" by (simp add: fix_left_def r')
  show ?thesis
  proof (cases "is_red l")
    case red: True
    then obtain lk ll lr lv where l: "l = RB lk ll lr True lv" by (rule is_redE)
    show ?thesis using assms(1,2) g unfolding f by (simp add: fix_right_def l r' grown_def)
  next
    case False
    then show ?thesis using assms(1,2) g r unfolding f by (simp add: fix_right_def r' grown_def)
  qed
qed

lemma root_left:
  assumes "root_ok (RB k l r c v)" "\<not> (is_red l \<and> is_red r)" "grown l l'"
  shows "root_ok (fix_right (fix_left (RB k l' r c v)))"
  using assms
  by (cases l'; cases "left l'")
    (auto simp: grown_def fix_left_def fix_right_def)

lemma root_right:
  assumes "root_ok (RB k l r c v)" "\<not> (is_red l \<and> is_red r)" "grown r r'"
  shows "root_ok (fix_right (fix_left (RB k l r' c v)))"
proof (cases "is_red r'")
  case False
  then have "fix_left (RB k l r' c v) = RB k l r' c v" by (simp add: fix_left_def)
  moreover have "\<not> is_red (left l)" if "is_red l" using assms(1) that by (cases l) simp_all
  ultimately have "fix_right (fix_left (RB k l r' c v)) = RB k l r' c v" by (auto simp: fix_right_def)
  then show ?thesis using assms False by (simp add: grown_def)
next
  case True
  then obtain xk xl xr xv where r': "r' = RB xk xl xr True xv" by (rule is_redE)
  have r: "\<not> is_red r" using assms True by auto
  then have g: "good r'" "bheight r' = bheight r" using assms(3) by (simp_all add: grown_def)
  have f: "fix_left (RB k l r' c v) = RB xk (RB k l xl True v) xr c xv" by (simp add: fix_left_def r')
  show ?thesis
  proof (cases "is_red l")
    case red: True
    then obtain lk ll lr lv where l: "l = RB lk ll lr True lv" by (rule is_redE)
    show ?thesis using assms(1,2) g unfolding f by (simp add: fix_right_def l r' grown_def)
  next
    case False
    then show ?thesis using assms(1,2) g r unfolding f by (simp add: fix_right_def r' grown_def)
  qed
qed

text \<open>An insertion below a node whose children have both been turned black.\<close>

lemma flipped_left:
  assumes "good l" "l = RB lk ll lr True lv" "grown (RB lk ll lr False lv) l'"
  shows "good l' \<and> \<not> is_red l' \<and> bheight l' = Suc (bheight l)"
  using assms by (auto simp: grown_def)

lemma flipped_fix: "\<not> is_red l \<Longrightarrow> \<not> is_red r \<Longrightarrow> fix_right (fix_left (RB k l r c v)) = RB k l r c v"
  by (simp add: fix_left_def fix_right_def)

lemma rb_insert_grown: "good t \<Longrightarrow> grown t (rb_insert t nk nv)"
proof (induction t rule: rb_insert_induct)
  case Null
  then show ?case by (simp add: rb_insert_Null grown_def)
next
  case (step t k l r c v)
  obtain k0 l0 r0 c0 v0 where t: "t = RB k0 l0 r0 c0 v0" using step.hyps(1) by (cases t) simp
  from t show ?case
  proof (cases rule: flip_cases)
    case other
    then have e: "k0 = k" "l0 = l" "r0 = r" "c0 = c" "v0 = v" using step.hyps(2) t by simp_all
    have g: "good (RB k l r c v)" "good l" "good r" using step.prems t e by simp_all
    show ?thesis
      using grown_left [OF g(1) _ step.IH(1) [OF g(2)]] grown_right [OF g(1) _ step.IH(2) [OF g(3)]] other(1)
      unfolding rb_insert_RB [OF step.hyps] unfolding t e by simp
  next
    case (both lk ll lr lv rk rl rr rv)
    then have e: "k0 = k" "l = RB lk ll lr False lv" "r = RB rk rl rr False rv" "c = (\<not> c0)" "v0 = v"
      using step.hyps(2) by simp_all
    have g: "good l0" "good r0" "good l" "good r" "\<not> c0" using step.prems t both e by simp_all
    have l: "good (rb_insert l nk nv) \<and> \<not> is_red (rb_insert l nk nv) \<and> bheight (rb_insert l nk nv) = Suc (bheight l0)"
      using step.IH(1) [OF g(3)] unfolding e by (rule flipped_left [OF g(1) both(1)])
    have r: "good (rb_insert r nk nv) \<and> \<not> is_red (rb_insert r nk nv) \<and> bheight (rb_insert r nk nv) = Suc (bheight r0)"
      using step.IH(2) [OF g(4)] unfolding e by (rule flipped_left [OF g(2) both(2)])
    show ?thesis
      unfolding rb_insert_RB [OF step.hyps]
      using l r g step.prems unfolding t both(1,2) e
      by (simp add: flipped_fix grown_def)
  qed
qed

lemma rb_insert_root_ok:
  assumes "root_ok t"
  shows "root_ok (rb_insert t nk nv)"
proof (cases "t = Null")
  case True
  then show ?thesis by (simp add: rb_insert_Null)
next
  case False
  then obtain k0 l0 r0 c0 v0 where t: "t = RB k0 l0 r0 c0 v0" by (cases t) simp
  from t show ?thesis
  proof (cases rule: flip_cases)
    case other
    then have f: "flip t = RB k0 l0 r0 c0 v0" using t by simp
    have g: "good l0" "good r0" using assms t by simp_all
    show ?thesis
      using root_left [OF assms [unfolded t] other(1) rb_insert_grown [OF g(1)]]
        root_right [OF assms [unfolded t] other(1) rb_insert_grown [OF g(2)]]
      unfolding rb_insert_RB [OF False f] by simp
  next
    case (both lk ll lr lv rk rl rr rv)
    let ?l = "RB lk ll lr False lv" and ?r = "RB rk rl rr False rv"
    have g: "good l0" "good r0" "good ?l" "good ?r" "bheight l0 = bheight r0" using assms t both by simp_all
    have l: "good (rb_insert ?l nk nv) \<and> \<not> is_red (rb_insert ?l nk nv) \<and> bheight (rb_insert ?l nk nv) = Suc (bheight l0)"
      by (rule flipped_left [OF g(1) both(1) rb_insert_grown [OF g(3)]])
    have r: "good (rb_insert ?r nk nv) \<and> \<not> is_red (rb_insert ?r nk nv) \<and> bheight (rb_insert ?r nk nv) = Suc (bheight r0)"
      by (rule flipped_left [OF g(2) both(2) rb_insert_grown [OF g(4)]])
    show ?thesis
      unfolding rb_insert_RB [OF False both(3)]
      using l r g both(1,2) by (simp add: flipped_fix)
  qed
qed

fun height :: "'a rbtree \<Rightarrow> nat" where
  "height Null = 0"
| "height (RB k l r c v) = Suc (max (height l) (height r))"

lemma good_height:
  "good t \<Longrightarrow> height t \<le> 2 * bheight t + (if is_red t then 1 else 0) \<and> 2 ^ bheight t \<le> length (inorder t) + 1"
proof (induction t)
  case (RB k l r c v)
  then have l: "height l \<le> 2 * bheight l + (if is_red l then 1 else 0)" "2 ^ bheight l \<le> length (inorder l) + 1"
    and r: "height r \<le> 2 * bheight l + (if is_red r then 1 else 0)" "2 ^ bheight l \<le> length (inorder r) + 1"
    by auto
  show ?case using l r RB.prems by (cases c; cases "is_red l"; cases "is_red r") auto
qed simp

lemma root_ok_height:
  "root_ok t \<Longrightarrow> height t \<le> 2 * bheight t + 2 \<and> 2 ^ bheight t \<le> length (inorder t) + 1"
proof (cases t)
  case (RB k l r c v)
  assume t: "root_ok t"
  then have "height l \<le> 2 * bheight l + 1" "height r \<le> 2 * bheight l + 1"
    "2 ^ bheight l \<le> length (inorder l) + 1" "2 ^ bheight l \<le> length (inorder r) + 1"
    using good_height [of l] good_height [of r] RB by (auto split: if_splits)
  then show ?thesis using RB by (cases c) auto
qed simp

section \<open>Properties\<close>

definition rb_build :: "(u64 \<times> 'a) list \<Rightarrow> 'a rbtree" where
  "rb_build ns = foldl (\<lambda>t (k, v). rb_insert t k v) Null ns"

lemma rb_build_ok:
  "keys_sorted (rb_build ns) \<and> mset (inorder (rb_build ns)) = mset ns \<and> root_ok (rb_build ns)"
proof (induction ns rule: rev_induct)
  case (snoc n ns)
  obtain k v where n: "n = (k, v)" by fastforce
  then show ?case using snoc
    by (simp add: rb_build_def keys_sorted_insert rb_insert_root_ok inorder_rb_insert mset_ins_after)
qed (simp add: rb_build_def keys_sorted_def)

text \<open>
  C25: in the tree made by any sequence of insertions, with equal keys or not, a search returns a
  node with the greatest key that is not above the given one, and \<open>NULL\<close> exactly if all keys are
  above it; the nodes are the inserted ones, each once and in the order of their keys, and no path
  is longer than about twice the logarithm of their number.
\<close>
theorem rb_tree_correct:
  "floor_in ns k (rb_search (rb_build ns) k) \<and>
   sorted (map fst (inorder (rb_build ns))) \<and> mset (inorder (rb_build ns)) = mset ns \<and>
   (\<exists>b. height (rb_build ns) \<le> 2 * b + 2 \<and> 2 ^ b \<le> length ns + 1)"
proof -
  note b = rb_build_ok [of ns]
  have "set (inorder (rb_build ns)) = set ns" "length (inorder (rb_build ns)) = length ns"
    using b by (metis set_mset_mset, metis size_mset)
  then show ?thesis
    using b rb_search_floor [of "rb_build ns" k] floor_in_set [of "inorder (rb_build ns)" ns]
      root_ok_height [of "rb_build ns"]
    by (auto simp: keys_sorted_def)
qed

end
