(* ===== verification/Raa.thy ===== *)
theory Raa
  imports Prelude "HOL-Library.Monad_Syntax"
begin

text \<open>
  \<open>nasm/nasmlib/raa.c\<close>: the growing random access array of 64-bit integers, a tree whose leaves hold
  the data and whose branches hold pointers to the next layer.

  \<open>None\<close> stands for a failed assertion or for a shift by 32 or more of a 32-bit value, which C
  leaves undefined.
\<close>

section \<open>The interface of an array\<close>

locale int_array =
  fixes wf :: "'a \<Rightarrow> bool" and start :: "'a"
    and rd :: "'a \<Rightarrow> 'i \<Rightarrow> 'v" and wr :: "'a \<Rightarrow> 'i \<Rightarrow> 'v \<Rightarrow> 'a" and in_range :: "'i \<Rightarrow> bool"
    and zero :: "'v"
  assumes wf_start: "wf start"
    and rd_start: "in_range i \<Longrightarrow> rd start i = zero"
    and wf_wr: "wf a \<Longrightarrow> in_range i \<Longrightarrow> wf (wr a i v)"
    and rd_wr: "wf a \<Longrightarrow> in_range i \<Longrightarrow> in_range j \<Longrightarrow>
      rd (wr a i v) j = (if j = i then v else rd a j)"
begin

lemma wr_all_wf: "wf a \<Longrightarrow> \<forall>w \<in> set ws. in_range (fst w) \<Longrightarrow> wf (foldl (\<lambda>a w. wr a (fst w) (snd w)) a ws)"
  by (induction ws arbitrary: a) (auto simp: wf_wr)

text \<open>The value that is read is the one that was written last.\<close>

lemma rd_wr_all:
  assumes "\<forall>w \<in> set ws. in_range (fst w)" and "in_range j"
  shows "rd (foldl (\<lambda>a w. wr a (fst w) (snd w)) start ws) j
    = (case map_of (rev ws) j of Some v \<Rightarrow> v | None \<Rightarrow> zero)"
  using assms(1)
proof (induction ws rule: rev_induct)
  case Nil
  then show ?case by (simp add: rd_start assms(2))
next
  case (snoc w ws)
  have "wf (foldl (\<lambda>a w. wr a (fst w) (snd w)) start ws)"
    using snoc.prems by (intro wr_all_wf wf_start) simp
  then show ?case using snoc assms(2) by (cases w) (simp add: rd_wr)
qed

end

section \<open>The code\<close>

definition RAA_BLKSHIFT :: nat where "RAA_BLKSHIFT = 15"
definition RAA_BLKSIZE :: nat where "RAA_BLKSIZE = 2 ^ RAA_BLKSHIFT"
definition RAA_LAYERSHIFT :: nat where "RAA_LAYERSHIFT = 15"
definition RAA_LAYERSIZE :: nat where "RAA_LAYERSIZE = 2 ^ RAA_LAYERSHIFT"

datatype RAA =
    Leaf (shift: nat) (ldata: "u64 list")
  | Branch (blayers: nat) (shift: nat) (bdata: "RAA option list")

definition layers :: "RAA \<Rightarrow> nat" where
  "layers r = (case r of Leaf _ _ \<Rightarrow> 0 | Branch l _ _ \<Rightarrow> l)"

definition LAYERSHIFT :: "RAA \<Rightarrow> nat" where
  "LAYERSHIFT r = (if layers r = 0 then RAA_BLKSHIFT else RAA_LAYERSHIFT)"

text \<open>\<open>UINT32_C(1) << n\<close>\<close>

definition shl1 :: "nat \<Rightarrow> u32 option" where
  "shl1 n = (if n < 32 then Some (push_bit n 1) else None)"

definition real_raa_init :: "nat \<Rightarrow> RAA" where
  "real_raa_init n =
     (if n = 0 then Leaf 0 (replicate RAA_BLKSIZE 0)
      else Branch n ((RAA_BLKSHIFT - RAA_LAYERSHIFT) + n * RAA_LAYERSHIFT) (replicate RAA_LAYERSIZE None))"

definition raa_init :: RAA where
  "raa_init = real_raa_init 0"

lemma child_size:
  assumes "i < length d" "d ! i = Some r"
  shows "size r < size (Branch n s d)"
proof -
  have "size r \<le> size_option size (d ! i)" using assms(2) by simp
  then have "size r \<le> size_list (size_option size) d"
    using assms(1) by (intro size_list_estimation' [of "d ! i"]) simp_all
  then show ?thesis by simp
qed

text \<open>
  The loop of \<open>raa_read\<close> below the top; \<open>posn\<close> is not negative there. An index outside a leaf or a
  branch is \<open>None\<close>, too.
\<close>

function read_loop :: "RAA \<Rightarrow> u32 \<Rightarrow> u64 option" where
  "read_loop r posn =
     (case r of
        Leaf s d \<Rightarrow> if unat posn < length d then Some (d ! unat posn) else None
      | Branch n s d \<Rightarrow>
          (case shl1 s of
             None \<Rightarrow> None
           | Some m \<Rightarrow>
               if length d \<le> unat (drop_bit s posn) then None
               else
                 (case d ! unat (drop_bit s posn) of
                    None \<Rightarrow> Some 0
                  | Some r \<Rightarrow> read_loop r (posn AND (m - 1)))))"
  by pat_completeness auto
termination
  by (relation "measure (\<lambda>(r, posn). size r)") (auto simp: child_size not_le simp del: RAA.size)

declare read_loop.simps [simp del]

definition raa_read :: "RAA \<Rightarrow> u32 \<Rightarrow> u64 option" where
  "raa_read r posn =
     do {
       lim \<leftarrow> shl1 (shift r + LAYERSHIFT r);
       if lim \<le> posn then Some 0 else read_loop r posn
     }"

text \<open>The loop of \<open>raa_write\<close> that adds layers.\<close>

function grow_loop :: "RAA \<Rightarrow> u32 \<Rightarrow> RAA option" where
  "grow_loop r posn =
     (case shl1 (shift r + LAYERSHIFT r) of
        None \<Rightarrow> None
      | Some lim \<Rightarrow>
          if lim \<le> posn
          then grow_loop (Branch (layers r + 1) (LAYERSHIFT r + shift r)
                 ((replicate RAA_LAYERSIZE None)[0 := Some r])) posn
          else Some r)"
  by pat_completeness auto
termination
  by (relation "measure (\<lambda>(r, posn). 48 - (shift r + LAYERSHIFT r))")
    (auto simp: shl1_def LAYERSHIFT_def layers_def RAA_LAYERSHIFT_def RAA_BLKSHIFT_def split: if_splits)

declare grow_loop.simps [simp del]

partial_function (option) write_loop :: "RAA \<Rightarrow> u32 \<Rightarrow> u64 \<Rightarrow> RAA option" where
  "write_loop r posn value =
     (case r of
        Leaf s d \<Rightarrow>
          if unat posn < length d then Some (Leaf s (d[unat posn := value])) else None
      | Branch n s d \<Rightarrow>
          do {
            m \<leftarrow> shl1 s;
            let l = unat (drop_bit s posn);
            if length d \<le> l then None
            else do {
              child \<leftarrow> write_loop (case d ! l of None \<Rightarrow> real_raa_init (n - 1) | Some c \<Rightarrow> c)
                         (posn AND (m - 1)) value;
              Some (Branch n s (d[l := Some child]))
            }
          })"

definition raa_write :: "RAA \<Rightarrow> u32 \<Rightarrow> u64 \<Rightarrow> RAA option" where
  "raa_write r posn value =
     (if sint posn < 0 then None
      else do { r \<leftarrow> grow_loop r posn; write_loop r posn value })"

section \<open>Well-formed arrays\<close>

primrec raa_wf :: "nat \<Rightarrow> RAA \<Rightarrow> bool" where
  "raa_wf 0 r \<longleftrightarrow> (\<exists>d. r = Leaf 0 d \<and> length d = 2 ^ 15)"
| "raa_wf (Suc n) r \<longleftrightarrow>
     (\<exists>d. r = Branch (Suc n) (15 * Suc n) d \<and> length d = 2 ^ 15 \<and>
        (\<forall>x \<in> set d. case x of None \<Rightarrow> True | Some c \<Rightarrow> raa_wf n c))"

text \<open>The value at an index of an array with the given number of layers.\<close>

primrec raa_get :: "nat \<Rightarrow> RAA \<Rightarrow> nat \<Rightarrow> u64" where
  "raa_get 0 r p = ldata r ! p"
| "raa_get (Suc n) r p =
     (case bdata r ! (p div 2 ^ (15 * Suc n)) of
        None \<Rightarrow> 0
      | Some c \<Rightarrow> raa_get n c (p mod 2 ^ (15 * Suc n)))"

lemma shl1_Some: "n < 32 \<Longrightarrow> \<exists>m. shl1 n = Some m \<and> unat m = 2 ^ n \<and> m - 1 = mask n"
  unfolding shl1_def
  by (simp add: push_bit_eq_mult mask_eq_exp_minus_1 unat_2_power)

lemma raa_wf_top:
  assumes "raa_wf n r"
  shows "shift r + LAYERSHIFT r = 15 * Suc n" "layers r = n"
  using assms
  by (cases n; auto simp: LAYERSHIFT_def layers_def RAA_BLKSHIFT_def RAA_LAYERSHIFT_def)+

lemma wf_init: "raa_wf n (real_raa_init n)"
  by (cases n) (auto simp: real_raa_init_def RAA_BLKSIZE_def RAA_LAYERSIZE_def RAA_BLKSHIFT_def RAA_LAYERSHIFT_def)

lemma index_less:
  fixes p :: nat
  assumes "p < 2 ^ (15 * Suc (Suc n))"
  shows "p div 2 ^ (15 * Suc n) < 2 ^ 15"
proof (rule less_mult_imp_div_less)
  show "p < 2 ^ 15 * 2 ^ (15 * Suc n)"
    using assms by (simp only: power_add [symmetric] mult_Suc_right [of 15 "Suc n"])
qed

lemma get_init:
  assumes "p < 2 ^ (15 * Suc n)"
  shows "raa_get n (real_raa_init n) p = 0"
proof (cases n)
  case 0
  then show ?thesis using assms by (simp add: real_raa_init_def RAA_BLKSIZE_def RAA_BLKSHIFT_def)
next
  case (Suc m)
  then have "p div 2 ^ (15 * Suc m) < 2 ^ 15" using assms index_less [of p m] by simp
  then show ?thesis
    unfolding Suc real_raa_init_def RAA_LAYERSIZE_def RAA_LAYERSHIFT_def
    by (simp del: mult_Suc_right)
qed

lemma read_loop_Branch:
  "read_loop (Branch n s d) posn =
     (case shl1 s of
        None \<Rightarrow> None
      | Some m \<Rightarrow>
          if length d \<le> unat (drop_bit s posn) then None
          else
            (case d ! unat (drop_bit s posn) of
               None \<Rightarrow> Some 0
             | Some r \<Rightarrow> read_loop r (posn AND (m - 1))))"
  by (subst read_loop.simps) simp

lemma read_loop_eq:
  "raa_wf n r \<Longrightarrow> n \<le> 1 \<Longrightarrow> unat p < 2 ^ (15 * Suc n) \<Longrightarrow> read_loop r p = Some (raa_get n r (unat p))"
proof (induction n arbitrary: r p)
  case 0
  then show ?case by (auto simp: read_loop.simps [of r])
next
  case (Suc n)
  obtain d where r: "r = Branch (Suc n) (15 * Suc n) d" "length d = 2 ^ 15"
    "\<And>c. Some c \<in> set d \<Longrightarrow> raa_wf n c"
    using Suc.prems(1) by fastforce
  have i: "unat (drop_bit (15 * Suc n) p) = unat p div 2 ^ (15 * Suc n)"
    "unat p div 2 ^ (15 * Suc n) < length d"
    using index_less [OF Suc.prems(3)] r(2) by (simp_all only: unat_drop_bit)
  obtain m where m: "shl1 (15 * Suc n) = Some m" "m - 1 = mask (15 * Suc n)"
    using shl1_Some [of "15 * Suc n"] Suc.prems(2) by auto
  have low: "unat (p AND mask (15 * Suc n)) = unat p mod 2 ^ (15 * Suc n)" by (rule unat_and_mask)
  show ?case
  proof (cases "d ! (unat p div 2 ^ (15 * Suc n))")
    case None
    then show ?thesis using i m unfolding r(1) by (simp add: read_loop_Branch del: mult_Suc_right)
  next
    case (Some c)
    then have "raa_wf n c" using r(3) i(2) by (metis nth_mem)
    then have "read_loop c (p AND mask (15 * Suc n)) = Some (raa_get n c (unat p mod 2 ^ (15 * Suc n)))"
      using Suc.IH [of c "p AND mask (15 * Suc n)"] Suc.prems(2) unfolding low by simp
    then show ?thesis using i m Some unfolding r(1) by (simp add: read_loop_Branch del: mult_Suc_right)
  qed
qed

lemma write_loop_eq:
  "raa_wf n r \<Longrightarrow> n \<le> 1 \<Longrightarrow> unat p < 2 ^ (15 * Suc n) \<Longrightarrow>
    \<exists>r'. write_loop r p v = Some r' \<and> raa_wf n r' \<and>
      (\<forall>q < 2 ^ (15 * Suc n). raa_get n r' q = (if q = unat p then v else raa_get n r q))"
proof (induction n arbitrary: r p)
  case 0
  then obtain d where "r = Leaf 0 d" "length d = 2 ^ 15" by auto
  then show ?case using 0 by (subst write_loop.simps) auto
next
  case (Suc n)
  let ?k = "15 * Suc n"
  obtain d where r: "r = Branch (Suc n) ?k d" "length d = 2 ^ 15"
    "\<And>c. Some c \<in> set d \<Longrightarrow> raa_wf n c"
    using Suc.prems(1) by fastforce
  let ?l = "unat p div 2 ^ ?k" and ?q = "p AND mask ?k"
  have i: "unat (drop_bit ?k p) = ?l" "?l < length d"
    using index_less [OF Suc.prems(3)] r(2) by (simp_all only: unat_drop_bit)
  obtain m where m: "shl1 ?k = Some m" "m - 1 = mask ?k"
    using shl1_Some [of ?k] Suc.prems(2) by auto
  have low: "unat ?q = unat p mod 2 ^ ?k" by (rule unat_and_mask)
  define c where "c = (case d ! ?l of None \<Rightarrow> real_raa_init (Suc n - 1) | Some c \<Rightarrow> c)"
  have "raa_wf n c" unfolding c_def diff_Suc_1 using r(3) [of "the (d ! ?l)"] i(2) wf_init
    by (metis nth_mem option.case_eq_if option.collapse)
  moreover have "unat ?q < 2 ^ (15 * Suc n)" unfolding low by simp
  ultimately obtain c' where c': "write_loop c ?q v = Some c'" "raa_wf n c'"
    "\<And>q. q < 2 ^ ?k \<Longrightarrow> raa_get n c' q = (if q = unat p mod 2 ^ ?k then v else raa_get n c q)"
    using Suc.IH [of c ?q] Suc.prems(2) unfolding low by auto
  have w: "write_loop r p v = Some (Branch (Suc n) ?k (d[?l := Some c']))"
    using r(1) i m c'(1) [unfolded c_def]
    by (subst write_loop.simps) (simp add: Let_def del: mult_Suc_right)
  have wf: "raa_wf (Suc n) (Branch (Suc n) ?k (d[?l := Some c']))"
    using r(2,3) c'(2) by (auto dest!: set_update_subset_insert [THEN subsetD] split: option.splits)
  have get: "raa_get (Suc n) (Branch (Suc n) ?k (d[?l := Some c'])) q = (if q = unat p then v else raa_get (Suc n) r q)"
    if "q < 2 ^ (15 * Suc (Suc n))" for q
  proof (cases "q div 2 ^ ?k = ?l")
    case True
    have "q = unat p \<longleftrightarrow> q mod 2 ^ ?k = unat p mod 2 ^ ?k" using True by (metis div_mult_mod_eq)
    moreover have "raa_get n c (q mod 2 ^ ?k) = raa_get (Suc n) r q"
      using True r(1) get_init [of "q mod 2 ^ ?k" n] by (simp add: c_def del: mult_Suc_right split: option.split)
    ultimately show ?thesis
      using True c'(3) [of "q mod 2 ^ ?k"] i(2) by (simp del: mult_Suc_right)
  next
    case False
    then have "q \<noteq> unat p" by auto
    then show ?thesis using False r(1) by (simp del: mult_Suc_right)
  qed
  show ?case using w wf get by blast
qed

section \<open>Growing\<close>

definition add_layer :: "RAA \<Rightarrow> RAA" where
  "add_layer r = Branch (layers r + 1) (LAYERSHIFT r + shift r) ((replicate RAA_LAYERSIZE None)[0 := Some r])"

lemma add_layer_wf: "raa_wf n r \<Longrightarrow> raa_wf (Suc n) (add_layer r)"
  using raa_wf_top [of n r]
  by (auto simp: add_layer_def RAA_LAYERSIZE_def RAA_LAYERSHIFT_def add.commute [of "LAYERSHIFT r"]
      dest!: set_update_subset_insert [THEN subsetD] split: option.splits)

lemma add_layer_get:
  assumes "q < 2 ^ (15 * Suc (Suc n))"
  shows "raa_get (Suc n) (add_layer r) q = (if q < 2 ^ (15 * Suc n) then raa_get n r q else 0)"
proof -
  have l: "q div 2 ^ (15 * Suc n) < length (replicate RAA_LAYERSIZE (None :: RAA option))"
    using index_less [OF assms] by (simp add: RAA_LAYERSIZE_def RAA_LAYERSHIFT_def del: mult_Suc_right)
  show ?thesis
  proof (cases "q < 2 ^ (15 * Suc n)")
    case True
    then have "q div 2 ^ (15 * Suc n) = 0" "q mod 2 ^ (15 * Suc n) = q" by simp_all
    then show ?thesis using l True by (simp add: add_layer_def del: mult_Suc_right)
  next
    case False
    then have "q div 2 ^ (15 * Suc n) \<noteq> 0" by (simp add: div_eq_0_iff del: mult_Suc_right)
    then show ?thesis using l False by (simp add: add_layer_def del: mult_Suc_right)
  qed
qed

lemma shl1_le:
  assumes "n < 32"
  shows "\<exists>m. shl1 n = Some m \<and> (m \<le> p \<longleftrightarrow> 2 ^ n \<le> unat p)"
  using shl1_Some [OF assms] by (auto simp: word_le_nat_alt)

lemma grow_loop_step:
  assumes "raa_wf n r" "n \<le> 1"
  shows "grow_loop r p = (if 2 ^ (15 * Suc n) \<le> unat p then grow_loop (add_layer r) p else Some r)"
proof -
  have "15 * Suc n < 32" using assms(2) by simp
  from shl1_le [OF this, of p] obtain m where m: "shl1 (15 * Suc n) = Some m"
    "m \<le> p \<longleftrightarrow> 2 ^ (15 * Suc n) \<le> unat p" by blast
  show ?thesis
    unfolding grow_loop.simps [of r p] raa_wf_top(1) [OF assms(1)] m(1) m(2) [symmetric]
    by (simp add: add_layer_def)
qed

text \<open>The value of a well-formed array at any index, also above its top.\<close>

definition raa_value :: "nat \<Rightarrow> RAA \<Rightarrow> nat \<Rightarrow> u64" where
  "raa_value n r q = (if q < 2 ^ (15 * Suc n) then raa_get n r q else 0)"

lemma grow_loop_ok:
  assumes "raa_wf n r" "n \<le> 1" "unat p < 2 ^ 30"
  shows "\<exists>r' n'. grow_loop r p = Some r' \<and> n' \<le> 1 \<and> raa_wf n' r' \<and> unat p < 2 ^ (15 * Suc n') \<and>
    (\<forall>q < 2 ^ 30. raa_value n' r' q = raa_value n r q)"
proof (cases "2 ^ (15 * Suc n) \<le> unat p")
  case False
  then show ?thesis using assms grow_loop_step [OF assms(1,2), of p]
    by (intro exI [of _ r] exI [of _ n]) (simp del: mult_Suc_right)
next
  case True
  then have n: "n = 0" using assms(2,3) by (cases n) auto
  have wf: "raa_wf 1 (add_layer r)" using add_layer_wf [OF assms(1)] n by simp
  have "grow_loop r p = grow_loop (add_layer r) p" using grow_loop_step [OF assms(1,2), of p] True by simp
  also have "\<dots> = Some (add_layer r)"
    using grow_loop_step [OF wf, of p] assms(3) by simp
  finally have g: "grow_loop r p = Some (add_layer r)" .
  have "raa_value 1 (add_layer r) q = raa_value n r q" if "q < 2 ^ 30" for q
    using add_layer_get [of q 0 r] that n by (simp add: raa_value_def)
  with g wf assms(3) show ?thesis by (intro exI [of _ "add_layer r"] exI [of _ 1]) simp
qed

lemma raa_read_eq:
  assumes "raa_wf n r" "n \<le> 1"
  shows "raa_read r p = Some (raa_value n r (unat p))"
proof -
  have "15 * Suc n < 32" using assms(2) by simp
  from shl1_le [OF this, of p] obtain m where m: "shl1 (15 * Suc n) = Some m"
    "m \<le> p \<longleftrightarrow> 2 ^ (15 * Suc n) \<le> unat p" by blast
  show ?thesis
  proof (cases "m \<le> p")
    case True
    then show ?thesis using m raa_wf_top [OF assms(1)]
      by (simp add: raa_read_def raa_value_def del: mult_Suc_right)
  next
    case False
    then have "unat p < 2 ^ (15 * Suc n)" using m(2) by simp
    then show ?thesis using False m(1) raa_wf_top [OF assms(1)] read_loop_eq [OF assms]
      by (simp add: raa_read_def raa_value_def del: mult_Suc_right)
  qed
qed

lemma sint_small: "unat (p :: u32) < 2 ^ 31 \<longleftrightarrow> \<not> sint p < 0"
proof -
  have "sint p < 0 \<longleftrightarrow> bit p 31" using bit_last_iff [of p] by simp
  moreover have "bit p 31 \<longleftrightarrow> 2 ^ 31 \<le> unat p"
  proof
    assume "bit p 31"
    then have "bit (unat p) 31" by (simp add: bit_unsigned_iff)
    then show "2 ^ 31 \<le> unat p" by (metis bit_nat_iff take_bit_nat_eq_self bit_take_bit_iff less_irrefl not_less)
  next
    assume "2 ^ 31 \<le> unat p"
    moreover have "unat p < 2 ^ Suc 31" using unat_lt_len [of p] by simp
    ultimately have "unat p div 2 ^ 31 = 1" by (intro div_nat_eqI) simp_all
    then have "bit (unat p) 31" by (simp add: bit_iff_odd)
    then show "bit p 31" by (simp add: bit_unsigned_iff)
  qed
  ultimately show ?thesis by auto
qed

lemma raa_write_eq:
  assumes "raa_wf n r" "n \<le> 1" "unat p < 2 ^ 30"
  shows "\<exists>r' n'. raa_write r p v = Some r' \<and> n' \<le> 1 \<and> raa_wf n' r' \<and>
    (\<forall>q < 2 ^ 30. raa_value n' r' q = (if q = unat p then v else raa_value n r q))"
proof -
  obtain r1 n1 where g: "grow_loop r p = Some r1" "n1 \<le> 1" "raa_wf n1 r1" "unat p < 2 ^ (15 * Suc n1)"
    "\<forall>q < 2 ^ 30. raa_value n1 r1 q = raa_value n r q"
    using grow_loop_ok [OF assms] by blast
  obtain r2 where w: "write_loop r1 p v = Some r2" "raa_wf n1 r2"
    "\<forall>q < 2 ^ (15 * Suc n1). raa_get n1 r2 q = (if q = unat p then v else raa_get n1 r1 q)"
    using write_loop_eq [OF g(3,2,4)] by blast
  have "\<not> sint p < 0" using sint_small [of p] assms(3) by simp
  then have "raa_write r p v = Some r2" using g(1) w(1) by (simp add: raa_write_def)
  moreover have "raa_value n1 r2 q = (if q = unat p then v else raa_value n r q)" if "q < 2 ^ 30" for q
    using w(3) g(4,5) that by (auto simp: raa_value_def simp del: mult_Suc_right)
  ultimately show ?thesis using g(2) w(2) by blast
qed

definition raa_ok :: "RAA \<Rightarrow> bool" where
  "raa_ok r \<longleftrightarrow> raa_wf 0 r \<or> raa_wf 1 r"

lemma raa_okE:
  assumes "raa_ok r"
  obtains n where "raa_wf n r" "n \<le> 1"
  using assms that [of 0] that [of 1] by (auto simp: raa_ok_def)

lemma raa_okI: "raa_wf n r \<Longrightarrow> n \<le> 1 \<Longrightarrow> raa_ok r"
  by (cases n) (auto simp: raa_ok_def)

lemma raa_init_ok: "raa_ok raa_init"
  using wf_init [of 0] by (simp add: raa_ok_def raa_init_def)

lemma raa_read_init: "raa_read raa_init p = Some 0"
  using raa_read_eq [of 0 raa_init p] wf_init [of 0] get_init [of "unat p" 0]
  by (simp add: raa_value_def raa_init_def)

lemma raa_write_read:
  assumes "raa_ok r" "unat p < 2 ^ 30"
  obtains r' where "raa_write r p v = Some r'" "raa_ok r'"
    "\<And>q. unat q < 2 ^ 30 \<Longrightarrow> raa_read r' q = (if q = p then Some v else raa_read r q)"
proof -
  obtain n where n: "raa_wf n r" "n \<le> 1" using assms(1) by (rule raa_okE)
  obtain r' n' where r': "raa_write r p v = Some r'" "n' \<le> 1" "raa_wf n' r'"
    "\<forall>q < 2 ^ 30. raa_value n' r' q = (if q = unat p then v else raa_value n r q)"
    using raa_write_eq [OF n assms(2)] by blast
  show thesis
    by (rule that [OF r'(1) raa_okI [OF r'(3,2)]])
      (simp add: raa_read_eq [OF n] raa_read_eq [OF r'(3,2)] r'(4) word_unat_eq_iff)
qed

text \<open>The access functions where they are defined.\<close>

definition raa_rd :: "RAA \<Rightarrow> u32 \<Rightarrow> u64" where "raa_rd r i = the (raa_read r i)"
definition raa_wr :: "RAA \<Rightarrow> u32 \<Rightarrow> u64 \<Rightarrow> RAA" where "raa_wr r i v = the (raa_write r i v)"

interpretation raa: int_array raa_ok raa_init raa_rd raa_wr "\<lambda>i. unat i < 2 ^ 30" 0
proof
  show "raa_ok raa_init" by (rule raa_init_ok)
  show "raa_rd raa_init i = 0" for i by (simp add: raa_rd_def raa_read_init)
next
  fix a and i :: u32 and v
  assume a: "raa_ok a" "unat i < 2 ^ 30"
  obtain a' where a': "raa_write a i v = Some a'" "raa_ok a'"
    "\<And>q. unat q < 2 ^ 30 \<Longrightarrow> raa_read a' q = (if q = i then Some v else raa_read a q)"
    using raa_write_read [OF a, of v] by blast
  then show "raa_ok (raa_wr a i v)" by (simp add: raa_wr_def)
  fix j :: u32
  assume "unat j < 2 ^ 30"
  from a'(3) [OF this] a'(1) show "raa_rd (raa_wr a i v) j = (if j = i then v else raa_rd a j)"
    by (simp add: raa_wr_def raa_rd_def)
qed

text \<open>A sequence of writes as the code returns it.\<close>

fun raa_writes :: "RAA \<Rightarrow> (u32 \<times> u64) list \<Rightarrow> RAA option" where
  "raa_writes r [] = Some r"
| "raa_writes r (w # ws) = do { r \<leftarrow> raa_write r (fst w) (snd w); raa_writes r ws }"

lemma raa_writes_eq:
  "raa_ok r \<Longrightarrow> \<forall>w \<in> set ws. unat (fst w) < 2 ^ 30 \<Longrightarrow>
    raa_writes r ws = Some (foldl (\<lambda>a w. raa_wr a (fst w) (snd w)) r ws)"
proof (induction ws arbitrary: r)
  case (Cons w ws)
  from Cons.prems have w: "unat (fst w) < 2 ^ 30" by simp
  obtain r' where "raa_write r (fst w) (snd w) = Some r'" "raa_ok r'"
    using raa_write_read [OF Cons.prems(1) w] by blast
  then show ?case using Cons by (simp add: raa_wr_def)
qed simp

section \<open>Properties\<close>

text \<open>
  C26: below index \<open>2 ^ 30\<close>, any sequence of writes to a new array succeeds, and reading an index
  gives the value that was written to it last, or 0.
\<close>
theorem raa_correct:
  assumes "\<forall>w \<in> set ws. unat (fst w) < 2 ^ 30" and "unat j < 2 ^ 30"
  shows "\<exists>r. raa_writes raa_init ws = Some r \<and>
    raa_read r j = Some (case map_of (rev ws) j of Some v \<Rightarrow> v | None \<Rightarrow> 0)"
proof -
  let ?r = "foldl (\<lambda>a w. raa_wr a (fst w) (snd w)) raa_init ws"
  have ok: "raa_ok ?r" using assms(1) by (intro raa.wr_all_wf raa_init_ok)
  then obtain n where "raa_wf n ?r" "n \<le> 1" by (rule raa_okE)
  then have "raa_read ?r j = Some (raa_rd ?r j)" using raa_read_eq by (simp add: raa_rd_def)
  then show ?thesis
    using raa_writes_eq [OF raa_init_ok assms(1)] raa.rd_wr_all [OF assms] by auto
qed

theorem raa_correct_witness:
  "\<exists>r. raa_writes raa_init [(5, 7), (70000, 8), (5, 9)] = Some r \<and> raa_read r 5 = Some 9"
  using raa_correct [of "[(5, 7), (70000, 8), (5, 9)]" 5] by auto

text \<open>
  C27: an index of \<open>2 ^ 30\<close> or more makes \<open>raa_write\<close> shift a 32-bit one by 45, which C leaves
  undefined, so that such an index is never stored in a new array although the check at the top of
  \<open>raa_write\<close> admits it; a negative index fails the assertion, and reading any of these gives 0.
\<close>
theorem raa_write_undefined:
  assumes "raa_ok r" and "2 ^ 30 \<le> unat p"
  shows "raa_write r p v = None \<and> raa_read r p = Some 0 \<and> (unat p < 2 ^ 31 \<longrightarrow> \<not> sint p < 0)"
proof -
  obtain n where n: "raa_wf n r" "n \<le> 1" using assms(1) by (rule raa_okE)
  have up: "grow_loop r p = None" if "raa_wf 1 r" for r
  proof -
    have wf2: "raa_wf 2 (add_layer r)" using add_layer_wf [OF that] by (simp add: numeral_2_eq_2)
    have "grow_loop (add_layer r) p = None"
      using raa_wf_top(1) [OF wf2] by (subst grow_loop.simps) (simp add: shl1_def)
    then show ?thesis using grow_loop_step [OF that, of p] assms(2) by simp
  qed
  have "grow_loop r p = None"
  proof (cases n)
    case 0
    then have "raa_wf 0 r" "2 ^ (15 * Suc 0) \<le> unat p" using n(1) assms(2) by simp_all
    then have "grow_loop r p = grow_loop (add_layer r) p"
      using grow_loop_step [of 0 r p] by simp
    then show ?thesis using up [of "add_layer r"] add_layer_wf [OF \<open>raa_wf 0 r\<close>] by simp
  next
    case (Suc m)
    then have "n = 1" using n(2) by simp
    then have "raa_wf 1 r" using n(1) by (simp only:)
    then show ?thesis by (rule up)
  qed
  moreover have "raa_value n r (unat p) = 0"
    using n(2) assms(2) by (cases n) (auto simp: raa_value_def)
  ultimately show ?thesis
    using raa_read_eq [OF n] sint_small [of p] by (simp add: raa_write_def)
qed

theorem raa_write_undefined_witness: "raa_write raa_init 0x40000000 1 = None"
  using raa_write_undefined [OF raa_init_ok, of "0x40000000" 1] by simp

end
