(* ===== verification/Md5.thy ===== *)
theory Md5
  imports Prelude
begin

text \<open>
  The MD5 digest of \<open>nasmlib/md5c.c\<close>: the context, the update that buffers partial blocks and
  keeps the bit count in two 32-bit halves, the final padding, and the unrolled transform.
  The reference is RFC 1321 written out: the four functions as the RFC gives them, the 64 steps
  as a loop, and the digest as one pass over the padded message.
  The bytes \<open>in\<close> of the context keep the order in which they were copied; the words the code
  reads from them after \<open>byteReverse\<close> (which does nothing on a little-endian machine) are the
  value of the function \<open>byteReverse\<close> here.
\<close>

unbundle bit_operations_syntax

section \<open>The context and the transform\<close>

record md5_ctx =
  md_buf :: "u32 list"
  md_bits0 :: u32
  md_bits1 :: u32
  md_in :: "u8 list"

definition F1 :: "u32 \<Rightarrow> u32 \<Rightarrow> u32 \<Rightarrow> u32" where "F1 x y z = z XOR (x AND (y XOR z))"
definition F2 :: "u32 \<Rightarrow> u32 \<Rightarrow> u32 \<Rightarrow> u32" where "F2 x y z = F1 z x y"
definition F3 :: "u32 \<Rightarrow> u32 \<Rightarrow> u32 \<Rightarrow> u32" where "F3 x y z = x XOR y XOR z"
definition F4 :: "u32 \<Rightarrow> u32 \<Rightarrow> u32 \<Rightarrow> u32" where "F4 x y z = y XOR (x OR NOT z)"

definition MD5STEP ::
  "(u32 \<Rightarrow> u32 \<Rightarrow> u32 \<Rightarrow> u32) \<Rightarrow> u32 \<Rightarrow> u32 \<Rightarrow> u32 \<Rightarrow> u32 \<Rightarrow> u32 \<Rightarrow> nat \<Rightarrow> u32" where
  "MD5STEP f w x y z data s =
    (let w = w + (f x y z + data);
         w = push_bit s w OR drop_bit (32 - s) w
     in w + x)"

definition MD5Transform :: "u32 list \<Rightarrow> u32 list \<Rightarrow> u32 list" where
  "MD5Transform buf inp = (let
    a = buf ! 0; b = buf ! 1; c = buf ! 2; d = buf ! 3;
    a = MD5STEP F1 a b c d (inp ! 0 + 0xd76aa478) 7;
    d = MD5STEP F1 d a b c (inp ! 1 + 0xe8c7b756) 12;
    c = MD5STEP F1 c d a b (inp ! 2 + 0x242070db) 17;
    b = MD5STEP F1 b c d a (inp ! 3 + 0xc1bdceee) 22;
    a = MD5STEP F1 a b c d (inp ! 4 + 0xf57c0faf) 7;
    d = MD5STEP F1 d a b c (inp ! 5 + 0x4787c62a) 12;
    c = MD5STEP F1 c d a b (inp ! 6 + 0xa8304613) 17;
    b = MD5STEP F1 b c d a (inp ! 7 + 0xfd469501) 22;
    a = MD5STEP F1 a b c d (inp ! 8 + 0x698098d8) 7;
    d = MD5STEP F1 d a b c (inp ! 9 + 0x8b44f7af) 12;
    c = MD5STEP F1 c d a b (inp ! 10 + 0xffff5bb1) 17;
    b = MD5STEP F1 b c d a (inp ! 11 + 0x895cd7be) 22;
    a = MD5STEP F1 a b c d (inp ! 12 + 0x6b901122) 7;
    d = MD5STEP F1 d a b c (inp ! 13 + 0xfd987193) 12;
    c = MD5STEP F1 c d a b (inp ! 14 + 0xa679438e) 17;
    b = MD5STEP F1 b c d a (inp ! 15 + 0x49b40821) 22;
    a = MD5STEP F2 a b c d (inp ! 1 + 0xf61e2562) 5;
    d = MD5STEP F2 d a b c (inp ! 6 + 0xc040b340) 9;
    c = MD5STEP F2 c d a b (inp ! 11 + 0x265e5a51) 14;
    b = MD5STEP F2 b c d a (inp ! 0 + 0xe9b6c7aa) 20;
    a = MD5STEP F2 a b c d (inp ! 5 + 0xd62f105d) 5;
    d = MD5STEP F2 d a b c (inp ! 10 + 0x02441453) 9;
    c = MD5STEP F2 c d a b (inp ! 15 + 0xd8a1e681) 14;
    b = MD5STEP F2 b c d a (inp ! 4 + 0xe7d3fbc8) 20;
    a = MD5STEP F2 a b c d (inp ! 9 + 0x21e1cde6) 5;
    d = MD5STEP F2 d a b c (inp ! 14 + 0xc33707d6) 9;
    c = MD5STEP F2 c d a b (inp ! 3 + 0xf4d50d87) 14;
    b = MD5STEP F2 b c d a (inp ! 8 + 0x455a14ed) 20;
    a = MD5STEP F2 a b c d (inp ! 13 + 0xa9e3e905) 5;
    d = MD5STEP F2 d a b c (inp ! 2 + 0xfcefa3f8) 9;
    c = MD5STEP F2 c d a b (inp ! 7 + 0x676f02d9) 14;
    b = MD5STEP F2 b c d a (inp ! 12 + 0x8d2a4c8a) 20;
    a = MD5STEP F3 a b c d (inp ! 5 + 0xfffa3942) 4;
    d = MD5STEP F3 d a b c (inp ! 8 + 0x8771f681) 11;
    c = MD5STEP F3 c d a b (inp ! 11 + 0x6d9d6122) 16;
    b = MD5STEP F3 b c d a (inp ! 14 + 0xfde5380c) 23;
    a = MD5STEP F3 a b c d (inp ! 1 + 0xa4beea44) 4;
    d = MD5STEP F3 d a b c (inp ! 4 + 0x4bdecfa9) 11;
    c = MD5STEP F3 c d a b (inp ! 7 + 0xf6bb4b60) 16;
    b = MD5STEP F3 b c d a (inp ! 10 + 0xbebfbc70) 23;
    a = MD5STEP F3 a b c d (inp ! 13 + 0x289b7ec6) 4;
    d = MD5STEP F3 d a b c (inp ! 0 + 0xeaa127fa) 11;
    c = MD5STEP F3 c d a b (inp ! 3 + 0xd4ef3085) 16;
    b = MD5STEP F3 b c d a (inp ! 6 + 0x04881d05) 23;
    a = MD5STEP F3 a b c d (inp ! 9 + 0xd9d4d039) 4;
    d = MD5STEP F3 d a b c (inp ! 12 + 0xe6db99e5) 11;
    c = MD5STEP F3 c d a b (inp ! 15 + 0x1fa27cf8) 16;
    b = MD5STEP F3 b c d a (inp ! 2 + 0xc4ac5665) 23;
    a = MD5STEP F4 a b c d (inp ! 0 + 0xf4292244) 6;
    d = MD5STEP F4 d a b c (inp ! 7 + 0x432aff97) 10;
    c = MD5STEP F4 c d a b (inp ! 14 + 0xab9423a7) 15;
    b = MD5STEP F4 b c d a (inp ! 5 + 0xfc93a039) 21;
    a = MD5STEP F4 a b c d (inp ! 12 + 0x655b59c3) 6;
    d = MD5STEP F4 d a b c (inp ! 3 + 0x8f0ccc92) 10;
    c = MD5STEP F4 c d a b (inp ! 10 + 0xffeff47d) 15;
    b = MD5STEP F4 b c d a (inp ! 1 + 0x85845dd1) 21;
    a = MD5STEP F4 a b c d (inp ! 8 + 0x6fa87e4f) 6;
    d = MD5STEP F4 d a b c (inp ! 15 + 0xfe2ce6e0) 10;
    c = MD5STEP F4 c d a b (inp ! 6 + 0xa3014314) 15;
    b = MD5STEP F4 b c d a (inp ! 13 + 0x4e0811a1) 21;
    a = MD5STEP F4 a b c d (inp ! 4 + 0xf7537e82) 6;
    d = MD5STEP F4 d a b c (inp ! 11 + 0xbd3af235) 10;
    c = MD5STEP F4 c d a b (inp ! 2 + 0x2ad7d2bb) 15;
    b = MD5STEP F4 b c d a (inp ! 9 + 0xeb86d391) 21
    in [buf ! 0 + a, buf ! 1 + b, buf ! 2 + c, buf ! 3 + d])"

section \<open>Bytes and words\<close>

fun byteReverse :: "u8 list \<Rightarrow> nat \<Rightarrow> u32 list" where
  "byteReverse buf 0 = []"
| "byteReverse buf (Suc longs) =
    (push_bit 16 (push_bit 8 (ucast (buf ! 3)) OR ucast (buf ! 2)) OR
      (push_bit 8 (ucast (buf ! 1)) OR ucast (buf ! 0)))
    # byteReverse (drop 4 buf) longs"

definition copy_at :: "u8 list \<Rightarrow> nat \<Rightarrow> u8 list \<Rightarrow> u8 list" where
  "copy_at mem p bs = take p mem @ bs @ drop (p + length bs) mem"

definition word_bytes :: "u32 \<Rightarrow> u8 list" where
  "word_bytes w = [ucast w, ucast (drop_bit 8 w), ucast (drop_bit 16 w), ucast (drop_bit 24 w)]"

section \<open>Init, update and final\<close>

definition MD5Init :: md5_ctx where
  "MD5Init = \<lparr>md_buf = [0x67452301, 0xefcdab89, 0x98badcfe, 0x10325476],
    md_bits0 = 0, md_bits1 = 0, md_in = replicate 64 0\<rparr>"

definition transform_in :: "md5_ctx \<Rightarrow> md5_ctx" where
  "transform_in ctx = ctx\<lparr>md_buf := MD5Transform (md_buf ctx) (byteReverse (md_in ctx) 16)\<rparr>"

function update_loop :: "md5_ctx \<Rightarrow> u8 list \<Rightarrow> u32 \<Rightarrow> md5_ctx" where
  "update_loop ctx buf len =
    (if 64 \<le> len
     then update_loop (transform_in (ctx\<lparr>md_in := copy_at (md_in ctx) 0 (take 64 buf)\<rparr>))
            (drop 64 buf) (len - 64)
     else ctx\<lparr>md_in := copy_at (md_in ctx) 0 (take (unat len) buf)\<rparr>)"
  by pat_completeness auto
termination
  by (relation "measure (\<lambda>(ctx, buf, len). unat len)")
    (auto simp: word_le_nat_alt unat_sub_small)

definition MD5Update :: "md5_ctx \<Rightarrow> u8 list \<Rightarrow> u32 \<Rightarrow> md5_ctx" where
  "MD5Update ctx buf len =
    (let t = md_bits0 ctx;
         b0 = t + push_bit 3 len;
         b1 = (if b0 < t then md_bits1 ctx + 1 else md_bits1 ctx);
         b1 = b1 + drop_bit 29 len;
         ctx = ctx\<lparr>md_bits0 := b0, md_bits1 := b1\<rparr>;
         t = drop_bit 3 t AND 0x3f
     in if t \<noteq> 0 then
          let p = t; t = 64 - t
          in if len < t
             then ctx\<lparr>md_in := copy_at (md_in ctx) (unat p) (take (unat len) buf)\<rparr>
             else update_loop
               (transform_in (ctx\<lparr>md_in := copy_at (md_in ctx) (unat p) (take (unat t) buf)\<rparr>))
               (drop (unat t) buf) (len - t)
        else update_loop ctx buf len)"

definition MD5Final :: "md5_ctx \<Rightarrow> u8 list \<times> md5_ctx" where
  "MD5Final ctx =
    (let count = drop_bit 3 (md_bits0 ctx) AND 0x3F;
         p = unat count;
         ctx = ctx\<lparr>md_in := (md_in ctx)[p := 0x80]\<rparr>;
         p = p + 1;
         count = 64 - 1 - count;
         ctx = (if count < 8 then
             let ctx = transform_in (ctx\<lparr>md_in := copy_at (md_in ctx) p (replicate (unat count) 0)\<rparr>)
             in ctx\<lparr>md_in := copy_at (md_in ctx) 0 (replicate 56 0)\<rparr>
           else ctx\<lparr>md_in := copy_at (md_in ctx) p (replicate (unat (count - 8)) 0)\<rparr>);
         inp = byteReverse (md_in ctx) 14 @ [md_bits0 ctx, md_bits1 ctx];
         ctx = ctx\<lparr>md_buf := MD5Transform (md_buf ctx) inp\<rparr>
     in (concat (map word_bytes (md_buf ctx)),
         \<lparr>md_buf = replicate 4 0, md_bits0 = 0, md_bits1 = 0, md_in = replicate 64 0\<rparr>))"

section \<open>RFC 1321\<close>

definition rfc_f :: "nat \<Rightarrow> u32 \<Rightarrow> u32 \<Rightarrow> u32 \<Rightarrow> u32" where
  "rfc_f r x y z =
    (if r = 0 then (x AND y) OR (NOT x AND z)
     else if r = 1 then (x AND z) OR (y AND NOT z)
     else if r = 2 then x XOR y XOR z
     else y XOR (x OR NOT z))"

definition rfc_index :: "nat \<Rightarrow> nat" where
  "rfc_index i = [i, 5 * i + 1, 3 * i + 5, 7 * i] ! (i div 16) mod 16"

definition rfc_shift :: "nat \<Rightarrow> nat" where
  "rfc_shift i = [[7, 12, 17, 22], [5, 9, 14, 20], [4, 11, 16, 23], [6, 10, 15, 21]] ! (i div 16) ! (i mod 4)"

definition rfc_table :: "u32 list" where
  "rfc_table = [0xd76aa478, 0xe8c7b756, 0x242070db, 0xc1bdceee,
    0xf57c0faf, 0x4787c62a, 0xa8304613, 0xfd469501,
    0x698098d8, 0x8b44f7af, 0xffff5bb1, 0x895cd7be,
    0x6b901122, 0xfd987193, 0xa679438e, 0x49b40821,
    0xf61e2562, 0xc040b340, 0x265e5a51, 0xe9b6c7aa,
    0xd62f105d, 0x02441453, 0xd8a1e681, 0xe7d3fbc8,
    0x21e1cde6, 0xc33707d6, 0xf4d50d87, 0x455a14ed,
    0xa9e3e905, 0xfcefa3f8, 0x676f02d9, 0x8d2a4c8a,
    0xfffa3942, 0x8771f681, 0x6d9d6122, 0xfde5380c,
    0xa4beea44, 0x4bdecfa9, 0xf6bb4b60, 0xbebfbc70,
    0x289b7ec6, 0xeaa127fa, 0xd4ef3085, 0x04881d05,
    0xd9d4d039, 0xe6db99e5, 0x1fa27cf8, 0xc4ac5665,
    0xf4292244, 0x432aff97, 0xab9423a7, 0xfc93a039,
    0x655b59c3, 0x8f0ccc92, 0xffeff47d, 0x85845dd1,
    0x6fa87e4f, 0xfe2ce6e0, 0xa3014314, 0x4e0811a1,
    0xf7537e82, 0xbd3af235, 0x2ad7d2bb, 0xeb86d391]"

definition rfc_step :: "u32 list \<Rightarrow> nat \<Rightarrow> u32 \<times> u32 \<times> u32 \<times> u32 \<Rightarrow> u32 \<times> u32 \<times> u32 \<times> u32" where
  "rfc_step X i = (\<lambda>(a, b, c, d).
    (d, b + word_rotl (rfc_shift i) (a + rfc_f (i div 16) b c d + X ! rfc_index i + rfc_table ! i), b, c))"

definition rfc_compress :: "u32 list \<Rightarrow> u32 list \<Rightarrow> u32 list" where
  "rfc_compress h X =
    (case fold (rfc_step X) [0..<64] (h ! 0, h ! 1, h ! 2, h ! 3) of
       (a, b, c, d) \<Rightarrow> [h ! 0 + a, h ! 1 + b, h ! 2 + c, h ! 3 + d])"

definition rfc_words :: "u8 list \<Rightarrow> nat \<Rightarrow> u32 list" where
  "rfc_words bs n =
    map (\<lambda>i. foldr (\<lambda>b w. ucast b + 256 * w) (take 4 (drop (4 * i) bs)) 0) [0..<n]"

fun rfc_hash :: "u32 list \<Rightarrow> u8 list \<Rightarrow> u32 list" where
  "rfc_hash h bs =
    (if length bs < 64 then h else rfc_hash (rfc_compress h (rfc_words bs 16)) (drop 64 bs))"

declare rfc_hash.simps [simp del]

definition rfc_pad :: "u8 list \<Rightarrow> u8 list" where
  "rfc_pad msg = msg @ [0x80] @ replicate ((119 - length msg mod 64) mod 64) 0 @
     map (\<lambda>i. of_nat (8 * length msg div 256 ^ i)) [0..<8]"

definition md5 :: "u8 list \<Rightarrow> u8 list" where
  "md5 msg = concat (map word_bytes
     (rfc_hash [0x67452301, 0xefcdab89, 0x98badcfe, 0x10325476] (rfc_pad msg)))"

declare update_loop.simps [simp del]

section \<open>The transform is the loop of the RFC\<close>

lemma rfc_f_code: "rfc_f 0 = F1" "rfc_f 1 = F2" "rfc_f 2 = F3" "rfc_f 3 = F4"
proof -
  have "rfc_f 0 x y z = F1 x y z \<and> rfc_f 1 x y z = F2 x y z" for x y z
    unfolding rfc_f_def F1_def F2_def by (auto intro!: bit_word_eqI simp: bit_simps)
  then show "rfc_f 0 = F1" "rfc_f 1 = F2" by (auto simp: fun_eq_iff)
qed (auto simp: rfc_f_def F3_def F4_def fun_eq_iff)

lemma rotl_code:
  fixes w :: u32
  assumes "0 < s" "s < 32"
  shows "push_bit s w OR drop_bit (32 - s) w = word_rotl s w"
proof (rule bit_word_eqI)
  fix n assume "n < LENGTH(32)"
  then have n: "n < 32" by simp
  have "(n + (32 - s)) mod 32 = (if s \<le> n then n - s else n + (32 - s))"
  proof (cases "s \<le> n")
    case True
    then have "n + (32 - s) = 32 + (n - s)" using assms by simp
    then show ?thesis using True n by (simp only: mod_add_self1 if_True) simp
  next
    case False
    then show ?thesis using n by simp
  qed
  moreover have "32 - s + n = n + (32 - s)" by simp
  ultimately show "bit (push_bit s w OR drop_bit (32 - s) w) n = bit (word_rotl s w) n"
    using assms n by (simp only: bit_word_rotl_iff bit_or_iff bit_push_bit_iff bit_drop_bit_eq o_def
      word_size len_num1 len_num0 len_bit0) (auto simp: dest: bit_imp_le_length)
qed

fun rfc_run :: "(nat \<times> nat \<times> nat \<times> u32) list \<Rightarrow> u32 list \<Rightarrow> u32 \<times> u32 \<times> u32 \<times> u32 \<Rightarrow> u32 \<times> u32 \<times> u32 \<times> u32" where
  "rfc_run [] X s = s"
| "rfc_run ((r, i, k, t) # ops) X (a, b, c, d) =
    rfc_run ops X (d, MD5STEP (rfc_f r) a b c d (X ! i + t) k, b, c)"

lemma rfc_run_fold:
  assumes "\<And>i. i \<in> set is \<Longrightarrow> 0 < rfc_shift i \<and> rfc_shift i < 32"
  shows "rfc_run (map (\<lambda>i. (i div 16, rfc_index i, rfc_shift i, rfc_table ! i)) is) X s = fold (rfc_step X) is s"
  using assms
proof (induction "is" arbitrary: s)
  case (Cons i "is")
  then show ?case
    by (cases s) (simp add: rfc_step_def MD5STEP_def rotl_code ac_simps)
qed simp

lemma run_let:
  "(case rfc_run ((r, i, k, t) # ops) X (a, b, c, d) of (a, b, c, d) \<Rightarrow> f a b c d) =
   (let a = MD5STEP (rfc_f r) a b c d (X ! i + t) k in
    case rfc_run ops X (d, a, b, c) of (a, b, c, d) \<Rightarrow> f a b c d)"
  by simp

definition rfc_ops :: "(nat \<times> nat \<times> nat \<times> u32) list" where
  "rfc_ops = [(0, 0, 7, 0xd76aa478),
    (0, 1, 12, 0xe8c7b756),
    (0, 2, 17, 0x242070db),
    (0, 3, 22, 0xc1bdceee),
    (0, 4, 7, 0xf57c0faf),
    (0, 5, 12, 0x4787c62a),
    (0, 6, 17, 0xa8304613),
    (0, 7, 22, 0xfd469501),
    (0, 8, 7, 0x698098d8),
    (0, 9, 12, 0x8b44f7af),
    (0, 10, 17, 0xffff5bb1),
    (0, 11, 22, 0x895cd7be),
    (0, 12, 7, 0x6b901122),
    (0, 13, 12, 0xfd987193),
    (0, 14, 17, 0xa679438e),
    (0, 15, 22, 0x49b40821),
    (1, 1, 5, 0xf61e2562),
    (1, 6, 9, 0xc040b340),
    (1, 11, 14, 0x265e5a51),
    (1, 0, 20, 0xe9b6c7aa),
    (1, 5, 5, 0xd62f105d),
    (1, 10, 9, 0x02441453),
    (1, 15, 14, 0xd8a1e681),
    (1, 4, 20, 0xe7d3fbc8),
    (1, 9, 5, 0x21e1cde6),
    (1, 14, 9, 0xc33707d6),
    (1, 3, 14, 0xf4d50d87),
    (1, 8, 20, 0x455a14ed),
    (1, 13, 5, 0xa9e3e905),
    (1, 2, 9, 0xfcefa3f8),
    (1, 7, 14, 0x676f02d9),
    (1, 12, 20, 0x8d2a4c8a),
    (2, 5, 4, 0xfffa3942),
    (2, 8, 11, 0x8771f681),
    (2, 11, 16, 0x6d9d6122),
    (2, 14, 23, 0xfde5380c),
    (2, 1, 4, 0xa4beea44),
    (2, 4, 11, 0x4bdecfa9),
    (2, 7, 16, 0xf6bb4b60),
    (2, 10, 23, 0xbebfbc70),
    (2, 13, 4, 0x289b7ec6),
    (2, 0, 11, 0xeaa127fa),
    (2, 3, 16, 0xd4ef3085),
    (2, 6, 23, 0x04881d05),
    (2, 9, 4, 0xd9d4d039),
    (2, 12, 11, 0xe6db99e5),
    (2, 15, 16, 0x1fa27cf8),
    (2, 2, 23, 0xc4ac5665),
    (3, 0, 6, 0xf4292244),
    (3, 7, 10, 0x432aff97),
    (3, 14, 15, 0xab9423a7),
    (3, 5, 21, 0xfc93a039),
    (3, 12, 6, 0x655b59c3),
    (3, 3, 10, 0x8f0ccc92),
    (3, 10, 15, 0xffeff47d),
    (3, 1, 21, 0x85845dd1),
    (3, 8, 6, 0x6fa87e4f),
    (3, 15, 10, 0xfe2ce6e0),
    (3, 6, 15, 0xa3014314),
    (3, 13, 21, 0x4e0811a1),
    (3, 4, 6, 0xf7537e82),
    (3, 11, 10, 0xbd3af235),
    (3, 2, 15, 0x2ad7d2bb),
    (3, 9, 21, 0xeb86d391)]"

lemma rfc_ops_table:
  "map (\<lambda>i. (i div 16, rfc_index i, rfc_shift i, rfc_table ! i)) [0..<64] = rfc_ops"
  by code_simp

lemma rfc_shift_small: "list_all (\<lambda>i. 0 < rfc_shift i \<and> rfc_shift i < 32) [0..<64]"
  by code_simp

lemma run_nil: "(case rfc_run [] X (a, b, c, d) of (a, b, c, d) \<Rightarrow> f a b c d) = f a b c d"
  by simp

lemma transform_ok: "MD5Transform h X = rfc_compress h X"
proof -
  have run: "fold (rfc_step X) [0..<64] s = rfc_run rfc_ops X s" for s
    using rfc_run_fold [of "[0..<64]" X s] rfc_shift_small unfolding rfc_ops_table list_all_iff by simp
  show ?thesis
    unfolding rfc_compress_def MD5Transform_def run rfc_ops_def
    by (simp only: run_let run_nil rfc_f_code Let_def [of "h ! 0"] Let_def [of "h ! 1"]
      Let_def [of "h ! 2"] Let_def [of "h ! 3"])
qed


lemma length_transform [simp]: "length (MD5Transform h X) = 4"
  by (simp add: transform_ok rfc_compress_def split: prod.splits)

section \<open>Bytes and words\<close>

lemma ucast_plus_256: "ucast (b :: u8) + 256 * w = push_bit 8 (w :: u32) OR ucast b"
proof -
  have "256 * w = push_bit 8 w" by (simp add: push_bit_eq_mult)
  moreover have "ucast b + push_bit 8 w = ucast b OR push_bit 8 w"
    by (rule disjunctive_add) (auto simp: bit_simps dest: bit_imp_le_length)
  ultimately show ?thesis by (simp add: or.commute)
qed

lemma rfc_words_Suc:
  "rfc_words bs (Suc n) = foldr (\<lambda>b w. ucast b + 256 * w) (take 4 bs) 0 # rfc_words (drop 4 bs) n"
  unfolding rfc_words_def upt_conv_Cons [OF zero_less_Suc] map_Suc_upt [symmetric]
  by (simp add: add.commute)

lemma byteReverse_ok: "4 * n \<le> length bs \<Longrightarrow> byteReverse bs n = rfc_words bs n"
proof (induction n arbitrary: bs)
  case (Suc n)
  then have "Suc (Suc (Suc (Suc 0))) \<le> length bs" by simp
  then obtain b0 b1 b2 b3 cs where bs: "bs = b0 # b1 # b2 # b3 # cs"
    by (auto simp: Suc_le_length_iff)
  have "byteReverse cs n = rfc_words cs n" using Suc by (simp add: bs)
  then show ?case
    by (simp add: bs rfc_words_Suc ucast_plus_256 push_bit_or or.assoc)
qed (simp add: rfc_words_def)

lemma byteReverse_append:
  "length xs = 4 * n \<Longrightarrow> byteReverse (xs @ ys) (n + m) = byteReverse xs n @ byteReverse ys m"
proof (induction n arbitrary: xs)
  case (Suc n)
  then have "drop 4 (xs @ ys) = drop 4 xs @ ys" "xs \<noteq> []" by auto
  with Suc show ?case by (simp add: nth_append)
qed simp

lemma byteReverse_word: "byteReverse (word_bytes w @ ys) (Suc n) = w # byteReverse ys n"
proof -
  let ?v = "push_bit 16 (push_bit 8 (ucast (ucast (drop_bit 24 w) :: u8)) OR ucast (ucast (drop_bit 16 w) :: u8)) OR
    (push_bit 8 (ucast (ucast (drop_bit 8 w) :: u8)) OR ucast (ucast w :: u8)) :: u32"
  have "?v = w"
  proof (rule bit_word_eqI)
    fix n assume "n < LENGTH(32)"
    consider "n < 8" | "8 \<le> n" "n < 16" | "16 \<le> n" "n < 24" | "24 \<le> n" by linarith
    then show "bit ?v n = bit w n"
      using \<open>n < LENGTH(32)\<close> by cases (auto simp: bit_simps)
  qed
  then show ?thesis by (simp add: word_bytes_def)
qed

lemma low_byte: "k + 8 \<le> 32 \<Longrightarrow> ucast (drop_bit k (of_nat n :: u32)) = (of_nat (n div 2 ^ k) :: u8)"
  by (rule bit_word_eqI) (auto simp: bit_simps drop_bit_eq_div [symmetric])

lemma rfc_length_bytes:
  "map (\<lambda>i. of_nat (n div 256 ^ i)) [0..<8] = word_bytes (of_nat n) @ word_bytes (of_nat (n div 2 ^ 32))"
proof -
  have "[0..<8::nat] = [0, 1, 2, 3, 4, 5, 6, 7]" by code_simp
  moreover have "n div 256 ^ i = n div 2 ^ (8 * i)" for i by (simp add: power_mult)
  moreover have "n div 2 ^ 32 div 2 ^ k = n div 2 ^ (32 + k)" for k
    by (simp only: power_add div_mult2_eq)
  ultimately show ?thesis
    using low_byte [of 0 n] low_byte [of 8 n] low_byte [of 16 n] low_byte [of 24 n]
      low_byte [of 0 "n div 2 ^ 32"] low_byte [of 8 "n div 2 ^ 32"]
      low_byte [of 16 "n div 2 ^ 32"] low_byte [of 24 "n div 2 ^ 32"]
    by (simp only: word_bytes_def list.map append.simps) simp
qed

section \<open>Hashing block by block\<close>

lemma rfc_hash_short: "length bs < 64 \<Longrightarrow> rfc_hash h bs = h"
  by (simp add: rfc_hash.simps)

lemma rfc_words_append: "4 * n \<le> length b \<Longrightarrow> rfc_words (b @ bs) n = rfc_words b n"
  unfolding rfc_words_def by (rule map_cong) (auto simp: Suc_le_eq)

lemma rfc_hash_block:
  "length b = 64 \<Longrightarrow> rfc_hash h (b @ bs) = rfc_hash (rfc_compress h (rfc_words b 16)) bs"
  by (simp add: rfc_hash.simps [of h "b @ bs"] rfc_words_append)

lemma rfc_hash_append:
  "length xs mod 64 = 0 \<Longrightarrow> rfc_hash h (xs @ ys) = rfc_hash (rfc_hash h xs) ys"
proof (induction h xs rule: rfc_hash.induct)
  case (1 h xs)
  show ?case
  proof (cases "length xs < 64")
    case True
    with 1(2) show ?thesis by (simp add: rfc_hash_short)
  next
    case False
    then have "length (drop 64 xs) mod 64 = 0" using 1(2) by (simp add: le_mod_geq)
    from 1(1) [OF False this] have "rfc_hash (rfc_compress h (rfc_words xs 16)) (drop 64 xs @ ys)
      = rfc_hash (rfc_hash h xs) ys" using False by (simp add: rfc_hash.simps [of h xs])
    moreover have "rfc_hash h (xs @ ys) = rfc_hash h (take 64 xs @ drop 64 xs @ ys)"
      by (simp only: append.assoc [symmetric] append_take_drop_id)
    moreover have "rfc_words (take 64 xs) 16 = rfc_words xs 16"
      using rfc_words_append [of 16 "take 64 xs" "drop 64 xs"] False by simp
    ultimately show ?thesis using False by (simp add: rfc_hash_block del: append_assoc)
  qed
qed

lemma rfc_hash_take: "rfc_hash h (take (64 * (length bs div 64)) bs) = rfc_hash h bs"
proof -
  have "rfc_hash h bs = rfc_hash h (take (64 * (length bs div 64)) bs @ drop (64 * (length bs div 64)) bs)"
    by simp
  also have "\<dots> = rfc_hash (rfc_hash h (take (64 * (length bs div 64)) bs)) (drop (64 * (length bs div 64)) bs)"
    by (rule rfc_hash_append) (simp add: min_absorb2)
  also have "\<dots> = rfc_hash h (take (64 * (length bs div 64)) bs)"
    by (rule rfc_hash_short) (simp add: minus_mult_div_eq_mod)
  finally show ?thesis by simp
qed


section \<open>The invariant of the context\<close>

abbreviation md5_start :: "u32 list" where
  "md5_start \<equiv> [0x67452301, 0xefcdab89, 0x98badcfe, 0x10325476]"

definition md5_holds :: "md5_ctx \<Rightarrow> u8 list \<Rightarrow> bool" where
  "md5_holds ctx msg \<longleftrightarrow>
     md_buf ctx = rfc_hash md5_start msg \<and>
     md_bits0 ctx = of_nat (8 * length msg) \<and>
     md_bits1 ctx = of_nat (8 * length msg div 2 ^ 32) \<and>
     length (md_in ctx) = 64 \<and>
     take (length msg mod 64) (md_in ctx) = drop (64 * (length msg div 64)) msg"

lemma length_copy_at [simp]: "p + length bs \<le> length m \<Longrightarrow> length (copy_at m p bs) = length m"
  by (simp add: copy_at_def)

lemma take_copy_at [simp]: "p \<le> length m \<Longrightarrow> take (p + length bs) (copy_at m p bs) = take p m @ bs"
  by (simp add: copy_at_def)

lemma transform_in_block:
  assumes "length (md_in ctx) = 64"
  shows "transform_in ctx = ctx\<lparr>md_buf := rfc_hash (md_buf ctx) (md_in ctx)\<rparr>"
  using assms rfc_hash_block [of "md_in ctx" "md_buf ctx" "[]"]
  by (simp add: transform_in_def byteReverse_ok transform_ok rfc_hash_short)

lemma bits_low: "of_nat (8 * n) + push_bit 3 (of_nat l) = (of_nat (8 * (n + l)) :: u32)"
  by (simp add: push_bit_eq_mult algebra_simps)

lemma unat_of_nat_u32: "unat (of_nat n :: u32) = n mod 2 ^ 32"
  by (simp add: unat_of_nat)

lemma add_carry:
  assumes "x < M" "y < (M :: nat)"
  shows "(x + y) div M = (if (x + y) mod M < x then 1 else 0)"
proof (cases "M \<le> x + y")
  case True
  then show ?thesis using assms by (simp add: le_mod_geq le_div_geq)
qed simp

lemma bits_high:
  assumes "l < 2 ^ 32"
  shows "(if of_nat (8 * (n + l)) < (of_nat (8 * n) :: u32) then of_nat (8 * n div 2 ^ 32) + 1
      else of_nat (8 * n div 2 ^ 32)) + drop_bit 29 (of_nat l) = (of_nat (8 * (n + l) div 2 ^ 32) :: u32)"
proof -
  define M where "M = (2 ^ 32 :: nat)"
  have "0 < M" by (simp add: M_def)
  have "unat (drop_bit 29 (of_nat l :: u32)) = l div 2 ^ 29"
    unfolding unat_drop_bit unat_of_nat_u32 mod_less [OF assms] by (rule refl)
  also have "\<dots> = unat (of_nat (l div 2 ^ 29) :: u32)"
    unfolding unat_of_nat_u32 by (rule mod_less [symmetric], rule le_less_trans [OF div_le_dividend assms])
  also have "l div 2 ^ 29 = 8 * l div M" by (simp add: M_def)
  finally have d: "drop_bit 29 (of_nat l :: u32) = of_nat (8 * l div M)"
    by (simp only: word_unat_eq_iff)
  have s: "8 * (n + l) div M = 8 * n div M + 8 * l div M + (8 * n mod M + 8 * l mod M) div M"
    unfolding distrib_left by (rule div_add1_eq)
  have c: "(of_nat (8 * (n + l)) < (of_nat (8 * n) :: u32)) \<longleftrightarrow> (8 * n mod M + 8 * l mod M) mod M < 8 * n mod M"
    unfolding word_less_nat_alt unat_of_nat_u32 M_def [symmetric] by (simp only: distrib_left mod_add_eq)
  have "(8 * n mod M + 8 * l mod M) div M = (if of_nat (8 * (n + l)) < (of_nat (8 * n) :: u32) then 1 else 0)"
    unfolding c by (rule add_carry) (simp_all only: mod_less_divisor [OF \<open>0 < M\<close>])
  then have s': "8 * (n + l) div M = 8 * n div M + 8 * l div M +
      (if of_nat (8 * (n + l)) < (of_nat (8 * n) :: u32) then 1 else 0)"
    by (simp only: s)
  have carry: "(if P then a + 1 else a) + b = a + b + of_nat (if P then 1 else 0)" for P and a b :: u32
    by simp
  show ?thesis unfolding M_def [symmetric] d s' carry of_nat_add by (rule refl)
qed

lemma update_loop_ok:
  assumes "length (md_in ctx) = 64" and "length buf = unat len"
  shows "md_buf (update_loop ctx buf len) = rfc_hash (md_buf ctx) buf \<and>
    md_bits0 (update_loop ctx buf len) = md_bits0 ctx \<and>
    md_bits1 (update_loop ctx buf len) = md_bits1 ctx \<and>
    length (md_in (update_loop ctx buf len)) = 64 \<and>
    take (length buf mod 64) (md_in (update_loop ctx buf len)) = drop (64 * (length buf div 64)) buf"
  using assms
proof (induction ctx buf len rule: update_loop.induct)
  case (1 ctx buf len)
  show ?case
  proof (cases "64 \<le> len")
    case True
    then have l: "64 \<le> length buf" using 1(3) by (simp add: word_le_nat_alt)
    let ?c = "transform_in (ctx\<lparr>md_in := copy_at (md_in ctx) 0 (take 64 buf)\<rparr>)"
    have in': "copy_at (md_in ctx) 0 (take 64 buf) = take 64 buf"
      using 1(2) l by (simp add: copy_at_def)
    have c: "?c = ctx\<lparr>md_in := take 64 buf, md_buf := rfc_hash (md_buf ctx) (take 64 buf)\<rparr>"
      using transform_in_block [of "ctx\<lparr>md_in := take 64 buf\<rparr>"] l by (simp add: in')
    have len': "length (drop 64 buf) = unat (len - 64)"
      using True 1(3) by (simp add: unat_sub_small word_le_nat_alt)
    have "rfc_hash (rfc_hash (md_buf ctx) (take 64 buf)) (drop 64 buf) = rfc_hash (md_buf ctx) buf"
      using rfc_hash_append [of "take 64 buf" "md_buf ctx" "drop 64 buf"] l by simp
    moreover have "length (drop 64 buf) mod 64 = length buf mod 64"
      "64 * (length (drop 64 buf) div 64) + 64 = 64 * (length buf div 64)"
      using l by (simp_all add: le_mod_geq le_div_geq)
    moreover have "update_loop ctx buf len = update_loop ?c (drop 64 buf) (len - 64)"
      using True by (simp add: update_loop.simps [of ctx buf len])
    ultimately show ?thesis
      using 1(1) [OF True] len' l unfolding c by (simp add: drop_drop)
  next
    case False
    then have "length buf < 64" using 1(3) by (simp add: word_le_nat_alt)
    moreover have "update_loop ctx buf len = ctx\<lparr>md_in := copy_at (md_in ctx) 0 buf\<rparr>"
      using False 1(3) by (simp add: update_loop.simps [of ctx buf len])
    ultimately show ?thesis
      using 1(2) by (simp add: rfc_hash_short) (simp add: copy_at_def)
  qed
qed

lemma block_arith:
  fixes n l :: nat
  shows "l < 64 - n mod 64 \<Longrightarrow> (n + l) div 64 = n div 64 \<and> (n + l) mod 64 = n mod 64 + l"
    and "64 - n mod 64 \<le> l \<Longrightarrow> 64 * ((n + l) div 64) = n + (64 - n mod 64) + 64 * ((l - (64 - n mod 64)) div 64) \<and>
       (n + l) mod 64 = (l - (64 - n mod 64)) mod 64"
    and "n mod 64 = 0 \<Longrightarrow> 64 * ((n + l) div 64) = n + 64 * (l div 64) \<and> (n + l) mod 64 = l mod 64"
proof -
  define q r where "q = n div 64" and "r = n mod 64"
  then have n: "n = r + 64 * q" and r: "r < 64" by simp_all
  have mr: "n mod 64 = r" and dq: "n div 64 = q" by (simp_all add: q_def r_def)
  show "l < 64 - n mod 64 \<Longrightarrow> (n + l) div 64 = n div 64 \<and> (n + l) mod 64 = n mod 64 + l"
  proof -
    assume "l < 64 - n mod 64"
    then have "r + l < 64" using mr by simp
    moreover have e: "n + l = r + l + 64 * q" using n by simp
    ultimately show ?thesis unfolding mr dq e by simp
  qed
  show "64 - n mod 64 \<le> l \<Longrightarrow> 64 * ((n + l) div 64) = n + (64 - n mod 64) + 64 * ((l - (64 - n mod 64)) div 64) \<and>
       (n + l) mod 64 = (l - (64 - n mod 64)) mod 64"
  proof -
    assume l: "64 - n mod 64 \<le> l"
    define m where "m = l - (64 - r)"
    then have "l = 64 - r + m" using l mr by simp
    then have e: "n + l = m + 64 * (q + 1)" using r n by simp
    have "(n + l) div 64 = m div 64 + (q + 1)" "(n + l) mod 64 = m mod 64"
      unfolding e by (simp_all only: mod_mult_self2 div_mult_self2 numeral_eq_iff)
    then show ?thesis unfolding mr m_def [symmetric] using r n by simp
  qed
  show "n mod 64 = 0 \<Longrightarrow> 64 * ((n + l) div 64) = n + 64 * (l div 64) \<and> (n + l) mod 64 = l mod 64"
    unfolding mr by (simp add: n)
qed

lemma count_ok:
  assumes "md5_holds ctx msg"
  shows "unat (drop_bit 3 (md_bits0 ctx) AND 0x3f) = length msg mod 64"
proof -
  let ?n = "length msg"
  have b0: "md_bits0 ctx = of_nat (8 * ?n)" using assms by (simp add: md5_holds_def)
  have m: "(0x3f :: u32) = mask 6" by (simp add: mask_eq_exp_minus_1)
  have "unat (drop_bit 3 (md_bits0 ctx) AND 0x3f) = 8 * ?n mod 2 ^ 32 div 8 mod 64"
    unfolding b0 m unat_and_mask unat_drop_bit unat_of_nat by simp
  also have "8 * ?n mod 2 ^ 32 = 8 * (?n mod 2 ^ 29)"
    using mult_mod_right [of 8 ?n "2 ^ 29"] by simp
  finally show ?thesis by (simp add: mod_mod_cancel)
qed

lemma update_ok:
  assumes inv: "md5_holds ctx msg" and small: "length buf < 2 ^ 32"
  shows "md5_holds (MD5Update ctx buf (of_nat (length buf))) (msg @ buf)"
proof -
  let ?n = "length msg" and ?l = "length buf"
  let ?k = "?n mod 64" and ?full = "take (64 * (?n div 64)) msg" and ?rest = "drop (64 * (?n div 64)) msg"
  let ?len = "of_nat ?l :: u32"
  define c where "c = ctx\<lparr>md_bits0 := of_nat (8 * (?n + ?l)), md_bits1 := of_nat (8 * (?n + ?l) div 2 ^ 32)\<rparr>"
  have len: "unat ?len = ?l" using small by (simp add: unat_of_nat_small)
  have b0: "md_bits0 ctx = of_nat (8 * ?n)" and b1: "md_bits1 ctx = of_nat (8 * ?n div 2 ^ 32)"
    and buf: "md_buf ctx = rfc_hash md5_start msg" and inl: "length (md_in ctx) = 64"
    and rest: "take ?k (md_in ctx) = ?rest"
    using inv by (simp_all add: md5_holds_def)
  define w where "w = drop_bit 3 (md_bits0 ctx) AND 0x3f"
  have w: "unat w = ?k" using count_ok [OF inv] by (simp add: w_def)
  then have w64: "unat (64 - w) = 64 - ?k" by (simp add: unat_sub_small)
  have w0: "w \<noteq> 0 \<longleftrightarrow> ?k \<noteq> 0" using w by (simp add: unat_eq_0 [symmetric] del: unat_eq_0)
  have wlt: "?len < 64 - w \<longleftrightarrow> ?l < 64 - ?k" by (simp add: word_less_nat_alt len w64)
  have rl: "length ?rest = ?k" by (simp add: minus_mult_div_eq_mod)
  have upd: "MD5Update ctx buf ?len =
    (if ?k \<noteq> 0 then
       if ?l < 64 - ?k then c\<lparr>md_in := copy_at (md_in ctx) ?k buf\<rparr>
       else update_loop (transform_in (c\<lparr>md_in := copy_at (md_in ctx) ?k (take (64 - ?k) buf)\<rparr>))
          (drop (64 - ?k) buf) (?len - (64 - w))
     else update_loop c buf ?len)"
    unfolding MD5Update_def Let_def b0 b1 bits_low bits_high [OF small] c_def [symmetric] w_def [symmetric, unfolded b0]
    by (simp add: w0 wlt w w64 len c_def)
  have H: "rfc_hash md5_start (msg @ buf) = rfc_hash (md_buf ctx) (?rest @ buf)"
  proof -
    have "rfc_hash md5_start (?full @ ?rest @ buf) = rfc_hash (rfc_hash md5_start ?full) (?rest @ buf)"
      by (rule rfc_hash_append) (simp add: min_absorb2)
    then show ?thesis by (simp add: buf rfc_hash_take append.assoc [symmetric] del: append_assoc)
  qed
  have bits: "md_bits0 c = of_nat (8 * length (msg @ buf))" "md_bits1 c = of_nat (8 * length (msg @ buf) div 2 ^ 32)"
    "md_buf c = md_buf ctx" "md_in c = md_in ctx" by (simp_all add: c_def)
  consider (partial) "?k \<noteq> 0" "?l < 64 - ?k" | (fill) "?k \<noteq> 0" "64 - ?k \<le> ?l" | (aligned) "?k = 0"
    by linarith
  then show ?thesis
  proof cases
    case partial
    then have "(?n + ?l) div 64 = ?n div 64" "(?n + ?l) mod 64 = ?k + ?l" by (simp_all only: block_arith(1))
    moreover have "take (?k + ?l) (copy_at (md_in ctx) ?k buf) = ?rest @ buf"
      using take_copy_at [of ?k "md_in ctx" buf] partial by (simp add: inl rest)
    moreover have "rfc_hash (md_buf ctx) (?rest @ buf) = md_buf ctx"
      by (rule rfc_hash_short) (use partial rl in simp)
    ultimately show ?thesis
      unfolding md5_holds_def upd using partial bits inl
      by (simp add: H del: of_nat_mult of_nat_add)
  next
    case fill
    define m where "m = ?l - (64 - ?k)"
    let ?blk = "?rest @ take (64 - ?k) buf" and ?tl = "drop (64 - ?k) buf"
    have blk: "copy_at (md_in ctx) ?k (take (64 - ?k) buf) = ?blk" "length ?blk = 64"
      using fill rl inl by (simp_all add: copy_at_def rest)
    have tr: "transform_in (c\<lparr>md_in := ?blk\<rparr>) = c\<lparr>md_in := ?blk, md_buf := rfc_hash (md_buf ctx) ?blk\<rparr>"
      using transform_in_block [of "c\<lparr>md_in := ?blk\<rparr>"] blk bits by simp
    have len': "length ?tl = unat (?len - (64 - w))"
      using fill by (simp add: unat_sub_small len w64)
    have h: "rfc_hash (rfc_hash (md_buf ctx) ?blk) ?tl = rfc_hash (md_buf ctx) (?rest @ buf)"
      using rfc_hash_append [of ?blk "md_buf ctx" ?tl] blk(2) by simp
    note ar = block_arith(2) [OF fill(2)]
    have "length (msg @ buf) mod 64 = m mod 64"
      unfolding length_append m_def by (rule conjunct2 [OF ar])
    moreover have q: "64 * (length (msg @ buf) div 64) = ?n + (64 - ?k + 64 * (m div 64))"
      unfolding length_append m_def add.assoc [symmetric] by (rule conjunct1 [OF ar])
    moreover have "drop (64 * (length (msg @ buf) div 64)) (msg @ buf) = drop (64 * (m div 64)) ?tl"
      unfolding q by (simp add: add.commute)
    moreover define c' where "c' = c\<lparr>md_in := ?blk, md_buf := rfc_hash (md_buf ctx) ?blk\<rparr>"
    have c': "length (md_in c') = 64" "md_buf c' = rfc_hash (md_buf ctx) ?blk"
      "md_bits0 c' = md_bits0 c" "md_bits1 c' = md_bits1 c"
      using blk(2) by (simp_all add: c'_def)
    define r where "r = MD5Update ctx buf ?len"
    have r: "update_loop c' ?tl (?len - (64 - w)) = r"
      using fill unfolding r_def upd blk tr c'_def by simp
    note update_loop_ok [OF c'(1) len', unfolded r length_drop m_def [symmetric] c'(2-4)]
    ultimately show ?thesis
      unfolding md5_holds_def r_def [symmetric] H h bits by (simp only: simp_thms)
  next
    case aligned
    note ar = block_arith(3) [OF aligned]
    have "length (msg @ buf) mod 64 = ?l mod 64"
      unfolding length_append by (rule conjunct2 [OF ar])
    moreover have q: "64 * (length (msg @ buf) div 64) = ?n + 64 * (?l div 64)"
      unfolding length_append by (rule conjunct1 [OF ar])
    moreover have "drop (64 * (length (msg @ buf) div 64)) (msg @ buf) = drop (64 * (?l div 64)) buf"
      unfolding q by simp
    moreover define r where "r = MD5Update ctx buf ?len"
    have r: "update_loop c buf ?len = r" using aligned unfolding r_def upd by simp
    note update_loop_ok [OF inl [folded bits(4)] len [symmetric], unfolded r bits(3)]
    moreover have "?rest @ buf = buf" using aligned rl by simp
    ultimately show ?thesis
      unfolding md5_holds_def r_def [symmetric] H bits by (simp only: simp_thms)
  qed
qed


lemma init_ok: "md5_holds MD5Init []"
  by (simp add: md5_holds_def MD5Init_def rfc_hash_short)

lemma updates_ok:
  "md5_holds ctx msg \<Longrightarrow> list_all (\<lambda>b. length b < 2 ^ 32) bufs \<Longrightarrow>
   md5_holds (foldl (\<lambda>c b. MD5Update c b (of_nat (length b))) ctx bufs) (msg @ concat bufs)"
proof (induction bufs arbitrary: ctx msg)
  case (Cons b bufs)
  then have "md5_holds (MD5Update ctx b (of_nat (length b))) (msg @ b)"
    by (simp add: update_ok)
  from Cons.IH [OF this] Cons.prems(2) show ?case by simp
qed simp

section \<open>The final padding\<close>

definition md5_cleared :: md5_ctx where
  "md5_cleared = \<lparr>md_buf = replicate 4 0, md_bits0 = 0, md_bits1 = 0, md_in = replicate 64 0\<rparr>"

lemma final_block:
  assumes "length xs = 56"
  shows "MD5Transform h (byteReverse (xs @ ys) 14 @ [b0, b1]) = rfc_hash h (xs @ word_bytes b0 @ word_bytes b1)"
proof -
  let ?z = "xs @ word_bytes b0 @ word_bytes b1"
  have l: "length ?z = 64" using assms by (simp add: word_bytes_def)
  have "byteReverse (xs @ ys) (14 + 0) = byteReverse xs 14 @ byteReverse ys 0"
    "byteReverse ?z (14 + Suc (Suc 0)) = byteReverse xs 14 @ byteReverse (word_bytes b0 @ word_bytes b1) (Suc (Suc 0))"
    using assms by (simp_all only: byteReverse_append)
  moreover have "byteReverse (word_bytes b0 @ word_bytes b1) (Suc (Suc 0)) = [b0, b1]"
    unfolding byteReverse_word [of b0 "word_bytes b1" "Suc 0"]
    using byteReverse_word [of b1 "[]" 0] by (simp only: byteReverse.simps append_Nil2)
  moreover have "14 + Suc (Suc 0) = (16 :: nat)" "14 + 0 = (14 :: nat)" by simp_all
  ultimately have "byteReverse (xs @ ys) 14 @ [b0, b1] = byteReverse ?z 16"
    by (simp only: byteReverse.simps append_Nil2)
  then show ?thesis
    using rfc_hash_block [OF l, of h "[]"] l by (simp add: transform_ok byteReverse_ok rfc_hash_short)
qed

lemma final_ok:
  assumes inv: "md5_holds ctx msg"
  shows "MD5Final ctx = (md5 msg, md5_cleared)"
proof -
  let ?n = "length msg"
  let ?k = "?n mod 64" and ?rest = "drop (64 * (?n div 64)) msg"
  let ?tail = "word_bytes (md_bits0 ctx) @ word_bytes (md_bits1 ctx)"
  define w where "w = drop_bit 3 (md_bits0 ctx) AND 0x3f"
  have buf: "md_buf ctx = rfc_hash md5_start msg" and inl: "length (md_in ctx) = 64"
    and rest: "take ?k (md_in ctx) = ?rest"
    using inv by (simp_all add: md5_holds_def)
  have w: "unat w = ?k" using count_ok [OF inv] by (simp add: w_def)
  have k: "?k < 64" by simp
  have rl: "length ?rest = ?k" by (simp add: minus_mult_div_eq_mod)
  have e: "(64 - 1 - w :: u32) = 63 - w" by simp
  have c: "unat (63 - w) = 63 - ?k" using w k by (simp add: unat_sub_small)
  have c8: "63 - w < 8 \<longleftrightarrow> 63 - ?k < 8" unfolding word_less_nat_alt c by simp
  define p where "p = (md_in ctx)[?k := 0x80]"
  have pl: "length p = 64" and pt: "take (?k + 1) p = ?rest @ [0x80]"
    using k inl rest by (simp_all add: p_def take_Suc_conv_app_nth)
  have len: "?tail = map (\<lambda>i. of_nat (8 * ?n div 256 ^ i)) [0..<8]"
    using inv rfc_length_bytes [of "8 * ?n"] by (simp add: md5_holds_def del: of_nat_mult)
  have pad: "rfc_hash md5_start (rfc_pad msg) =
    rfc_hash (md_buf ctx) (?rest @ [0x80] @ replicate ((119 - ?k) mod 64) 0 @ ?tail)"
  proof -
    let ?full = "take (64 * (?n div 64)) msg"
    have "rfc_hash md5_start (?full @ ?rest @ ([0x80] @ replicate ((119 - ?k) mod 64) 0 @ ?tail)) =
      rfc_hash (rfc_hash md5_start ?full) (?rest @ ([0x80] @ replicate ((119 - ?k) mod 64) 0 @ ?tail))"
      by (rule rfc_hash_append) (simp add: min_absorb2)
    then show ?thesis
      unfolding rfc_pad_def len [symmetric] buf rfc_hash_take append.assoc [symmetric] append_take_drop_id .
  qed
  have "fst (MD5Final ctx) = concat (map word_bytes (rfc_hash md5_start (rfc_pad msg)))"
  proof (cases "63 - ?k < 8")
    case True
    define blk k1 where "blk = ?rest @ [0x80] @ replicate (63 - ?k) 0" and "k1 = ?k + 1"
    have blk: "copy_at p k1 (replicate (63 - ?k) 0) = blk" "length blk = 64"
      using pl pt k rl by (simp_all add: copy_at_def blk_def k1_def)
    have tr: "transform_in (ctx\<lparr>md_in := blk\<rparr>) = ctx\<lparr>md_in := blk, md_buf := rfc_hash (md_buf ctx) blk\<rparr>"
      using transform_in_block [of "ctx\<lparr>md_in := blk\<rparr>"] blk by simp
    have z: "copy_at blk 0 (replicate 56 0) = replicate 56 0 @ drop 56 blk" by (simp add: copy_at_def)
    have "(119 - ?k) mod 64 = 63 - ?k + 56" using True k by simp
    then have q: "?rest @ [0x80] @ replicate ((119 - ?k) mod 64) 0 @ ?tail = blk @ (replicate 56 0 @ ?tail)"
      by (simp only: blk_def replicate_add append.assoc)
    have "length blk mod 64 = 0" unfolding blk(2) by simp
    then have "rfc_hash md5_start (rfc_pad msg) = rfc_hash (rfc_hash (md_buf ctx) blk) (replicate 56 0 @ ?tail)"
      unfolding pad q by (rule rfc_hash_append)
    moreover have "fst (MD5Final ctx) = concat (map word_bytes (MD5Transform (rfc_hash (md_buf ctx) blk)
      (byteReverse (replicate 56 0 @ drop 56 blk) 14 @ [md_bits0 ctx, md_bits1 ctx])))"
      unfolding MD5Final_def Let_def w_def [symmetric] w e c c8 p_def [symmetric] k1_def [symmetric] fst_conv
      using True by (simp add: blk(1) tr z del: append.simps append_assoc)
    ultimately show ?thesis by (simp only: final_block length_replicate)
  next
    case False
    define xs k1 where "xs = ?rest @ [0x80] @ replicate (55 - ?k) 0" and "k1 = ?k + 1"
    have "unat (55 - w) = 55 - ?k" using False w by (simp add: unat_sub_small)
    moreover have "(64 - 1 - w - 8 :: u32) = 55 - w" by simp
    ultimately have c': "unat (64 - 1 - w - 8) = 55 - ?k" by simp
    have xs: "length xs = 56" "copy_at p k1 (replicate (55 - ?k) 0) = xs @ drop 56 p"
      using pl pt rl False by (simp_all add: copy_at_def xs_def k1_def)
    have "(119 - ?k) mod 64 = 55 - ?k" using False by (simp add: le_mod_geq)
    then have "rfc_hash md5_start (rfc_pad msg) = rfc_hash (md_buf ctx) (xs @ ?tail)"
      unfolding pad xs_def by (simp only: append.assoc)
    moreover have "fst (MD5Final ctx) = concat (map word_bytes (MD5Transform (md_buf ctx)
      (byteReverse (xs @ drop 56 p) 14 @ [md_bits0 ctx, md_bits1 ctx])))"
      unfolding MD5Final_def Let_def w_def [symmetric] w c' c8 [folded e] p_def [symmetric] k1_def [symmetric] fst_conv
      using False by (simp add: xs(2) del: append.simps append_assoc)
    ultimately show ?thesis by (simp only: final_block xs(1))
  qed
  then show ?thesis by (simp add: MD5Final_def Let_def md5_def md5_cleared_def)
qed


section \<open>Properties\<close>

text \<open>
  C29: the unrolled transform, with its optimised first function and its rotated variable names,
  is the 64-step loop of RFC 1321 for every chaining value and every block.
\<close>
lemma MD5Transform_correct: "MD5Transform h X = rfc_compress h X"
  by (rule transform_ok)

text \<open>
  C28: however a message is cut into pieces (each shorter than 4 GiB, as the code's length argument
  demands), initialising, updating with each piece and finalising gives the MD5 digest of the
  whole message as RFC 1321 defines it, with the length taken modulo 2 to the 64 bits, and leaves
  a context with every field zero.
\<close>
lemma md5_correct:
  assumes "list_all (\<lambda>b. length b < 2 ^ 32) bufs"
  shows "MD5Final (foldl (\<lambda>c b. MD5Update c b (of_nat (length b))) MD5Init bufs) =
    (md5 (concat bufs), \<lparr>md_buf = [0, 0, 0, 0], md_bits0 = 0, md_bits1 = 0, md_in = replicate 64 0\<rparr>)"
  using final_ok [OF updates_ok [OF init_ok assms]] by (simp add: md5_cleared_def numeral_eq_Suc)

lemma md5_abc:
  "fst (MD5Final (MD5Update MD5Init [97, 98, 99] 3)) =
    [0x90, 0x01, 0x50, 0x98, 0x3c, 0xd2, 0x4f, 0xb0, 0xd6, 0x96, 0x3f, 0x7d, 0x28, 0xe1, 0x7f, 0x72]"
  by code_simp

lemma md5_correct_witness:
  "md5 [97, 98, 99] =
    [0x90, 0x01, 0x50, 0x98, 0x3c, 0xd2, 0x4f, 0xb0, 0xd6, 0x96, 0x3f, 0x7d, 0x28, 0xe1, 0x7f, 0x72]"
  using md5_correct [of "[[97, 98, 99]]"] md5_abc by simp

end
