(* ===== verification/Readnum.thy ===== *)
theory Readnum
  imports Crc64
begin

text \<open>
  Numbers from text: \<open>nasm/nasmlib/readnum.c\<close>, which reads the numeric constants of the assembler,
  and \<open>nasm/asm/rdstrnum.c\<close>, which reads a string as an integer.
  A C string is the list of its bytes ended by a zero or by the end of the list, as in \<open>Crc64\<close>;
  the pointers \<open>r\<close> and \<open>q\<close> into it are indices, and \<open>at s i\<close> is the byte at one.
  The character classes are those of the C locale. A \<open>char\<close> is compared as the unsigned byte, which
  for the bytes above 127 gives the result that the signed comparison gives: not a digit.
\<close>

unbundle bit_operations_syntax

section \<open>Characters\<close>

definition at :: "u8 list \<Rightarrow> nat \<Rightarrow> u8" where
  "at s i = cur (drop i s)"

definition nasm_isspace :: "u8 \<Rightarrow> bool" where
  "nasm_isspace c \<longleftrightarrow> c = 32 \<or> 9 \<le> c \<and> c \<le> 13"

definition nasm_isalnum :: "u8 \<Rightarrow> bool" where
  "nasm_isalnum c \<longleftrightarrow> 48 \<le> c \<and> c \<le> 57 \<or> 65 \<le> c \<and> c \<le> 90 \<or> 97 \<le> c \<and> c \<le> 122"

definition lib_isnumchar :: "u8 \<Rightarrow> bool" where
  "lib_isnumchar c \<longleftrightarrow> nasm_isalnum c \<or> c = 36 \<or> c = 95"

definition numvalue :: "u8 \<Rightarrow> int" where
  "numvalue c = (if 97 \<le> c then uint c - 97 + 10 else if 65 \<le> c then uint c - 65 + 10 else uint c - 48)"

definition radix_letter :: "u8 \<Rightarrow> int" where
  "radix_letter c =
    (if c \<in> {98, 66, 121, 89} then 2
     else if c \<in> {111, 79, 113, 81} then 8
     else if c \<in> {104, 72, 120, 88} then 16
     else if c \<in> {100, 68, 116, 84} then 10
     else 0)"

section \<open>readnum\<close>

text \<open>The loops \<open>while (p (*r)) r++\<close> stop at the zero byte at the latest.\<close>

function skip_while :: "(u8 \<Rightarrow> bool) \<Rightarrow> u8 list \<Rightarrow> nat \<Rightarrow> nat" where
  "skip_while p s i = (if at s i \<noteq> 0 \<and> p (at s i) then skip_while p s (i + 1) else i)"
  by pat_completeness auto
termination
proof (relation "measure (\<lambda>(p, s, i). length s - i)", simp)
  fix p s i assume "at s i \<noteq> 0 \<and> p (at s i)"
  then have "i < length s" by (auto simp: at_def cur_def intro: ccontr)
  then show "((p, s, i + 1), p, s, i) \<in> measure (\<lambda>(p, s, i). length s - i)" by simp
qed

declare skip_while.simps [simp del]

datatype digits = Bad_digit | Digits u64 bool

function digit_loop :: "u8 list \<Rightarrow> nat \<Rightarrow> nat \<Rightarrow> int \<Rightarrow> u64 \<Rightarrow> int \<Rightarrow> u64 \<Rightarrow> bool \<Rightarrow> digits" where
  "digit_loop s r q radix checklimit lst result warn =
    (if at s r \<noteq> 0 \<and> r < q then
       if at s r \<noteq> 95 then
         let c = at s r; digit = numvalue c
         in if c < 48 \<or> (57 < c \<and> c < 65) \<or> radix \<le> digit then Bad_digit
            else digit_loop s (r + 1) q radix checklimit lst (of_int radix * result + of_int digit)
              (if checklimit < result \<or> result = checklimit \<and> lst \<le> digit then True else warn)
       else digit_loop s (r + 1) q radix checklimit lst result warn
     else Digits result warn)"
  by pat_completeness auto
termination
  by (relation "measure (\<lambda>(s, r, q, radix, checklimit, lst, result, warn). q - r)") auto

declare digit_loop.simps [simp del]

text \<open>The result is the value, the error flag, and whether the warning of overflow is given.\<close>

record readnum_result =
  rn_value :: u64
  rn_error :: bool
  rn_warn :: bool

definition readnum :: "u8 list \<Rightarrow> readnum_result" where
  "readnum str =
    (let r = skip_while nasm_isspace str 0;
         sign = (if at str r = 45 then -1 else 1 :: u64);
         r = (if at str r = 45 then r + 1 else r);
         q = skip_while lib_isnumchar str r;
         len = q - r
     in if len = 0 then \<lparr>rn_value = 0, rn_error = True, rn_warn = False\<rparr>
        else
          let (pradix, plen) =
                (let p = radix_letter (at str (r + 1))
                 in if 2 < len \<and> at str r = 48 \<and> p \<noteq> 0 then (p, 2)
                    else if 1 < len \<and> at str r = 36 then (16, 1)
                    else (0, 0));
              (sradix, slen) =
                (if 1 < len then
                   let p = radix_letter (at str (q - 1)) in (p, if p \<noteq> 0 then 1 else 0)
                 else (0, 0));
              (radix, r, q) =
                (if sradix < pradix then (pradix, r + plen, q)
                 else if pradix < sradix then (sradix, r, q - slen)
                 else (10, r, q));
              checklimit = 0x8000000000000000 div of_int (radix div 2);
              lst = (if radix = 10 then 6 else 0)
          in case digit_loop str r q radix checklimit lst 0 False of
               Bad_digit \<Rightarrow> \<lparr>rn_value = 0, rn_error = True, rn_warn = False\<rparr>
             | Digits result warn \<Rightarrow> \<lparr>rn_value = result * sign, rn_error = False, rn_warn = warn\<rparr>)"

section \<open>readstrnum\<close>

function strnum_loop :: "u64 \<Rightarrow> u8 list \<Rightarrow> nat \<Rightarrow> nat \<Rightarrow> nat \<Rightarrow> u64 \<Rightarrow> bool \<Rightarrow> u64 \<times> bool" where
  "strnum_loop msk str p i len charconst warn =
    (if i < len then
       let warn = (if charconst AND msk \<noteq> 0 then True else warn);
           p = p - 1
       in strnum_loop msk str p (i + 1) len (push_bit 8 charconst + ucast (str ! p)) warn
     else (charconst, warn))"
  by pat_completeness auto
termination by (relation "measure (\<lambda>(msk, str, p, i, len, charconst, warn). len - i)") auto

declare strnum_loop.simps [simp del]

definition readstrnum :: "u32 \<Rightarrow> u8 list \<Rightarrow> nat \<Rightarrow> u64 \<times> bool" where
  "readstrnum globalbits str len =
    (if globalbits = 64 then strnum_loop 0xFF00000000000000 str len 0 len 0 False
     else strnum_loop 0xFF000000 str len 0 len 0 False)"

section \<open>Reference\<close>

definition digit_value :: "u8 \<Rightarrow> nat option" where
  "digit_value c =
    (if 48 \<le> c \<and> c \<le> 57 then Some (unat c - 48)
     else if 65 \<le> c \<and> c \<le> 90 then Some (unat c - 55)
     else if 97 \<le> c \<and> c \<le> 122 then Some (unat c - 87)
     else None)"

fun horner :: "nat \<Rightarrow> u8 list \<Rightarrow> nat \<Rightarrow> nat option" where
  "horner radix [] v = Some v"
| "horner radix (c # cs) v =
    (if c = 95 then horner radix cs v
     else case digit_value c of
       None \<Rightarrow> None
     | Some d \<Rightarrow> if d < radix then horner radix cs (radix * v + d) else None)"

definition word_spec :: "bool \<Rightarrow> u8 list \<Rightarrow> readnum_result" where
  "word_spec neg w =
    (let pradix = (if 2 < length w \<and> w ! 0 = 48 \<and> radix_letter (w ! 1) \<noteq> 0 then radix_letter (w ! 1)
                   else if 1 < length w \<and> w ! 0 = 36 then 16 else 0);
         sradix = (if 1 < length w then radix_letter (last w) else 0);
         (radix, body) =
           (if sradix < pradix then (pradix, drop (if w ! 0 = 36 then 1 else 2) w)
            else if pradix < sradix then (sradix, butlast w)
            else (10, w))
     in if w = [] then \<lparr>rn_value = 0, rn_error = True, rn_warn = False\<rparr>
        else case horner (nat radix) body 0 of
          None \<Rightarrow> \<lparr>rn_value = 0, rn_error = True, rn_warn = False\<rparr>
        | Some v \<Rightarrow> \<lparr>rn_value = (if neg then - of_nat v else of_nat v), rn_error = False, rn_warn = 2 ^ 64 \<le> v\<rparr>)"

definition readnum_spec :: "u8 list \<Rightarrow> readnum_result" where
  "readnum_spec str =
    (let t = dropWhile nasm_isspace (cstr str);
         neg = (t \<noteq> [] \<and> hd t = 45);
         w = takeWhile lib_isnumchar (if neg then tl t else t)
     in word_spec neg w)"

section \<open>The loops\<close>

lemma at_cstr: "at s i = cur (cstr (drop i s))"
  by (cases "drop i s") (auto simp: at_def cur_def cstr_Cons)

lemma cstr_step: "at s i \<noteq> 0 \<Longrightarrow> cstr (drop i s) = at s i # cstr (drop (i + 1) s)"
  using cur_cstr(2) [of "drop i s"] by (simp add: at_def drop_Suc tl_drop [symmetric] drop_tl)

lemma at_zero: "at s i = 0 \<longleftrightarrow> cstr (drop i s) = []"
  by (simp add: at_def cur_cstr(1))

lemma cstr_cons: "cstr (drop i s) = c # r \<Longrightarrow> at s i = c \<and> c \<noteq> 0 \<and> cstr (drop (i + 1) s) = r"
  using at_zero [of s i] cstr_step [of s i] by auto

lemma cstr_suffix: "cstr (drop i s) = w @ r \<Longrightarrow> cstr (drop (i + length w) s) = r"
proof (induction w arbitrary: i)
  case (Cons c w)
  then show ?case using cstr_cons [of i s c "w @ r"] Cons.IH [of "i + 1"] by simp
qed simp

lemma at_nth: "cstr (drop i s) = w @ r \<Longrightarrow> k < length w \<Longrightarrow> at s (i + k) = w ! k"
  using cstr_suffix [of i s "take k w" "drop k w @ r"] cstr_cons [of "i + k" s "w ! k" "drop (k + 1) w @ r"]
  by (simp add: Cons_nth_drop_Suc append.assoc [symmetric] del: append_assoc)

lemma skip_while_ok: "skip_while p s i = i + length (takeWhile p (cstr (drop i s)))"
proof (induction p s i rule: skip_while.induct)
  case (1 p s i)
  then show ?case
    using at_zero [of s i] cstr_step [of s i] by (cases "at s i = 0") (simp_all add: skip_while.simps [of p s i])
qed

lemma numvalue_digit:
  assumes "c \<noteq> 95" "radix \<le> 16"
  shows "(c < 48 \<or> (57 < c \<and> c < 65) \<or> int radix \<le> numvalue c) \<longleftrightarrow>
     (case digit_value c of None \<Rightarrow> True | Some d \<Rightarrow> radix \<le> d)"
    and "digit_value c = Some d \<Longrightarrow> numvalue c = int d"
proof -
  define x where "x = unat c"
  have u: "uint c = int x" by (simp add: x_def)
  have "x \<noteq> 95" using assms(1) by (simp add: x_def word_unat_eq_iff)
  then show "(c < 48 \<or> (57 < c \<and> c < 65) \<or> int radix \<le> numvalue c) \<longleftrightarrow>
     (case digit_value c of None \<Rightarrow> True | Some d \<Rightarrow> radix \<le> d)"
    and "digit_value c = Some d \<Longrightarrow> numvalue c = int d"
    using assms(2) unfolding digit_value_def numvalue_def word_le_nat_alt word_less_nat_alt u x_def [symmetric]
    by (auto split: if_splits)
qed

lemma limit_step:
  fixes v d radix cl lst M :: nat
  assumes "M = radix * cl + lst" "lst < radix" "d < radix"
  shows "cl < v \<or> v = cl \<and> lst \<le> d \<longleftrightarrow> M \<le> radix * v + d"
proof -
  consider "v < cl" | "v = cl" | "cl < v" by linarith
  then show ?thesis
  proof cases
    case 1
    then have "radix * (v + 1) \<le> radix * cl" by (intro mult_le_mono2) simp
    then show ?thesis using assms 1 by (simp add: algebra_simps)
  next
    case 2
    then show ?thesis using assms by simp
  next
    case 3
    then have "radix * (cl + 1) \<le> radix * v" by (intro mult_le_mono2) simp
    then show ?thesis using assms 3 by (simp add: algebra_simps)
  qed
qed


lemma digit_loop_ok:
  assumes radix: "2 ^ 64 = radix * cl + lst" "lst < radix" "radix \<le> 16" "2 \<le> radix"
  shows "cstr (drop r s) = w @ rest \<Longrightarrow> q = r + length w \<Longrightarrow> warn = (2 ^ 64 \<le> v) \<Longrightarrow>
    digit_loop s r q (int radix) (of_nat cl) (int lst) (of_nat v) warn =
    (case horner radix w v of None \<Rightarrow> Bad_digit | Some v' \<Rightarrow> Digits (of_nat v') (2 ^ 64 \<le> v'))"
proof (induction w arbitrary: r v warn)
  case Nil
  then show ?case by (simp add: digit_loop.simps)
next
  case (Cons c w)
  have c: "at s r = c" "c \<noteq> 0" and w: "cstr (drop (r + 1) s) = w @ rest" "q = (r + 1) + length w"
    using cstr_cons [of r s c "w @ rest"] Cons.prems by simp_all
  show ?case
  proof (cases "c = 95")
    case True
    then show ?thesis
      using c w Cons.IH [OF w Cons.prems(3)] by (subst digit_loop.simps) simp
  next
    case False
    note nv = numvalue_digit [OF False radix(3)]
    show ?thesis
    proof (cases "c < 48 \<or> (57 < c \<and> c < 65) \<or> int radix \<le> numvalue c")
      case True
      then have "horner radix (c # w) v = None" using nv(1) False by (auto split: option.splits)
      then show ?thesis using True False c w by (subst digit_loop.simps) (simp add: Let_def)
    next
      case ok: False
      then obtain d where d: "digit_value c = Some d" "d < radix" using nv(1) by (auto split: option.splits)
      have val: "of_int (int radix) * of_nat v + of_int (numvalue c) = (of_nat (radix * v + d) :: u64)"
        using nv(2) [OF d(1)] by simp
      have "1 \<le> radix" using d(2) by simp
      then have grow: "v \<le> radix * v + d" using mult_le_mono1 [of 1 radix v] by linarith
      have cl: "cl < 2 ^ 64" 
      proof -
        have "2 * cl \<le> radix * cl" by (rule mult_le_mono1 [OF radix(4)])
        then have "2 * cl \<le> 2 ^ 64" unfolding radix(1) by (rule trans_le_add1)
        then show ?thesis by simp
      qed
      have lim: "(if of_nat cl < (of_nat v :: u64) \<or> of_nat v = (of_nat cl :: u64) \<and> int lst \<le> numvalue c then True else warn)
        = (2 ^ 64 \<le> radix * v + d)"
      proof (cases "2 ^ 64 \<le> v")
        case True
        then show ?thesis using grow Cons.prems(3) by simp
      next
        case small: False
        then have "(of_nat cl < (of_nat v :: u64)) = (cl < v)" "(of_nat v = (of_nat cl :: u64)) = (v = cl)"
          using cl by (simp_all only: word_less_nat_alt word_unat_eq_iff unat_of_nat) simp_all
        then show ?thesis
          using limit_step [OF radix(1,2) d(2), of v] nv(2) [OF d(1)] Cons.prems(3) small by simp
      qed
      have nb: "(c < 48 \<or> (57 < c \<and> c < 65) \<or> int radix \<le> numvalue c) = False" using ok by blast
      have lt: "(r < r + 1 + length w) = True" by simp
      have "digit_loop s r q (int radix) (of_nat cl) (int lst) (of_nat v) warn =
        digit_loop s (r + 1) q (int radix) (of_nat cl) (int lst) (of_nat (radix * v + d)) (2 ^ 64 \<le> radix * v + d)"
        unfolding val [symmetric] lim [symmetric]
        by (subst digit_loop.simps) (simp only: c w if_False if_True nb Let_def not_False_eq_True simp_thms False lt)
      also have "\<dots> = (case horner radix w (radix * v + d) of None \<Rightarrow> Bad_digit | Some v' \<Rightarrow> Digits (of_nat v') (2 ^ 64 \<le> v'))"
        by (rule Cons.IH [OF w]) simp
      finally show ?thesis using False d by simp
    qed
  qed
qed


section \<open>Reading a number\<close>

lemma radix_letter_cases: "radix_letter c \<in> {0, 2, 8, 10, 16}"
  by (auto simp: radix_letter_def)

lemma digit_loop_radix:
  assumes "radix \<in> {2, 8, 10, 16}" "cstr (drop r s) = w @ rest" "q = r + length w"
  shows "digit_loop s r q radix (0x8000000000000000 div of_int (radix div 2)) (if radix = 10 then 6 else 0) 0 False =
    (case horner (nat radix) w 0 of None \<Rightarrow> Bad_digit | Some v \<Rightarrow> Digits (of_nat v) (2 ^ 64 \<le> v))"
proof -
  let ?l = "if radix = 10 then 6 else 0 :: nat"
  define cl where "cl = 2 ^ 64 div nat radix"
  have "0x8000000000000000 div of_int (radix div 2) = (of_nat cl :: u64)"
    using assms(1) by (auto simp: cl_def)
  moreover have "2 ^ 64 = nat radix * cl + ?l" "?l < nat radix" "nat radix \<le> 16" "2 \<le> nat radix"
    using assms(1) by (auto simp: cl_def)
  note digit_loop_ok [OF this assms(2,3), of False 0]
  ultimately show ?thesis using assms(1) by (simp split: if_splits)
qed

lemma readnum_ok: "readnum str = readnum_spec str"
proof -
  define t where "t = dropWhile nasm_isspace (cstr str)"
  define r where "r = skip_while nasm_isspace str 0"
  have ct: "cstr (drop r str) = t"
    using cstr_suffix [of 0 str "takeWhile nasm_isspace (cstr str)" t] skip_while_ok [of nasm_isspace str 0]
    by (simp add: r_def t_def)
  define neg where "neg \<longleftrightarrow> at str r = 45"
  have neg: "neg \<longleftrightarrow> t \<noteq> [] \<and> hd t = 45"
    using at_zero [of str r] cstr_step [of str r] ct by (auto simp: neg_def)
  define r' where "r' = (if neg then r + 1 else r)"
  define t' where "t' = (if neg then tl t else t)"
  have ct': "cstr (drop r' str) = t'"
    using ct neg cstr_cons [of r str "hd t" "tl t"] by (cases t) (simp_all add: r'_def t'_def)
  define w rest where "w = takeWhile lib_isnumchar t'" and "rest = dropWhile lib_isnumchar t'"
  define q where "q = skip_while lib_isnumchar str r'"
  have q: "q = r' + length w" using skip_while_ok [of lib_isnumchar str r'] by (simp add: q_def ct' w_def)
  have cw: "cstr (drop r' str) = w @ rest" by (simp add: ct' w_def rest_def)
  note nth = at_nth [OF cw]
  have spec: "readnum_spec str = word_spec neg w"
    by (simp add: readnum_spec_def Let_def t_def [symmetric] neg w_def t'_def)
  show ?thesis
  proof (cases "w = []")
    case True
    then show ?thesis unfolding spec readnum_def Let_def r_def [symmetric] neg_def [symmetric] r'_def [symmetric] q_def [symmetric]
      by (simp add: q word_spec_def)
  next
    case False
    have a0: "at str r' = w ! 0" using nth [of 0] False by simp
    have a1: "1 < length w \<Longrightarrow> at str (r' + 1) = w ! 1" using nth [of 1] by simp
    have q1: "q - 1 = r' + (length w - 1)" using False by (cases w) (simp_all add: q)
    then have al: "at str (q - 1) = last w" using nth [of "length w - 1"] False by (simp add: last_conv_nth)
    define pr where "pr = (if 2 < length w \<and> w ! 0 = 48 \<and> radix_letter (w ! 1) \<noteq> 0 then radix_letter (w ! 1)
      else if 1 < length w \<and> w ! 0 = 36 then 16 else 0)"
    define pl where "pl = (if pr = 0 then 0 else if w ! 0 = 36 then 1 else 2 :: nat)"
    define sr where "sr = (if 1 < length w then radix_letter (last w) else 0)"
    define sl where "sl = (if sr = 0 then 0 else 1 :: nat)"
    have P: "(let p = radix_letter (at str (r' + 1))
        in if 2 < length w \<and> at str r' = 48 \<and> p \<noteq> 0 then (p, 2)
           else if 1 < length w \<and> at str r' = 36 then (16, 1) else (0, 0)) = (pr, pl)"
      using a1 by (auto simp: pr_def pl_def a0 Let_def)
    have S: "(if 1 < length w then let p = radix_letter (at str (q - 1)) in (p, if p \<noteq> 0 then 1 else 0) else (0, 0)) = (sr, sl)"
      unfolding al Let_def by (simp add: sr_def sl_def)
    have prs: "pr \<in> {0, 2, 8, 10, 16}" "sr \<in> {0, 2, 8, 10, 16}"
      using radix_letter_cases [of "w ! 1"] radix_letter_cases [of "last w"] by (auto simp: pr_def sr_def)
    have pl: "pl \<le> length w" by (auto simp: pl_def pr_def split: if_splits)
    define radix body r2 q2 where "radix = (if sr < pr then pr else if pr < sr then sr else 10)"
      and "body = (if sr < pr then drop pl w else if pr < sr then butlast w else w)"
      and "r2 = (if sr < pr then r' + pl else r')" and "q2 = (if sr < pr then q else if pr < sr then q - sl else q)"
    have R: "(if sr < pr then (pr, r' + pl, q) else if pr < sr then (sr, r', q - sl) else (10, r', q)) = (radix, r2, q2)"
      by (simp add: radix_def r2_def q2_def)
    have rad: "radix \<in> {2, 8, 10, 16}" using prs by (auto simp: radix_def)
    have "\<exists>rest'. cstr (drop r2 str) = body @ rest' \<and> q2 = r2 + length body"
    proof -
      have "w = take pl w @ drop pl w" "length (take pl w) = pl" using pl by simp_all
      then have 1: "cstr (drop (r' + pl) str) = drop pl w @ rest"
        using cstr_suffix [of r' str "take pl w" "drop pl w @ rest"] cw by (metis append.assoc)
      have 2: "cstr (drop r' str) = butlast w @ last w # rest" using False cw by simp
      have 3: "pr < sr \<Longrightarrow> sl = 1" using prs by (auto simp: sl_def)
      consider (pre) "sr < pr" | (suf) "pr < sr" | (dec) "pr = sr" by linarith
      then show ?thesis
      proof cases
        case pre
        then show ?thesis unfolding body_def r2_def q2_def using 1 q pl by (intro exI [of _ rest]) simp
      next
        case suf
        then have "q - sl = r' + length (butlast w)" using q1 3 by simp
        then show ?thesis unfolding body_def r2_def q2_def using suf 2 by (intro exI [of _ "last w # rest"]) simp
      next
        case dec
        then show ?thesis unfolding body_def r2_def q2_def using cw q by (intro exI [of _ rest]) simp
      qed
    qed
    then obtain rest' where body: "cstr (drop r2 str) = body @ rest'" "q2 = r2 + length body" by blast
    have len: "q - r' = length w" by (simp add: q)
    have "readnum str = (case horner (nat radix) body 0 of None \<Rightarrow> \<lparr>rn_value = 0, rn_error = True, rn_warn = False\<rparr>
       | Some v \<Rightarrow> \<lparr>rn_value = of_nat v * (if neg then -1 else 1), rn_error = False, rn_warn = 2 ^ 64 \<le> v\<rparr>)"
      unfolding readnum_def Let_def r_def [symmetric] neg_def [symmetric] r'_def [symmetric] q_def [symmetric] len
        P [unfolded Let_def] S [unfolded Let_def] prod.case R
      using False digit_loop_radix [OF rad body] by (simp split: option.splits)
    moreover have "word_spec neg w = (case horner (nat radix) body 0 of None \<Rightarrow> \<lparr>rn_value = 0, rn_error = True, rn_warn = False\<rparr>
       | Some v \<Rightarrow> \<lparr>rn_value = (if neg then - of_nat v else of_nat v), rn_error = False, rn_warn = 2 ^ 64 \<le> v\<rparr>)"
    proof -
      have "sr < pr \<Longrightarrow> pl = (if w ! 0 = 36 then 1 else 2)" using prs by (auto simp: pl_def)
      then show ?thesis
        unfolding word_spec_def Let_def pr_def [symmetric] sr_def [symmetric] using False
        by (simp add: radix_def body_def split: option.splits)
    qed
    ultimately show ?thesis unfolding spec by (simp split: option.splits)
  qed
qed

section \<open>Writing numbers\<close>

definition digit_char :: "nat \<Rightarrow> u8" where
  "digit_char d = (if d < 10 then of_nat (48 + d) else of_nat (87 + d))"

fun print_number :: "nat \<Rightarrow> nat \<Rightarrow> u8 list" where
  "print_number radix n =
    (if radix < 2 \<or> n < radix then [digit_char n]
     else print_number radix (n div radix) @ [digit_char (n mod radix)])"

declare print_number.simps [simp del]

lemma digit_char_ok:
  assumes "d < 16"
  shows "digit_value (digit_char d) = Some d" "digit_char d \<noteq> 95" "lib_isnumchar (digit_char d)" "digit_char d \<noteq> 0"
    "radix_letter (digit_char d) < 16" "d < 10 \<Longrightarrow> radix_letter (digit_char d) = 0" "digit_char d \<noteq> 36" "\<not> nasm_isspace (digit_char d)"
    "digit_char d \<noteq> 45" "digit_char d = 48 \<longleftrightarrow> d = 0"
proof -
  have "list_all (\<lambda>d. digit_value (digit_char d) = Some d \<and> digit_char d \<noteq> 95 \<and> lib_isnumchar (digit_char d) \<and>
    digit_char d \<noteq> 0 \<and> radix_letter (digit_char d) < 16 \<and> (d < 10 \<longrightarrow> radix_letter (digit_char d) = 0) \<and>
    digit_char d \<noteq> 36 \<and> \<not> nasm_isspace (digit_char d) \<and> digit_char d \<noteq> 45 \<and> (digit_char d = 48 \<longleftrightarrow> d = 0)) [0..<16]"
    by code_simp
  then have "\<forall>d<16. digit_value (digit_char d) = Some d \<and> digit_char d \<noteq> 95 \<and> lib_isnumchar (digit_char d) \<and>
    digit_char d \<noteq> 0 \<and> radix_letter (digit_char d) < 16 \<and> (d < 10 \<longrightarrow> radix_letter (digit_char d) = 0) \<and>
    digit_char d \<noteq> 36 \<and> \<not> nasm_isspace (digit_char d) \<and> digit_char d \<noteq> 45 \<and> (digit_char d = 48 \<longleftrightarrow> d = 0)"
    unfolding list_all_iff by simp
  then show "digit_value (digit_char d) = Some d" "digit_char d \<noteq> 95" "lib_isnumchar (digit_char d)" "digit_char d \<noteq> 0"
    "radix_letter (digit_char d) < 16" "d < 10 \<Longrightarrow> radix_letter (digit_char d) = 0" "digit_char d \<noteq> 36" "\<not> nasm_isspace (digit_char d)"
    "digit_char d \<noteq> 45" "digit_char d = 48 \<longleftrightarrow> d = 0"
    using assms by blast+
qed

lemma horner_append: "horner radix (xs @ ys) v = Option.bind (horner radix xs v) (horner radix ys)"
  by (induction xs arbitrary: v) (auto split: option.splits)

lemma print_number_ok:
  assumes "2 \<le> radix" "radix \<le> 16"
  shows "horner radix (print_number radix n) 0 = Some n \<and>
    (\<forall>c \<in> set (print_number radix n). \<exists>d < radix. c = digit_char d) \<and> print_number radix n \<noteq> []"
  using assms
proof (induction radix n rule: print_number.induct)
  case (1 radix n)
  show ?case
  proof (cases "n < radix")
    case True
    then show ?thesis using 1(2,3) digit_char_ok [of n] by (auto simp: print_number.simps [of radix n])
  next
    case False
    have m: "n mod radix < radix" using 1(2) by simp
    then have "n mod radix < 16" using 1(3) by simp
    note d = digit_char_ok(1,2) [OF this]
    have "print_number radix n = print_number radix (n div radix) @ [digit_char (n mod radix)]"
      using False 1(2) by (simp add: print_number.simps [of radix n])
    moreover have "\<exists>d<radix. digit_char (n mod radix) = digit_char d" using m by blast
    moreover have "\<not> (radix < 2 \<or> n < radix)" using False 1(2) by simp
    ultimately show ?thesis
      using 1(1) [OF _ 1(2,3)] m d by (auto simp: horner_append)
  qed
qed

lemma numchar_other: "lib_isnumchar c \<Longrightarrow> c \<noteq> 0 \<and> \<not> nasm_isspace c \<and> c \<noteq> 45"
proof -
  assume "lib_isnumchar c"
  then have "48 \<le> unat c \<or> unat c = 36"
    by (auto simp: lib_isnumchar_def nasm_isalnum_def word_le_nat_alt)
  then show ?thesis by (auto simp: nasm_isspace_def word_le_nat_alt)
qed

lemma cstr_digits: "\<forall>c \<in> set w. lib_isnumchar c \<Longrightarrow> cstr w = w \<and> takeWhile lib_isnumchar w = w"
proof -
  assume w: "\<forall>c \<in> set w. lib_isnumchar c"
  then have "\<forall>c \<in> set w. c \<noteq> 0" using numchar_other by blast
  then show ?thesis using w by (auto simp: cstr_def takeWhile_eq_all_conv)
qed

lemma readnum_word:
  assumes "\<forall>c \<in> set w. lib_isnumchar c" "w \<noteq> []"
  shows "readnum w = word_spec False w"
proof -
  have "\<not> nasm_isspace (hd w)" "hd w \<noteq> 45"
    using assms hd_in_set [of w] numchar_other by blast+
  then have "dropWhile nasm_isspace w = w" using assms(2) by (cases w) auto
  moreover have "cstr w = w" "takeWhile lib_isnumchar w = w" using cstr_digits [OF assms(1)] by blast+
  ultimately show ?thesis
    using \<open>hd w \<noteq> 45\<close> unfolding readnum_ok readnum_spec_def by (simp only: Let_def if_False simp_thms)
qed

lemma read_decimal: "readnum (print_number 10 n) = \<lparr>rn_value = of_nat n, rn_error = False, rn_warn = 2 ^ 64 \<le> n\<rparr>"
proof -
  let ?w = "print_number 10 n"
  have p: "horner 10 ?w 0 = Some n" "\<forall>c \<in> set ?w. \<exists>d < 10. c = digit_char d" "?w \<noteq> []"
    using print_number_ok [of 10 n] by simp_all
  have c: "lib_isnumchar c \<and> radix_letter c = 0 \<and> c \<noteq> 36" if "c \<in> set ?w" for c
    using p(2) that digit_char_ok by force
  then have "readnum ?w = word_spec False ?w" using p(3) by (intro readnum_word) auto
  moreover have "radix_letter (last ?w) = 0" "?w ! 0 \<noteq> 36" "2 < length ?w \<Longrightarrow> radix_letter (?w ! 1) = 0"
    using c [OF last_in_set [OF p(3)]] c [OF nth_mem, of 0] c [OF nth_mem, of 1] p(3) by auto
  ultimately show ?thesis using p by (simp add: word_spec_def Let_def)
qed

lemma read_hex: "readnum ([48, 120] @ print_number 16 n) = \<lparr>rn_value = of_nat n, rn_error = False, rn_warn = 2 ^ 64 \<le> n\<rparr>"
proof -
  let ?w = "print_number 16 n"
  have p: "horner 16 ?w 0 = Some n" "\<forall>c \<in> set ?w. \<exists>d < 16. c = digit_char d" "?w \<noteq> []"
    using print_number_ok [of 16 n] by simp_all
  have c: "lib_isnumchar c \<and> radix_letter c < 16" if "c \<in> set ?w" for c
    using p(2) that digit_char_ok by force
  have x: "lib_isnumchar 48" "lib_isnumchar 120" "radix_letter 120 = 16"
    by (simp_all add: lib_isnumchar_def nasm_isalnum_def radix_letter_def)
  then have "readnum ([48, 120] @ ?w) = word_spec False ([48, 120] @ ?w)" using c by (intro readnum_word) auto
  moreover have "radix_letter (last ([48, 120] @ ?w)) < 16" using c [OF last_in_set [OF p(3)]] p(3) by simp
  ultimately show ?thesis using p x by (simp add: word_spec_def Let_def)
qed

section \<open>Strings as integers\<close>

definition le_value :: "u8 list \<Rightarrow> nat" where
  "le_value bs = foldr (\<lambda>b v. unat b + 256 * v) bs 0"

lemma top_byte:
  fixes c :: u64
  assumes "W \<le> 64" "8 \<le> W" "v < 2 ^ W"
  shows "(of_nat v :: u64) AND push_bit (W - 8) 0xFF = 0 \<longleftrightarrow> v < 2 ^ (W - 8)"
proof -
  define ff where "ff = (0xFF :: u64)"
  have b: "bit ff n \<longleftrightarrow> n < 8" for n
  proof -
    have m: "(0xFF :: u64) = mask 8" by (simp add: mask_eq_exp_minus_1)
    show ?thesis unfolding ff_def m bit_mask_iff by auto
  qed
  have hi: "\<not> bit v n" if "W \<le> n" for n
    using assms(3) that bit_take_bit_iff [of W v n] by (auto simp: take_bit_nat_eq_self)
  have "(of_nat v :: u64) AND push_bit (W - 8) ff = 0 \<longleftrightarrow> (\<forall>n. W - 8 \<le> n \<and> n < W \<longrightarrow> \<not> bit v n)"
  proof -
    let ?x = "(of_nat v :: u64) AND push_bit (W - 8) ff"
    have x: "bit ?x n \<longleftrightarrow> W - 8 \<le> n \<and> n < W \<and> bit v n" if "n < 64" for n
      using assms(1,2) that by (auto simp: bit_simps b)
    show ?thesis
    proof (intro iffI allI impI)
      fix n assume z: "?x = 0" and n: "W - 8 \<le> n \<and> n < W"
      then have "n < 64" using assms(1) by linarith
      from x [OF this] show "\<not> bit v n" unfolding z using n by simp
    next
      assume a: "\<forall>n. W - 8 \<le> n \<and> n < W \<longrightarrow> \<not> bit v n"
      show "?x = 0"
      proof (rule bit_word_eqI)
        fix n assume "n < LENGTH(64)"
        then have "n < 64" by simp
        then have "\<not> bit ?x n" using x a by blast
        then show "bit ?x n = bit 0 n" by (simp only: bit_0_eq bot_apply bot_bool_def simp_thms)
      qed
    qed
  qed
  also have "\<dots> \<longleftrightarrow> (\<forall>n. W - 8 \<le> n \<longrightarrow> \<not> bit v n)" using hi by (meson not_less)
  also have "\<dots> \<longleftrightarrow> take_bit (W - 8) v = v"
    unfolding bit_eq_iff bit_take_bit_iff by (simp add: possible_bit_def) (meson linorder_not_le)
  also have "\<dots> \<longleftrightarrow> v < 2 ^ (W - 8)" by (rule take_bit_nat_eq_self_iff)
  finally show ?thesis unfolding ff_def .
qed

lemma strnum_loop_ok:
  assumes W: "W \<le> 64" "8 \<le> W" and len: "len \<le> length str"
  shows "i \<le> len \<Longrightarrow> p = len - i \<Longrightarrow>
    strnum_loop (push_bit (W - 8) 0xFF) str p i len (of_nat (le_value (drop p (take len str))))
      (2 ^ W \<le> le_value (drop p (take len str))) =
    (of_nat (le_value (take len str)), 2 ^ W \<le> le_value (take len str))"
proof (induction "len - i" arbitrary: i p)
  case 0
  then show ?case by (simp add: strnum_loop.simps)
next
  case (Suc k)
  let ?v = "le_value (drop p (take len str))" and ?v' = "le_value (drop (p - 1) (take len str))"
  have i: "i < len" and p: "p - 1 = len - (i + 1)" "p - 1 < len" "Suc (p - 1) = p" using Suc.hyps(2) Suc.prems by auto
  have "drop (p - 1) (take len str) = str ! (p - 1) # drop p (take len str)"
    using Cons_nth_drop_Suc [of "p - 1" "take len str"] p len by simp
  then have v': "?v' = unat (str ! (p - 1)) + 256 * ?v" by (simp add: le_value_def)
  have val: "push_bit 8 (of_nat ?v) + ucast (str ! (p - 1)) = (of_nat ?v' :: u64)"
  proof -
    have "(ucast (str ! (p - 1)) :: u64) = of_nat (unat (str ! (p - 1)))" by (simp add: word_unat_eq_iff unat_of_nat)
    then show ?thesis unfolding v' by (simp add: push_bit_eq_mult)
  qed
  have b: "unat (str ! (p - 1)) < 256" using unat_lt_len [of "str ! (p - 1)"] by simp
  have W8: "(2 :: nat) ^ W = 256 * 2 ^ (W - 8)" using W(2) power_add [of "2 :: nat" 8 "W - 8"] by simp
  have warn: "(if of_nat ?v AND push_bit (W - 8) 0xFF \<noteq> (0 :: u64) then True else 2 ^ W \<le> ?v) = (2 ^ W \<le> ?v')"
  proof (cases "2 ^ W \<le> ?v")
    case True
    then show ?thesis using v' by simp
  next
    case False
    have "2 ^ (W - 8) \<le> ?v \<longleftrightarrow> 2 ^ W \<le> ?v'" unfolding v' W8 using b by linarith
    then show ?thesis using top_byte [OF W, of ?v] False by auto
  qed
  have "strnum_loop (push_bit (W - 8) 0xFF) str p i len (of_nat ?v) (2 ^ W \<le> ?v) =
    strnum_loop (push_bit (W - 8) 0xFF) str (p - 1) (i + 1) len (of_nat ?v') (2 ^ W \<le> ?v')"
    unfolding val [symmetric] warn [symmetric] by (subst strnum_loop.simps) (simp only: i if_True Let_def)
  also have "\<dots> = (of_nat (le_value (take len str)), 2 ^ W \<le> le_value (take len str))"
    by (rule Suc.hyps(1)) (use Suc.hyps(2) i p in auto)
  finally show ?case .
qed

section \<open>Properties\<close>

text \<open>
  C30: reading a number. For every string \<open>readnum\<close> gives what its syntax says: after white space
  and an optional minus sign come the longest run of letters, digits, \<open>$\<close> and \<open>_\<close>; the radix is
  the larger of the ones that prefix and suffix name, else 10; the error flag is set exactly when
  there is no digit or a character is no digit of the radix; otherwise the value is that of the
  digits modulo 2 to the 64, and the warning that the constant does not fit is given exactly when
  the number itself is at least 2 to the 64, whatever the wrapped value was on the way.
\<close>
lemma readnum_correct: "readnum str = readnum_spec str"
  by (rule readnum_ok)

text \<open>
  C31: round trip. A number printed in decimal, or in hexadecimal after \<open>0x\<close>, is read back as itself
  without error, and with the warning exactly when it needs more than 64 bits.
\<close>
lemma readnum_roundtrip:
  "readnum (print_number 10 n) = \<lparr>rn_value = of_nat n, rn_error = False, rn_warn = 2 ^ 64 \<le> n\<rparr> \<and>
   readnum ([48, 120] @ print_number 16 n) = \<lparr>rn_value = of_nat n, rn_error = False, rn_warn = 2 ^ 64 \<le> n\<rparr>"
  using read_decimal read_hex by simp

text \<open>
  C32: a string as an integer. The bytes of the string, the first the least significant, give the
  value modulo 2 to the 64, and the warning is given exactly when the value does not fit the 64 or
  32 bits of the mode, although the loop only ever looks at one byte of the running value.
\<close>
lemma readstrnum_correct:
  assumes "len \<le> length str"
  shows "readstrnum bits str len =
    (of_nat (le_value (take len str)), (if bits = 64 then 2 ^ 64 else 2 ^ 32) \<le> le_value (take len str))"
proof -
  have z: "le_value [] = 0" by (simp add: le_value_def)
  have "push_bit (64 - 8) 0xFF = (0xFF00000000000000 :: u64)" "push_bit (32 - 8) 0xFF = (0xFF000000 :: u64)"
    by (simp_all add: push_bit_eq_mult)
  then show ?thesis
    using strnum_loop_ok [of 64 len str 0 len] strnum_loop_ok [of 32 len str 0 len] assms
    by (simp add: readstrnum_def z)
qed

lemma readstrnum_correct_witness: "readstrnum 32 [1, 2, 3, 4, 5] 5 = (0x504030201, True)"
  using readstrnum_correct [of 5 "[1, 2, 3, 4, 5]" 32] by (simp add: le_value_def)

end
