(* ===== verification/Saa.thy ===== *)
theory Saa
  imports Crc64
begin

text \<open>
  The sequential access array of nasm, \<open>nasmlib/saa.c\<close>: output sections are collected in it. The
  array is a list of blocks of one size, with a position for writing and one for reading, each
  given by a block, an offset in it and the absolute position. The block pointers are indices
  into \<open>blk_ptrs\<close>; \<open>saa_fwrite\<close> can set the one for writing to \<open>-1\<close>, before the first block.
  Fresh memory has any contents: the parameter \<open>g\<close> gives the byte at each position. Sizes are
  natural numbers, as positions stay far below the range of \<open>size_t\<close>. \<open>None\<close> is a failed
  \<open>nasm_assert\<close>, which ends the program, a loop without end or a write outside an array.
\<close>

unbundle bit_operations_syntax

section \<open>The array\<close>

definition SAA_BLKSHIFT :: nat where "SAA_BLKSHIFT = 16"
definition SAA_BLKLEN :: nat where "SAA_BLKLEN = 2 ^ SAA_BLKSHIFT"

record saa =
  elem_len :: nat
  blk_len :: nat
  nblks :: nat
  nblkptrs :: nat
  saa_length :: nat
  datalen :: nat
  wblk :: int
  wpos :: nat
  wptr :: nat
  rblk :: int
  rpos :: nat
  rptr :: nat
  blk_ptrs :: "u8 list list"

definition fresh :: "(nat \<Rightarrow> u8) \<Rightarrow> nat \<Rightarrow> nat \<Rightarrow> u8 list" where
  "fresh g start n = map g [start..<start + n]"

definition saa_init :: "(nat \<Rightarrow> u8) \<Rightarrow> nat \<Rightarrow> saa" where
  "saa_init g n =
    (let bl = (if SAA_BLKLEN \<le> n then n else SAA_BLKLEN - SAA_BLKLEN mod n)
     in \<lparr>elem_len = n, blk_len = bl, nblks = 1, nblkptrs = 1, saa_length = bl, datalen = 0,
         wblk = 0, wpos = 0, wptr = 0, rblk = 0, rpos = 0, rptr = 0, blk_ptrs = [fresh g 0 bl]\<rparr>)"

definition saa_extend :: "(nat \<Rightarrow> u8) \<Rightarrow> saa \<Rightarrow> saa" where
  "saa_extend g s =
    (let blkn = nblks s;
         s = s\<lparr>nblks := nblks s + 1\<rparr>;
         s = (if nblkptrs s \<le> blkn then s\<lparr>nblkptrs := 2 * nblkptrs s\<rparr> else s);
         s = s\<lparr>blk_ptrs := blk_ptrs s @ [fresh g (saa_length s) (blk_len s)]\<rparr>
     in s\<lparr>saa_length := saa_length s + blk_len s\<rparr>)"

text \<open>\<open>memcpy\<close> into the block at the writing position.\<close>

definition put_bytes :: "u8 list \<Rightarrow> nat \<Rightarrow> u8 list \<Rightarrow> u8 list" where
  "put_bytes m p bs = take p m @ bs @ drop (p + length bs) m"

definition store_bytes :: "saa \<Rightarrow> u8 list \<Rightarrow> saa" where
  "store_bytes s bs =
    (let k = nat (wblk s) in s\<lparr>blk_ptrs := (blk_ptrs s)[k := put_bytes (blk_ptrs s ! k) (wpos s) bs]\<rparr>)"

definition saa_wstruct :: "(nat \<Rightarrow> u8) \<Rightarrow> saa \<Rightarrow> ((int \<times> nat) \<times> saa) option" where
  "saa_wstruct g s =
    (if wpos s mod elem_len s \<noteq> 0 then None
     else if blk_len s < wpos s + elem_len s \<and> wpos s \<noteq> blk_len s then None
     else
       let s = (if blk_len s < wpos s + elem_len s then
                  let s = (if saa_length s < wptr s + elem_len s then saa_extend g s else s)
                  in s\<lparr>wblk := wblk s + 1, wpos := 0\<rparr>
                else s);
           p = (wblk s, wpos s);
           s = s\<lparr>wpos := wpos s + elem_len s, wptr := wptr s + elem_len s\<rparr>;
           s = (if datalen s < wptr s then s\<lparr>datalen := wptr s\<rparr> else s)
       in Some (p, s))"

text \<open>\<open>data\<close> is \<open>None\<close> for the null pointer, which writes zeros.\<close>

definition write_part :: "saa \<Rightarrow> u8 list option \<Rightarrow> nat \<Rightarrow> saa \<times> u8 list option" where
  "write_part s d l =
    (let (s, d) = (case d of
            Some bs \<Rightarrow> (store_bytes s (take l bs), Some (drop l bs))
          | None \<Rightarrow> (store_bytes s (replicate l 0), None));
         s = s\<lparr>wpos := wpos s + l, wptr := wptr s + l\<rparr>
     in (if datalen s < wptr s then s\<lparr>datalen := wptr s\<rparr> else s, d))"

definition next_block :: "(nat \<Rightarrow> u8) \<Rightarrow> saa \<Rightarrow> saa" where
  "next_block g s =
    (let s = (if saa_length s \<le> wptr s then saa_extend g s else s)
     in s\<lparr>wblk := wblk s + 1, wpos := 0\<rparr>)"

partial_function (option) saa_wbytes :: "(nat \<Rightarrow> u8) \<Rightarrow> saa \<Rightarrow> u8 list option \<Rightarrow> nat \<Rightarrow> saa option" where
  "saa_wbytes g s d len =
    (if len = 0 then Some s
     else
       let l = blk_len s - wpos s;
           l = (if len < l then len else l);
           (s, d) = (if l \<noteq> 0 then write_part s d l else (s, d));
           len = len - l
       in saa_wbytes g (if len \<noteq> 0 then next_block g s else s) d len)"

definition saa_wcstring :: "(nat \<Rightarrow> u8) \<Rightarrow> saa \<Rightarrow> u8 list \<Rightarrow> (nat \<times> saa) option" where
  "saa_wcstring g s str =
    (let bytes = length (cstr str) + 1
     in map_option (\<lambda>s. (bytes, s)) (saa_wbytes g s (Some (cstr str @ [0])) bytes))"

definition saa_rewind :: "saa \<Rightarrow> saa" where
  "saa_rewind s = s\<lparr>rblk := 0, rpos := 0, rptr := 0\<rparr>"

definition saa_rstruct :: "saa \<Rightarrow> ((int \<times> nat) option \<times> saa) option" where
  "saa_rstruct s =
    (if datalen s < rptr s + elem_len s then Some (None, s)
     else if rpos s mod elem_len s \<noteq> 0 then None
     else
       let s = (if blk_len s < rpos s + elem_len s then s\<lparr>rblk := rblk s + 1, rpos := 0\<rparr> else s);
           p = (rblk s, rpos s)
       in Some (Some p, s\<lparr>rpos := rpos s + elem_len s, rptr := rptr s + elem_len s\<rparr>))"

text \<open>The pointer that is returned gives access to the bytes of the block; \<open>lenp\<close> says to how many.\<close>

definition saa_rbytes :: "saa \<Rightarrow> nat \<Rightarrow> u8 list option \<times> nat \<times> saa" where
  "saa_rbytes s lenp =
    (if datalen s \<le> rptr s then (None, 0, s)
     else
       let s = (if blk_len s \<le> rpos s then s\<lparr>rblk := rblk s + 1, rpos := 0\<rparr> else s);
           len = lenp;
           len = (if datalen s - rptr s < len then datalen s - rptr s else len);
           len = (if blk_len s - rpos s < len then blk_len s - rpos s else len);
           p = drop (rpos s) (blk_ptrs s ! nat (rblk s))
       in (Some p, len, s\<lparr>rpos := rpos s + len, rptr := rptr s + len\<rparr>))"

partial_function (option) rnbytes_loop :: "saa \<Rightarrow> u8 list \<Rightarrow> nat \<Rightarrow> (u8 list \<times> saa) option" where
  "rnbytes_loop s d len =
    (if len = 0 then Some (d, s)
     else
       case saa_rbytes s len of
         (None, l, s) \<Rightarrow> None
       | (Some p, l, s) \<Rightarrow> rnbytes_loop s (d @ take l p) (len - l))"

definition saa_rnbytes :: "saa \<Rightarrow> nat \<Rightarrow> (u8 list \<times> saa) option" where
  "saa_rnbytes s len = (if rptr s + len \<le> datalen s then rnbytes_loop s [] len else None)"

definition saa_seek :: "saa \<Rightarrow> nat \<Rightarrow> nat \<times> nat" where
  "saa_seek s posn =
    (if blk_len s = SAA_BLKLEN then (drop_bit SAA_BLKSHIFT posn, posn AND (SAA_BLKLEN - 1))
     else (posn div blk_len s, posn mod blk_len s))"

definition saa_fread :: "saa \<Rightarrow> nat \<Rightarrow> nat \<Rightarrow> (u8 list \<times> saa) option" where
  "saa_fread s posn len =
    (if posn + len \<le> datalen s then
       let (ix, off) = saa_seek s posn
       in saa_rnbytes (s\<lparr>rpos := off, rptr := posn, rblk := int ix\<rparr>) len
     else None)"

definition saa_fwrite :: "(nat \<Rightarrow> u8) \<Rightarrow> saa \<Rightarrow> nat \<Rightarrow> u8 list option \<Rightarrow> nat \<Rightarrow> saa option" where
  "saa_fwrite g s posn d len =
    (if posn \<le> datalen s then
       let (ix, off) = saa_seek s posn;
           s = s\<lparr>wpos := off, wptr := posn, wblk := int ix\<rparr>;
           s = (if wpos s = 0 then s\<lparr>wpos := blk_len s, wblk := wblk s - 1\<rparr> else s)
       in saa_wbytes g s d len
     else None)"

text \<open>The file is the list of the bytes written to it.\<close>

partial_function (option) fpwrite_loop :: "saa \<Rightarrow> u8 list \<Rightarrow> (u8 list \<times> saa) option" where
  "fpwrite_loop s fp =
    (case saa_rbytes s (datalen s) of
       (None, l, s) \<Rightarrow> Some (fp, s)
     | (Some p, l, s) \<Rightarrow> fpwrite_loop s (fp @ take l p))"

definition saa_fpwrite :: "saa \<Rightarrow> u8 list \<Rightarrow> (u8 list \<times> saa) option" where
  "saa_fpwrite s fp = fpwrite_loop (saa_rewind s) fp"

definition saa_write8 :: "(nat \<Rightarrow> u8) \<Rightarrow> saa \<Rightarrow> u8 \<Rightarrow> saa option" where
  "saa_write8 g s v = saa_wbytes g s (Some [v]) 1"

definition saa_write16 :: "(nat \<Rightarrow> u8) \<Rightarrow> saa \<Rightarrow> u16 \<Rightarrow> saa option" where
  "saa_write16 g s v = saa_wbytes g s (Some [ucast v, ucast (drop_bit 8 v)]) 2"

definition saa_write32 :: "(nat \<Rightarrow> u8) \<Rightarrow> saa \<Rightarrow> u32 \<Rightarrow> saa option" where
  "saa_write32 g s v =
    saa_wbytes g s (Some [ucast v, ucast (drop_bit 8 v), ucast (drop_bit 16 v), ucast (drop_bit 24 v)]) 4"

definition saa_write64 :: "(nat \<Rightarrow> u8) \<Rightarrow> saa \<Rightarrow> u64 \<Rightarrow> saa option" where
  "saa_write64 g s v =
    saa_wbytes g s (Some [ucast v, ucast (drop_bit 8 v), ucast (drop_bit 16 v), ucast (drop_bit 24 v),
      ucast (drop_bit 32 v), ucast (drop_bit 40 v), ucast (drop_bit 48 v), ucast (drop_bit 56 v)]) 8"

definition saa_writeaddr :: "(nat \<Rightarrow> u8) \<Rightarrow> saa \<Rightarrow> u64 \<Rightarrow> nat \<Rightarrow> saa option" where
  "saa_writeaddr g s v len =
    saa_wbytes g s (Some [ucast v, ucast (drop_bit 8 v), ucast (drop_bit 16 v), ucast (drop_bit 24 v),
      ucast (drop_bit 32 v), ucast (drop_bit 40 v), ucast (drop_bit 48 v), ucast (drop_bit 56 v)]) len"

section \<open>The contents and the invariant\<close>

definition content :: "saa \<Rightarrow> u8 list" where
  "content s = take (datalen s) (concat (blk_ptrs s))"

definition blocks_ok :: "saa \<Rightarrow> bool" where
  "blocks_ok s \<longleftrightarrow> 0 < elem_len s \<and> 0 < blk_len s \<and> elem_len s dvd blk_len s \<and>
    length (blk_ptrs s) = nblks s \<and> (\<forall>b \<in> set (blk_ptrs s). length b = blk_len s) \<and>
    saa_length s = nblks s * blk_len s \<and> 1 \<le> nblks s \<and> nblks s \<le> nblkptrs s \<and> datalen s \<le> saa_length s"

definition write_ok :: "saa \<Rightarrow> bool" where
  "write_ok s \<longleftrightarrow> wptr s \<le> datalen s \<and> int (wptr s) = wblk s * int (blk_len s) + int (wpos s) \<and>
    wpos s \<le> blk_len s \<and> -1 \<le> wblk s \<and> wblk s < int (nblks s)"

definition read_ok :: "saa \<Rightarrow> bool" where
  "read_ok s \<longleftrightarrow> rptr s \<le> datalen s \<and> int (rptr s) = rblk s * int (blk_len s) + int (rpos s) \<and>
    rpos s \<le> blk_len s \<and> 0 \<le> rblk s \<and> rblk s \<le> int (nblks s)"

definition saa_ok :: "saa \<Rightarrow> bool" where
  "saa_ok s \<longleftrightarrow> blocks_ok s \<and> write_ok s \<and> read_ok s"

definition same_reader :: "saa \<Rightarrow> saa \<Rightarrow> bool" where
  "same_reader s t \<longleftrightarrow> rblk t = rblk s \<and> rpos t = rpos s \<and> rptr t = rptr s \<and>
    elem_len t = elem_len s \<and> blk_len t = blk_len s"

lemma length_concat_blocks: "\<forall>b \<in> set bs. length b = B \<Longrightarrow> length (concat bs) = length bs * B"
  by (induction bs) auto

lemma put_bytes_append: "p + length bs \<le> length xs \<Longrightarrow> put_bytes (xs @ ys) p bs = put_bytes xs p bs @ ys"
  by (simp add: put_bytes_def)

lemma put_bytes_skip: "put_bytes (xs @ ys) (length xs + p) bs = xs @ put_bytes ys p bs"
  by (simp add: put_bytes_def)

lemma length_put_bytes [simp]: "p + length bs \<le> length xs \<Longrightarrow> length (put_bytes xs p bs) = length xs"
  by (simp add: put_bytes_def)

lemma put_bytes_nil [simp]: "put_bytes xs p [] = xs"
  by (simp add: put_bytes_def)

lemma put_bytes_twice:
  assumes "p \<le> length xs"
  shows "put_bytes (put_bytes xs p as) (p + length as) bs = put_bytes xs p (as @ bs)"
  using assms by (simp add: put_bytes_def min_def add.assoc add.commute [of "length bs"])

lemma take_put_bytes:
  assumes "p \<le> n" "n \<le> length xs" "p + length bs \<le> length xs"
  shows "take (max n (p + length bs)) (put_bytes xs p bs) = put_bytes (take n xs) p bs"
proof (cases "n \<le> p + length bs")
  case True
  then have "max n (p + length bs) = p + length bs" by simp
  moreover have "take (p + length bs) (put_bytes xs p bs) = take p xs @ bs"
    using assms by (cases bs) (auto simp: put_bytes_def min_def)
  ultimately show ?thesis using True assms by (simp add: put_bytes_def min_absorb1)
next
  case False
  then have "max n (p + length bs) = n" by simp
  moreover have "take n (put_bytes xs p bs) = take p xs @ bs @ take (n - (p + length bs)) (drop (p + length bs) xs)"
    using assms False by (simp add: put_bytes_def min_def)
  ultimately show ?thesis using False assms by (simp add: put_bytes_def min_absorb1 take_drop)
qed

lemma concat_put:
  "\<forall>b \<in> set blks. length b = B \<Longrightarrow> k < length blks \<Longrightarrow> p + length bs \<le> B \<Longrightarrow>
   concat (blks[k := put_bytes (blks ! k) p bs]) = put_bytes (concat blks) (k * B + p) bs"
proof (induction blks arbitrary: k)
  case (Cons b blks)
  show ?case
  proof (cases k)
    case 0
    then show ?thesis using Cons.prems by (simp add: put_bytes_append)
  next
    case (Suc j)
    have "put_bytes (b @ concat blks) (length b + (j * B + p)) bs = b @ put_bytes (concat blks) (j * B + p) bs"
      by (rule put_bytes_skip)
    then show ?thesis using Cons.IH [of j] Cons.prems Suc by (simp add: add.assoc)
  qed
qed simp

lemma concat_read:
  "\<forall>b \<in> set blks. length b = B \<Longrightarrow> k < length blks \<Longrightarrow> p + n \<le> B \<Longrightarrow>
   take n (drop p (blks ! k)) = take n (drop (k * B + p) (concat blks))"
proof (induction blks arbitrary: k)
  case (Cons b blks)
  show ?case
  proof (cases k)
    case (Suc j)
    have "drop (B + (j * B + p)) (b @ concat blks) = drop (j * B + p) (concat blks)" using Cons.prems by simp
    then show ?thesis using Cons.IH [of j] Cons.prems Suc by (simp add: add.assoc)
  qed (use Cons.prems in simp)
qed simp

lemma length_flat: "blocks_ok s \<Longrightarrow> length (concat (blk_ptrs s)) = saa_length s"
  using length_concat_blocks [of "blk_ptrs s" "blk_len s"] by (simp add: blocks_ok_def)

lemma length_content: "blocks_ok s \<Longrightarrow> length (content s) = datalen s"
  using length_flat [of s] by (simp add: content_def blocks_ok_def)

section \<open>Writing\<close>

definition after_write :: "saa \<Rightarrow> u8 list \<Rightarrow> saa \<Rightarrow> bool" where
  "after_write s bs t \<longleftrightarrow> saa_ok t \<and> content t = put_bytes (content s) (wptr s) bs \<and>
    wptr t = wptr s + length bs \<and> same_reader s t"

definition chunk :: "u8 list option \<Rightarrow> nat \<Rightarrow> u8 list" where
  "chunk d n = (case d of None \<Rightarrow> replicate n 0 | Some bs \<Rightarrow> take n bs)"

definition enough :: "u8 list option \<Rightarrow> nat \<Rightarrow> bool" where
  "enough d n \<longleftrightarrow> (case d of None \<Rightarrow> True | Some bs \<Rightarrow> n \<le> length bs)"

lemma write_part_ok:
  assumes ok: "saa_ok s" and l: "0 < l" "l \<le> blk_len s - wpos s" and d: "enough d l"
  obtains t where "write_part s d l = (t, map_option (drop l) d)" "after_write s (chunk d l) t" "wpos t = wpos s + l"
proof -
  let ?bs = "chunk d l"
  have n: "length ?bs = l" using d by (auto simp: chunk_def enough_def split: option.splits)
  define t where "t = fst (write_part s d l)"
  have wb: "0 \<le> wblk s"
  proof (rule ccontr)
    assume "\<not> 0 \<le> wblk s"
    then have "wblk s = -1" using ok by (simp add: saa_ok_def write_ok_def)
    then show False using ok l by (simp add: saa_ok_def write_ok_def)
  qed
  let ?k = "nat (wblk s)"
  have k: "?k < length (blk_ptrs s)" "wptr s = ?k * blk_len s + wpos s"
  proof -
    show "?k < length (blk_ptrs s)" using ok wb by (auto simp: saa_ok_def write_ok_def blocks_ok_def)
    have "int (wptr s) = int (?k * blk_len s + wpos s)" using ok wb by (simp add: saa_ok_def write_ok_def)
    then show "wptr s = ?k * blk_len s + wpos s" by (simp only: of_nat_eq_iff)
  qed
  have fit: "wpos s + length ?bs \<le> blk_len s" using l n ok by (simp add: saa_ok_def write_ok_def)
  have wp: "write_part s d l = (t, map_option (drop l) d)" and
    t: "t = s\<lparr>blk_ptrs := (blk_ptrs s)[?k := put_bytes (blk_ptrs s ! ?k) (wpos s) ?bs],
      wpos := wpos s + l, wptr := wptr s + l, datalen := max (datalen s) (wptr s + l)\<rparr>"
    by (auto simp: t_def write_part_def store_bytes_def chunk_def Let_def max_def split: option.splits)
  have flat: "concat (blk_ptrs t) = put_bytes (concat (blk_ptrs s)) (wptr s) ?bs"
    using concat_put [of "blk_ptrs s" "blk_len s" ?k "wpos s" ?bs] ok k fit
    by (simp add: t saa_ok_def blocks_ok_def)
  have total: "wptr s + l \<le> saa_length s"
  proof -
    have "(?k + 1) * blk_len s \<le> nblks s * blk_len s" using ok k(1) by (intro mult_le_mono1) (simp add: saa_ok_def blocks_ok_def)
    then show ?thesis using fit n k(2) ok by (simp add: saa_ok_def blocks_ok_def)
  qed
  have c: "content t = put_bytes (content s) (wptr s) ?bs"
    unfolding content_def flat using take_put_bytes [of "wptr s" "datalen s" "concat (blk_ptrs s)" ?bs] length_flat [of s] ok n total
    by (simp add: t saa_ok_def write_ok_def blocks_ok_def)
  have bl: "\<forall>b \<in> set (blk_ptrs s). length b = blk_len s" using ok by (simp add: saa_ok_def blocks_ok_def)
  then have "length (put_bytes (blk_ptrs s ! ?k) (wpos s) ?bs) = blk_len s" using k(1) fit by simp
  then have "\<forall>b \<in> set (blk_ptrs t). length b = blk_len s"
    using bl set_update_subset_insert [of "blk_ptrs s" ?k] by (fastforce simp: t)
  then have "blocks_ok t" using ok total by (simp add: t saa_ok_def blocks_ok_def)
  moreover have "write_ok t" "read_ok t" "same_reader s t"
    using ok fit n by (auto simp: t saa_ok_def write_ok_def read_ok_def same_reader_def)
  ultimately have "after_write s ?bs t" using c n by (simp add: after_write_def saa_ok_def t)
  then show thesis using that wp by (simp add: t)
qed

lemma extend_ok:
  assumes "blocks_ok s"
  shows "blocks_ok (saa_extend g s)" "content (saa_extend g s) = content s" "nblks (saa_extend g s) = nblks s + 1"
  using assms length_flat [OF assms] by (auto simp: saa_extend_def Let_def blocks_ok_def content_def fresh_def)

lemma extend_frame [simp]:
  "wblk (saa_extend g s) = wblk s" "wpos (saa_extend g s) = wpos s" "wptr (saa_extend g s) = wptr s"
  "rblk (saa_extend g s) = rblk s" "rpos (saa_extend g s) = rpos s" "rptr (saa_extend g s) = rptr s"
  "datalen (saa_extend g s) = datalen s" "blk_len (saa_extend g s) = blk_len s" "elem_len (saa_extend g s) = elem_len s"
  by (simp_all add: saa_extend_def Let_def)

lemma next_block_ok:
  assumes ok: "saa_ok s" and full: "wpos s = blk_len s"
  shows "saa_ok (next_block g s)" "content (next_block g s) = content s" "wptr (next_block g s) = wptr s"
    "wpos (next_block g s) = 0" "same_reader s (next_block g s)"
proof -
  let ?B = "blk_len s"
  have w: "int (wptr s) = (wblk s + 1) * int ?B" using ok full by (simp add: saa_ok_def write_ok_def algebra_simps)
  define u where "u = (if saa_length s \<le> wptr s then saa_extend g s else s)"
  have nb: "next_block g s = u\<lparr>wblk := wblk s + 1, wpos := 0\<rparr>" by (simp add: next_block_def u_def Let_def)
  have u: "blocks_ok u" "content u = content s" "nblks s \<le> nblks u" "saa_length s \<le> wptr s \<Longrightarrow> nblks u = nblks s + 1"
    using extend_ok [of s g] ok by (auto simp: u_def saa_ok_def)
  have uf: "wptr u = wptr s" "rblk u = rblk s" "rpos u = rpos s" "rptr u = rptr s" "datalen u = datalen s"
    "blk_len u = ?B" "elem_len u = elem_len s" by (simp_all add: u_def)
  have lt: "wblk s + 1 < int (nblks u)"
  proof (cases "saa_length s \<le> wptr s")
    case True
    then show ?thesis using u(4) ok by (simp add: saa_ok_def write_ok_def)
  next
    case False
    then have "(wblk s + 1) * int ?B < int (nblks s) * int ?B"
      using w ok by (simp add: saa_ok_def blocks_ok_def flip: of_nat_mult)
    then have "wblk s + 1 < int (nblks s)" by (simp add: mult_less_cancel_right)
    then show ?thesis using u(3) by linarith
  qed
  have b: "blocks_ok (next_block g s)" and c: "content (next_block g s) = content s"
    using u by (simp_all add: nb blocks_ok_def content_def)
  then show "content (next_block g s) = content s" by simp
  have "write_ok (next_block g s)" using ok lt w by (simp add: nb write_ok_def uf saa_ok_def)
  moreover have "read_ok (next_block g s)" using ok u(3) by (simp add: nb read_ok_def uf saa_ok_def)
  ultimately show "saa_ok (next_block g s)" using b by (simp add: saa_ok_def)
  show "wptr (next_block g s) = wptr s" "wpos (next_block g s) = 0" "same_reader s (next_block g s)"
    by (simp_all add: nb uf same_reader_def)
qed

lemma chunk_split: "enough d n \<Longrightarrow> l \<le> n \<Longrightarrow> chunk d n = chunk d l @ chunk (map_option (drop l) d) (n - l)"
  by (auto simp: chunk_def take_add [symmetric] replicate_add [symmetric] split: option.splits)

lemma length_chunk: "enough d n \<Longrightarrow> length (chunk d n) = n"
  by (auto simp: chunk_def enough_def split: option.splits)

lemma enough_drop: "enough d n \<Longrightarrow> enough (map_option (drop l) d) (n - l)"
  by (auto simp: enough_def split: option.splits)

lemma enough_mono: "enough d n \<Longrightarrow> l \<le> n \<Longrightarrow> enough d l"
  by (auto simp: enough_def split: option.splits)

lemma same_reader_trans: "same_reader s t \<Longrightarrow> same_reader t u \<Longrightarrow> same_reader s u"
  by (simp add: same_reader_def)

lemma after_write_trans:
  assumes "saa_ok s" "after_write s as t" "after_write t bs u"
  shows "after_write s (as @ bs) u"
proof -
  have "wptr s \<le> length (content s)" using assms(1) by (simp add: saa_ok_def write_ok_def length_content)
  then show ?thesis
    using assms put_bytes_twice [of "wptr s" "content s" as bs] same_reader_trans
    unfolding after_write_def by (metis add.assoc length_append)
qed

lemma after_next:
  assumes "saa_ok s" "wpos s = blk_len s" "after_write (next_block g s) bs t"
  shows "after_write s bs t"
  using assms(3) next_block_ok [OF assms(1,2), of g] same_reader_trans unfolding after_write_def by metis

lemma wbytes_room:
  "saa_ok s \<Longrightarrow> wpos s < blk_len s \<Longrightarrow> enough d len \<Longrightarrow>
   \<exists>t. saa_wbytes g s d len = Some t \<and> after_write s (chunk d len) t"
proof (induction len arbitrary: s d rule: less_induct)
  case (less len)
  show ?case
  proof (cases "len = 0")
    case True
    have "chunk d 0 = []" by (simp add: chunk_def split: option.splits)
    then show ?thesis using less.prems True by (simp add: saa_wbytes.simps after_write_def same_reader_def)
  next
    case False
    define l where "l = (if len < blk_len s - wpos s then len else blk_len s - wpos s)"
    have l: "0 < l" "l \<le> len" "l \<le> blk_len s - wpos s" using False less.prems(2) by (auto simp: l_def)
    obtain t where t: "write_part s d l = (t, map_option (drop l) d)" "after_write s (chunk d l) t" "wpos t = wpos s + l"
      using write_part_ok [OF less.prems(1) l(1,3) enough_mono [OF less.prems(3) l(2)]] by blast
    have step: "saa_wbytes g s d len =
      saa_wbytes g (if len - l \<noteq> 0 then next_block g t else t) (map_option (drop l) d) (len - l)"
      using False l(1) t(1) by (subst saa_wbytes.simps) (simp add: l_def [symmetric] Let_def)
    have tok: "saa_ok t" "blk_len t = blk_len s" using t(2) by (simp_all add: after_write_def same_reader_def)
    note ch = chunk_split [OF less.prems(3) l(2)]
    show ?thesis
    proof (cases "len - l = 0")
      case True
      then have "chunk d len = chunk d l" using l(2) by simp
      then show ?thesis using step t(2) True by (simp add: saa_wbytes.simps)
    next
      case more: False
      then have full: "wpos t = blk_len t" using t(3) tok(2) l less.prems(2) by (auto simp: l_def split: if_splits)
      note nb = next_block_ok [OF tok(1) full, of g]
      have "wpos (next_block g t) < blk_len (next_block g t)"
        using nb(1,4) by (simp add: saa_ok_def blocks_ok_def)
      then obtain u where u: "saa_wbytes g (next_block g t) (map_option (drop l) d) (len - l) = Some u"
        "after_write (next_block g t) (chunk (map_option (drop l) d) (len - l)) u"
        using less.IH [OF _ nb(1) _ enough_drop [OF less.prems(3), of l]] l(1) False by auto
      have "after_write s (chunk d l @ chunk (map_option (drop l) d) (len - l)) u"
        using after_write_trans [OF less.prems(1) t(2) after_next [OF tok(1) full u(2)]] .
      then show ?thesis using step u(1) more ch by simp
    qed
  qed
qed

lemma wbytes_ok:
  assumes ok: "saa_ok s" and d: "enough d len"
  shows "\<exists>t. saa_wbytes g s d len = Some t \<and> after_write s (chunk d len) t"
proof (cases "wpos s < blk_len s \<or> len = 0")
  case True
  have "chunk d 0 = []" by (simp add: chunk_def split: option.splits)
  then have "len = 0 \<Longrightarrow> ?thesis" using ok by (simp add: saa_wbytes.simps after_write_def same_reader_def)
  then show ?thesis using True wbytes_room [OF ok _ d] by blast
next
  case False
  then have full: "wpos s = blk_len s" using ok by (simp add: saa_ok_def write_ok_def)
  note nb = next_block_ok [OF ok full, of g]
  have "wpos (next_block g s) < blk_len (next_block g s)"
    using nb(1,4) by (simp add: saa_ok_def blocks_ok_def)
  then obtain t where t: "saa_wbytes g (next_block g s) d len = Some t" "after_write (next_block g s) (chunk d len) t"
    using wbytes_room [OF nb(1) _ d] by blast
  have "saa_wbytes g s d len = saa_wbytes g (next_block g s) d len"
    using False full by (subst saa_wbytes.simps) simp
  then show ?thesis using t after_next [OF ok full] by auto
qed

section \<open>Reading\<close>

definition same_writer :: "saa \<Rightarrow> saa \<Rightarrow> bool" where
  "same_writer s t \<longleftrightarrow> wblk t = wblk s \<and> wpos t = wpos s \<and> wptr t = wptr s \<and> blk_ptrs t = blk_ptrs s \<and>
    elem_len t = elem_len s \<and> blk_len t = blk_len s \<and> nblks t = nblks s \<and> nblkptrs t = nblkptrs s \<and>
    saa_length t = saa_length s \<and> datalen t = datalen s"

lemma same_writer_content: "same_writer s t \<Longrightarrow> content t = content s"
  by (simp add: same_writer_def content_def)

lemma same_writer_ok: "saa_ok s \<Longrightarrow> same_writer s t \<Longrightarrow> read_ok t \<Longrightarrow> saa_ok t"
  by (simp add: saa_ok_def same_writer_def blocks_ok_def write_ok_def)

lemma same_writer_trans: "same_writer s t \<Longrightarrow> same_writer t u \<Longrightarrow> same_writer s u"
  by (simp add: same_writer_def)

lemma rbytes_ok:
  assumes ok: "saa_ok s" and more: "rptr s < datalen s" and n: "0 < n"
  obtains p l t where "saa_rbytes s n = (Some p, l, t)" "0 < l" "l \<le> n" "rptr s + l \<le> datalen s"
    "take l p = take l (drop (rptr s) (content s))" "same_writer s t" "saa_ok t" "rptr t = rptr s + l"
proof -
  let ?B = "blk_len s"
  define b q where "b = (if ?B \<le> rpos s then rblk s + 1 else rblk s)" and "q = (if ?B \<le> rpos s then 0 else rpos s)"
  define l where "l = min (min n (datalen s - rptr s)) (?B - q)"
  define t where "t = s\<lparr>rblk := b, rpos := q + l, rptr := rptr s + l\<rparr>"
  have q: "q < ?B" using ok by (auto simp: q_def saa_ok_def blocks_ok_def)
  have pos: "int (rptr s) = b * int ?B + int q"
    using ok by (auto simp: b_def q_def saa_ok_def read_ok_def algebra_simps)
  have b0: "0 \<le> b" using ok by (simp add: b_def saa_ok_def read_ok_def)
  have bn: "b < int (nblks s)"
  proof -
    have "b * int ?B < int (nblks s) * int ?B"
      using pos more ok by (simp add: saa_ok_def blocks_ok_def flip: of_nat_mult)
    then show ?thesis by (simp add: mult_less_cancel_right)
  qed
  have rp: "rptr s = nat b * ?B + q"
  proof -
    have "int (rptr s) = int (nat b * ?B + q)" using pos b0 by simp
    then show ?thesis by (simp only: of_nat_eq_iff)
  qed
  have l: "0 < l" "l \<le> n" "rptr s + l \<le> datalen s" "q + l \<le> ?B" using more n q by (auto simp: l_def)
  have r: "saa_rbytes s n = (Some (drop q (blk_ptrs s ! nat b)), l, t)"
    using more by (auto simp: saa_rbytes_def Let_def b_def q_def l_def t_def min_def)
  have "take l (drop q (blk_ptrs s ! nat b)) = take l (drop (rptr s) (concat (blk_ptrs s)))"
    unfolding rp by (rule concat_read) (use ok b0 bn l in \<open>auto simp: saa_ok_def blocks_ok_def\<close>)
  also have "\<dots> = take l (drop (rptr s) (content s))"
    using l(3) by (simp add: content_def drop_take min_absorb1)
  finally have c: "take l (drop q (blk_ptrs s ! nat b)) = take l (drop (rptr s) (content s))" .
  have w: "same_writer s t" by (simp add: same_writer_def t_def)
  have "read_ok t" using l pos b0 bn by (simp add: read_ok_def t_def)
  then have "saa_ok t" using same_writer_ok [OF ok w] by simp
  then show thesis using that [OF r l(1-3) c w] by (simp add: t_def)
qed

lemma take_drop_split: "take l (drop p xs) @ take (n - l) (drop (p + l) xs) = take n (drop p xs)" if "l \<le> n"
  using that take_add [of l "n - l" "drop p xs"] by (simp add: add.commute)

lemma rnbytes_loop_ok:
  "saa_ok s \<Longrightarrow> rptr s + len \<le> datalen s \<Longrightarrow>
   \<exists>t. rnbytes_loop s d len = Some (d @ take len (drop (rptr s) (content s)), t) \<and>
     saa_ok t \<and> same_writer s t \<and> rptr t = rptr s + len"
proof (induction len arbitrary: s d rule: less_induct)
  case (less len)
  show ?case
  proof (cases "len = 0")
    case True
    then show ?thesis using less.prems by (simp add: rnbytes_loop.simps same_writer_def)
  next
    case False
    then obtain p l t where r: "saa_rbytes s len = (Some p, l, t)" "0 < l" "l \<le> len" "rptr s + l \<le> datalen s"
      "take l p = take l (drop (rptr s) (content s))" "same_writer s t" "saa_ok t" "rptr t = rptr s + l"
      using rbytes_ok [OF less.prems(1), of len] less.prems(2) by auto
    have dl: "datalen t = datalen s" using r(6) by (simp add: same_writer_def)
    obtain u where u: "rnbytes_loop t (d @ take l p) (len - l) =
        Some ((d @ take l p) @ take (len - l) (drop (rptr t) (content t)), u)"
      "saa_ok u" "same_writer t u" "rptr u = rptr t + (len - l)"
      using less.IH [of "len - l" t "d @ take l p"] r dl less.prems(2) by auto
    have "(d @ take l p) @ take (len - l) (drop (rptr t) (content t)) = d @ take len (drop (rptr s) (content s))"
      using take_drop_split [OF r(3), of "rptr s" "content s"] r(5,8) same_writer_content [OF r(6)] by simp
    then have "rnbytes_loop s d len = Some (d @ take len (drop (rptr s) (content s)), u)"
      using False r(1) u(1) by (simp add: rnbytes_loop.simps [of s d len])
    then show ?thesis using u same_writer_trans [OF r(6) u(3)] r(3,8) by auto
  qed
qed

lemma fpwrite_loop_ok:
  "saa_ok s \<Longrightarrow> \<exists>t. fpwrite_loop s fp = Some (fp @ drop (rptr s) (content s), t) \<and>
     saa_ok t \<and> same_writer s t \<and> rptr t = datalen s"
proof (induction "datalen s - rptr s" arbitrary: s fp rule: less_induct)
  case less
  have len: "length (content s) = datalen s" using less.prems by (simp add: saa_ok_def length_content)
  show ?case
  proof (cases "rptr s < datalen s")
    case False
    then have e: "rptr s = datalen s" using less.prems by (simp add: saa_ok_def read_ok_def)
    then have "saa_rbytes s (datalen s) = (None, 0, s)" by (simp add: saa_rbytes_def)
    then show ?thesis using e len less.prems by (simp add: fpwrite_loop.simps [of s fp] same_writer_def)
  next
    case True
    then obtain p l t where r: "saa_rbytes s (datalen s) = (Some p, l, t)" "0 < l" "rptr s + l \<le> datalen s"
      "take l p = take l (drop (rptr s) (content s))" "same_writer s t" "saa_ok t" "rptr t = rptr s + l"
      using rbytes_ok [OF less.prems, of "datalen s"] by auto
    have dl: "datalen t = datalen s" using r(5) by (simp add: same_writer_def)
    obtain u where u: "fpwrite_loop t (fp @ take l p) = Some ((fp @ take l p) @ drop (rptr t) (content t), u)"
      "saa_ok u" "same_writer t u" "rptr u = datalen t"
    proof (atomize_elim)
      have "datalen t - rptr t < datalen s - rptr s" using r(2,3,7) dl True by simp
      from less.hyps [OF this r(6), of "fp @ take l p"] show "\<exists>u. fpwrite_loop t (fp @ take l p) = Some ((fp @ take l p) @ drop (rptr t) (content t), u) \<and>
        saa_ok u \<and> same_writer t u \<and> rptr u = datalen t" .
    qed
    have "(fp @ take l p) @ drop (rptr t) (content t) = fp @ drop (rptr s) (content s)"
      using append_take_drop_id [of l "drop (rptr s) (content s)"] r(4,7) same_writer_content [OF r(5)]
      by (simp add: add.commute)
    then have "fpwrite_loop s fp = Some (fp @ drop (rptr s) (content s), u)"
      using r(1) u(1) by (simp add: fpwrite_loop.simps [of s fp])
    then show ?thesis using u same_writer_trans [OF r(5) u(3)] dl by auto
  qed
qed

lemma seek_ok: "saa_seek s posn = (posn div blk_len s, posn mod blk_len s)"
proof (cases "blk_len s = SAA_BLKLEN")
  case True
  have "posn AND (2 ^ 16 - 1) = posn mod 2 ^ 16"
    using take_bit_eq_mask [of 16 posn] by (simp add: take_bit_eq_mod mask_eq_exp_minus_1)
  then show ?thesis using True
    by (simp add: saa_seek_def SAA_BLKLEN_def SAA_BLKSHIFT_def drop_bit_eq_div)
qed (simp add: saa_seek_def)

lemma rewind_ok: "saa_ok s \<Longrightarrow> saa_ok (saa_rewind s) \<and> same_writer s (saa_rewind s) \<and> rptr (saa_rewind s) = 0"
  by (simp add: saa_ok_def saa_rewind_def same_writer_def blocks_ok_def write_ok_def read_ok_def)

section \<open>Structures\<close>

text \<open>What a caller does with the pointers: it fills the reserved element, or reads it.\<close>

definition put_struct :: "(nat \<Rightarrow> u8) \<Rightarrow> saa \<Rightarrow> u8 list \<Rightarrow> saa option" where
  "put_struct g s bs =
    (case saa_wstruct g s of
       None \<Rightarrow> None
     | Some ((b, p), t) \<Rightarrow>
         Some (t\<lparr>blk_ptrs := (blk_ptrs t)[nat b := put_bytes (blk_ptrs t ! nat b) p bs]\<rparr>))"

definition get_struct :: "saa \<Rightarrow> (u8 list \<times> saa) option" where
  "get_struct s =
    (case saa_rstruct s of
       None \<Rightarrow> None
     | Some (None, t) \<Rightarrow> Some ([], t)
     | Some (Some (b, p), t) \<Rightarrow> Some (take (elem_len s) (drop p (blk_ptrs s ! nat b)), t))"

lemma dvd_room:
  assumes "e dvd p" "e dvd B" "p \<le> B" "0 < (e :: nat)"
  shows "B < p + e \<longleftrightarrow> p = B"
proof -
  obtain i j where ij: "p = e * i" "B = e * j" using assms by (auto elim!: dvdE)
  show ?thesis
  proof (cases "i = j")
    case True
    then show ?thesis using ij assms(4) by simp
  next
    case False
    then have "Suc i \<le> j" using assms(3,4) ij by simp
    then have "e * Suc i \<le> B" unfolding ij(2) by (rule mult_le_mono2)
    then show ?thesis using ij(1) assms(4) by simp
  qed
qed

lemma position_dvd:
  assumes "int w = b * int B + int p" "e dvd B"
  shows "e dvd w \<longleftrightarrow> e dvd (p :: nat)"
proof -
  have "int e dvd int w \<longleftrightarrow> int e dvd int p"
    using assms by (simp add: dvd_add_right_iff)
  then show ?thesis by simp
qed

lemma put_struct_ok:
  assumes ok: "saa_ok s" and bs: "length bs = elem_len s"
  shows "if elem_len s dvd wptr s then \<exists>t. put_struct g s bs = Some t \<and> after_write s bs t
    else put_struct g s bs = None"
proof -
  let ?e = "elem_len s" and ?B = "blk_len s"
  have e: "0 < ?e" "?e dvd ?B" using ok by (simp_all add: saa_ok_def blocks_ok_def)
  have dv: "?e dvd wptr s \<longleftrightarrow> ?e dvd wpos s"
    by (rule position_dvd) (use ok e in \<open>auto simp: saa_ok_def write_ok_def\<close>)
  show ?thesis
  proof (cases "?e dvd wptr s")
    case False
    then have "wpos s mod ?e \<noteq> 0" using dv by (simp add: dvd_eq_mod_eq_0)
    then show ?thesis using False by (simp add: put_struct_def saa_wstruct_def)
  next
    case True
    then have d: "?e dvd wpos s" "wpos s mod ?e = 0" using dv by (simp_all add: dvd_eq_mod_eq_0)
    have room: "?B < wpos s + ?e \<longleftrightarrow> wpos s = ?B"
      by (rule dvd_room) (use d e ok in \<open>auto simp: saa_ok_def write_ok_def\<close>)
    define u where "u = (if wpos s = ?B then next_block g s else s)"
    have le: "saa_length s < wptr s + ?e \<longleftrightarrow> saa_length s \<le> wptr s" if full: "wpos s = ?B"
    proof -
      have "int (wptr s) = (wblk s + 1) * int ?B" using ok full by (simp add: saa_ok_def write_ok_def algebra_simps)
      then have "int (wptr s) = int (nat (wblk s + 1) * ?B)" using ok by (simp add: saa_ok_def write_ok_def)
      then have w: "wptr s = nat (wblk s + 1) * ?B" by (simp only: of_nat_eq_iff)
      have "?e \<le> ?B" using e ok by (auto simp: saa_ok_def blocks_ok_def dest: dvd_imp_le)
      moreover have "wptr s < saa_length s \<Longrightarrow> wptr s + ?B \<le> saa_length s"
        using ok mult_le_mono1 [of "nat (wblk s + 1) + 1" "nblks s" ?B] unfolding w
        by (simp add: saa_ok_def blocks_ok_def)
      ultimately show ?thesis using e(1) by linarith
    qed
    have uok: "saa_ok u" "content u = content s" "wptr u = wptr s" "same_reader s u" "wpos u + ?e \<le> blk_len u"
    proof -
      show "saa_ok u" "content u = content s" "wptr u = wptr s" "same_reader s u"
        using ok next_block_ok [OF ok, of g] by (auto simp: u_def same_reader_def)
      show "wpos u + ?e \<le> blk_len u"
        using room next_block_ok(4,5) [OF ok, of g] e ok dvd_imp_le [OF e(2)]
        by (auto simp: u_def same_reader_def saa_ok_def blocks_ok_def not_less)
    qed
    have ub: "elem_len u = ?e" using uok(4) by (simp add: same_reader_def)
    obtain t where t: "write_part u (Some bs) ?e = (t, map_option (drop ?e) (Some bs))" "after_write u (chunk (Some bs) ?e) t"
    proof -
      have fit: "?e \<le> blk_len u - wpos u" and en: "enough (Some bs) ?e" using uok(5) bs by (simp_all add: enough_def)
      show thesis using that write_part_ok [OF uok(1) e(1) fit en] by blast
    qed
    have "put_struct g s bs = Some t"
    proof -
      have "saa_wstruct g s = Some ((wblk u, wpos u), u\<lparr>wpos := wpos u + ?e, wptr := wptr u + ?e, datalen := max (datalen u) (wptr u + ?e)\<rparr>)"
        using d room le unfolding saa_wstruct_def Let_def
        by (auto simp: u_def next_block_def Let_def ub max_def)
      moreover have "t = u\<lparr>blk_ptrs := (blk_ptrs u)[nat (wblk u) := put_bytes (blk_ptrs u ! nat (wblk u)) (wpos u) bs],
        wpos := wpos u + ?e, wptr := wptr u + ?e, datalen := max (datalen u) (wptr u + ?e)\<rparr>"
        using t(1) bs by (auto simp: write_part_def store_bytes_def Let_def max_def split: if_splits)
      ultimately show ?thesis by (simp add: put_struct_def)
    qed
    moreover have "after_write s bs t"
      using t(2) uok bs same_reader_trans unfolding after_write_def by (simp add: chunk_def)
    ultimately show ?thesis using True by simp
  qed
qed

lemma get_struct_ok:
  assumes ok: "saa_ok s"
  shows "if datalen s < rptr s + elem_len s then get_struct s = Some ([], s)
    else if elem_len s dvd rptr s then
      \<exists>t. get_struct s = Some (take (elem_len s) (drop (rptr s) (content s)), t) \<and>
        saa_ok t \<and> same_writer s t \<and> rptr t = rptr s + elem_len s
    else get_struct s = None"
proof -
  let ?e = "elem_len s" and ?B = "blk_len s"
  have e: "0 < ?e" "?e dvd ?B" using ok by (simp_all add: saa_ok_def blocks_ok_def)
  have dv: "?e dvd rptr s \<longleftrightarrow> ?e dvd rpos s"
    by (rule position_dvd) (use ok e in \<open>auto simp: saa_ok_def read_ok_def\<close>)
  consider (eoa) "datalen s < rptr s + ?e" | (bad) "\<not> datalen s < rptr s + ?e" "\<not> ?e dvd rptr s"
    | (good) "\<not> datalen s < rptr s + ?e" "?e dvd rptr s" by blast
  then show ?thesis
  proof cases
    case eoa
    then show ?thesis by (simp add: get_struct_def saa_rstruct_def)
  next
    case bad
    then have "rpos s mod ?e \<noteq> 0" using dv by (simp add: dvd_eq_mod_eq_0)
    then show ?thesis using bad by (simp add: get_struct_def saa_rstruct_def)
  next
    case good
    then have d: "?e dvd rpos s" "rpos s mod ?e = 0" using dv by (simp_all add: dvd_eq_mod_eq_0)
    have room: "?B < rpos s + ?e \<longleftrightarrow> rpos s = ?B"
      by (rule dvd_room) (use d e ok in \<open>auto simp: saa_ok_def read_ok_def\<close>)
    have "rptr s < datalen s" using good e by linarith
    then obtain p l t where "saa_rbytes s ?e = (Some p, l, t)" "0 < l" "l \<le> ?e" "rptr s + l \<le> datalen s"
      "take l p = take l (drop (rptr s) (content s))" "same_writer s t" "saa_ok t" "rptr t = rptr s + l"
      by (rule rbytes_ok [OF ok _ e(1)])
    note r = this(1,4-8)
    have eB: "?e \<le> ?B" using e ok by (auto simp: saa_ok_def blocks_ok_def dest: dvd_imp_le)
    have rB: "rpos s \<le> ?B" using ok by (simp add: saa_ok_def read_ok_def)
    have g: "l = ?e \<and> get_struct s = Some (take ?e p, t)"
    proof (cases "rpos s = ?B")
      case True
      then show ?thesis using r(1) good(1) d(2) room eB e
        by (auto simp: get_struct_def saa_rstruct_def saa_rbytes_def Let_def split: if_splits)
    next
      case False
      then have "rpos s + ?e \<le> ?B" "rpos s < ?B" using room rB by auto
      then show ?thesis using r(1) good(1) d(2) e False
        by (auto simp: get_struct_def saa_rstruct_def saa_rbytes_def Let_def split: if_splits)
    qed
    then have gs: "get_struct s = Some (take ?e (drop (rptr s) (content s)), t)" using r(3) by simp
    show ?thesis using good gs r(4-6) g by auto
  qed
qed

section \<open>Refinement of a byte string with two positions\<close>

datatype saa_op =
    Write "u8 list option" nat
  | Write_string "u8 list"
  | Write_struct "u8 list"
  | Write_at nat "u8 list option" nat
  | Write16 u16
  | Write32 u32
  | Write64 u64
  | Write_addr u64 nat
  | Rewind
  | Read nat
  | Read_at nat nat
  | Read_struct
  | Dump

definition silent :: "saa option \<Rightarrow> (u8 list \<times> saa) option" where
  "silent r = map_option (\<lambda>s. ([], s)) r"

fun saa_exec :: "(nat \<Rightarrow> u8) \<Rightarrow> saa \<Rightarrow> saa_op \<Rightarrow> (u8 list \<times> saa) option" where
  "saa_exec g s (Write d n) = silent (saa_wbytes g s d n)"
| "saa_exec g s (Write_string str) = silent (map_option snd (saa_wcstring g s str))"
| "saa_exec g s (Write_struct bs) = silent (put_struct g s bs)"
| "saa_exec g s (Write_at p d n) = silent (saa_fwrite g s p d n)"
| "saa_exec g s (Write16 v) = silent (saa_write16 g s v)"
| "saa_exec g s (Write32 v) = silent (saa_write32 g s v)"
| "saa_exec g s (Write64 v) = silent (saa_write64 g s v)"
| "saa_exec g s (Write_addr v n) = silent (saa_writeaddr g s v n)"
| "saa_exec g s Rewind = Some ([], saa_rewind s)"
| "saa_exec g s (Read n) = saa_rnbytes s n"
| "saa_exec g s (Read_at p n) = saa_fread s p n"
| "saa_exec g s Read_struct = get_struct s"
| "saa_exec g s Dump = saa_fpwrite s []"

fun saa_run :: "(nat \<Rightarrow> u8) \<Rightarrow> saa \<Rightarrow> saa_op list \<Rightarrow> u8 list list option" where
  "saa_run g s [] = Some []"
| "saa_run g s (c # cs) = (case saa_exec g s c of
     None \<Rightarrow> None
   | Some (out, s) \<Rightarrow> map_option (\<lambda>outs. out # outs) (saa_run g s cs))"

text \<open>The specification: the bytes, the writing position and the reading position.\<close>

definition le_bytes :: "nat \<Rightarrow> u64 \<Rightarrow> u8 list" where
  "le_bytes n v = map (\<lambda>i. ucast (drop_bit (8 * i) v)) [0..<n]"

type_synonym bfile = "u8 list \<times> nat \<times> nat"

fun spec_write :: "u8 list \<Rightarrow> bfile \<Rightarrow> (u8 list \<times> bfile) option" where
  "spec_write bs (xs, w, r) = Some ([], put_bytes xs w bs, w + length bs, r)"

fun spec_read :: "nat \<Rightarrow> bfile \<Rightarrow> (u8 list \<times> bfile) option" where
  "spec_read n (xs, w, r) = (if r + n \<le> length xs then Some (take n (drop r xs), xs, w, r + n) else None)"

fun file_exec :: "nat \<Rightarrow> bfile \<Rightarrow> saa_op \<Rightarrow> (u8 list \<times> bfile) option" where
  "file_exec e f (Write d n) = spec_write (chunk d n) f"
| "file_exec e f (Write_string str) = spec_write (cstr str @ [0]) f"
| "file_exec e (xs, w, r) (Write_struct bs) = (if e dvd w then spec_write bs (xs, w, r) else None)"
| "file_exec e (xs, w, r) (Write_at p d n) = (if p \<le> length xs then spec_write (chunk d n) (xs, p, r) else None)"
| "file_exec e f (Write16 v) = spec_write (le_bytes 2 (ucast v)) f"
| "file_exec e f (Write32 v) = spec_write (le_bytes 4 (ucast v)) f"
| "file_exec e f (Write64 v) = spec_write (le_bytes 8 v) f"
| "file_exec e f (Write_addr v n) = spec_write (le_bytes n v) f"
| "file_exec e (xs, w, r) Rewind = Some ([], xs, w, 0)"
| "file_exec e f (Read n) = spec_read n f"
| "file_exec e (xs, w, r) (Read_at p n) = spec_read n (xs, w, p)"
| "file_exec e (xs, w, r) Read_struct =
    (if length xs < r + e then Some ([], xs, w, r) else if e dvd r then spec_read e (xs, w, r) else None)"
| "file_exec e (xs, w, r) Dump = Some (xs, xs, w, length xs)"

fun file_run :: "nat \<Rightarrow> bfile \<Rightarrow> saa_op list \<Rightarrow> u8 list list option" where
  "file_run e f [] = Some []"
| "file_run e f (c # cs) = (case file_exec e f c of
     None \<Rightarrow> None
   | Some (out, f) \<Rightarrow> map_option (\<lambda>outs. out # outs) (file_run e f cs))"

text \<open>The callers' side of the interface: buffers and structures are as long as they say.\<close>

fun op_ok :: "nat \<Rightarrow> saa_op \<Rightarrow> bool" where
  "op_ok e (Write d n) = enough d n"
| "op_ok e (Write_at p d n) = enough d n"
| "op_ok e (Write_struct bs) = (length bs = e)"
| "op_ok e (Write_addr v n) = (n \<le> 8)"
| "op_ok e _ = True"

definition represents :: "saa \<Rightarrow> bfile \<Rightarrow> bool" where
  "represents s f \<longleftrightarrow> saa_ok s \<and> f = (content s, wptr s, rptr s)"

definition agrees :: "nat \<Rightarrow> (u8 list \<times> saa) option \<Rightarrow> (u8 list \<times> bfile) option \<Rightarrow> bool" where
  "agrees e c a \<longleftrightarrow> (case a of None \<Rightarrow> c = None
     | Some (out, f) \<Rightarrow> (\<exists>t. c = Some (out, t) \<and> represents t f \<and> elem_len t = e))"

lemma after_write_agrees:
  assumes "\<exists>t. r = Some t \<and> after_write s bs t" "saa_ok s"
  shows "agrees (elem_len s) (silent r) (spec_write bs (content s, wptr s, rptr s))"
  using assms by (auto simp: agrees_def silent_def represents_def after_write_def same_reader_def)

lemma wbytes_agrees:
  "saa_ok s \<Longrightarrow> enough d n \<Longrightarrow>
   agrees (elem_len s) (silent (saa_wbytes g s d n)) (spec_write (chunk d n) (content s, wptr s, rptr s))"
  by (rule after_write_agrees [OF wbytes_ok])

lemma value_agrees:
  "saa_ok s \<Longrightarrow> n \<le> length bs \<Longrightarrow> take n bs = le_bytes n v \<Longrightarrow>
   agrees (elem_len s) (silent (saa_wbytes g s (Some bs) n)) (spec_write (le_bytes n v) (content s, wptr s, rptr s))"
  using wbytes_agrees [of s "Some bs" n g] by (simp add: enough_def chunk_def)

lemma eight_bytes: "le_bytes 8 v = [ucast v, ucast (drop_bit 8 v), ucast (drop_bit 16 v), ucast (drop_bit 24 v),
      ucast (drop_bit 32 v), ucast (drop_bit 40 v), ucast (drop_bit 48 v), ucast (drop_bit 56 v)]"
proof -
  have "[0..<8::nat] = [0, 1, 2, 3, 4, 5, 6, 7]" by code_simp
  then show ?thesis by (simp add: le_bytes_def)
qed

lemma take_le_bytes: "n \<le> m \<Longrightarrow> take n (le_bytes m v) = le_bytes n v"
  by (simp add: le_bytes_def take_map)

lemma seek_write_ok:
  assumes ok: "saa_ok s" and p: "p \<le> datalen s"
  obtains t where "saa_ok t" "content t = content s" "wptr t = p" "same_reader s t"
    "saa_fwrite g s p d n = saa_wbytes g t d n"
proof -
  let ?B = "blk_len s"
  have B: "0 < ?B" and len: "datalen s \<le> nblks s * ?B" using ok by (simp_all add: saa_ok_def blocks_ok_def)
  define t where "t = (if p mod ?B = 0 then s\<lparr>wptr := p, wpos := ?B, wblk := int (p div ?B) - 1\<rparr>
    else s\<lparr>wpos := p mod ?B, wptr := p, wblk := int (p div ?B)\<rparr>)"
  have split: "int p = int (p div ?B) * int ?B + int (p mod ?B)"
    by (simp flip: of_nat_mult of_nat_add)
  have "write_ok t"
  proof (cases "p mod ?B = 0")
    case True
    have "p div ?B \<le> nblks s" using p len B div_le_mono [of p "nblks s * ?B" ?B] by simp
    then show ?thesis using True p B split by (simp add: t_def write_ok_def algebra_simps)
  next
    case False
    have "p div ?B * ?B < nblks s * ?B" using p len False div_mult_mod_eq [of p ?B] by linarith
    then have "p div ?B < nblks s" by simp
    then show ?thesis using False p B split by (simp add: t_def write_ok_def mod_less_divisor less_imp_le)
  qed
  moreover have "blocks_ok t" "read_ok t" using ok by (auto simp: t_def saa_ok_def blocks_ok_def read_ok_def)
  ultimately have "saa_ok t" by (simp add: saa_ok_def)
  moreover have "saa_fwrite g s p d n = saa_wbytes g t d n"
    using p by (simp add: saa_fwrite_def seek_ok t_def Let_def)
  ultimately show thesis using that by (simp add: t_def content_def same_reader_def)
qed

lemma read_agrees:
  assumes ok: "saa_ok t" and w: "same_writer s t"
  shows "agrees (elem_len s) (saa_rnbytes t n) (spec_read n (content s, wptr s, rptr t))"
proof -
  have c: "content t = content s" "length (content s) = datalen t" "wptr t = wptr s" "elem_len t = elem_len s"
    using w ok length_content [of t] same_writer_content [OF w] by (simp_all add: same_writer_def saa_ok_def)
  show ?thesis
  proof (cases "rptr t + n \<le> datalen t")
    case True
    then obtain u where "saa_rnbytes t n = Some (take n (drop (rptr t) (content t)), u)" "saa_ok u" "same_writer t u"
      "rptr u = rptr t + n"
      using rnbytes_loop_ok [OF ok True, of "[]"] by (auto simp: saa_rnbytes_def)
    then show ?thesis using True c same_writer_content [of t u]
      by (auto simp: agrees_def represents_def same_writer_def)
  next
    case False
    then show ?thesis using c by (simp add: agrees_def saa_rnbytes_def)
  qed
qed

lemma seek_read_ok:
  assumes ok: "saa_ok s" and p: "p \<le> datalen s"
  shows "saa_ok (s\<lparr>rpos := p mod blk_len s, rptr := p, rblk := int (p div blk_len s)\<rparr>)"
proof -
  let ?B = "blk_len s"
  have B: "0 < ?B" and len: "datalen s \<le> nblks s * ?B" using ok by (simp_all add: saa_ok_def blocks_ok_def)
  have "p div ?B \<le> nblks s" using p len B div_le_mono [of p "nblks s * ?B" ?B] by simp
  moreover have "int p = int (p div ?B) * int ?B + int (p mod ?B)" by (simp flip: of_nat_mult of_nat_add)
  ultimately have "read_ok (s\<lparr>rpos := p mod ?B, rptr := p, rblk := int (p div ?B)\<rparr>)"
    using p B by (simp add: read_ok_def less_imp_le)
  then show ?thesis using ok by (simp add: saa_ok_def blocks_ok_def write_ok_def)
qed

lemma byte_of_16: "(ucast (drop_bit k (ucast (v :: u16) :: u64)) :: u8) = ucast (drop_bit k v)"
  by (rule bit_word_eqI) (auto simp: bit_simps dest: bit_imp_le_length)

lemma byte_of_32: "(ucast (drop_bit k (ucast (v :: u32) :: u64)) :: u8) = ucast (drop_bit k v)"
  by (rule bit_word_eqI) (auto simp: bit_simps dest: bit_imp_le_length)

lemma two_bytes: "le_bytes 2 (ucast (v :: u16)) = [ucast v, ucast (drop_bit 8 v)]"
  using byte_of_16 [of 0 v] by (simp add: le_bytes_def numeral_2_eq_2 byte_of_16)

lemma four_bytes: "le_bytes 4 (ucast (v :: u32)) = [ucast v, ucast (drop_bit 8 v), ucast (drop_bit 16 v), ucast (drop_bit 24 v)]"
proof -
  have "[0..<4::nat] = [0, 1, 2, 3]" by code_simp
  then show ?thesis using byte_of_32 [of 0 v] by (simp add: le_bytes_def byte_of_32)
qed

lemma exec_agrees:
  assumes s: "represents s f" and op: "op_ok (elem_len s) c"
  shows "agrees (elem_len s) (saa_exec g s c) (file_exec (elem_len s) f c)"
proof -
  have ok: "saa_ok s" and f: "f = (content s, wptr s, rptr s)" using s by (simp_all add: represents_def)
  have len: "length (content s) = datalen s" using ok by (simp add: saa_ok_def length_content)
  have self: "same_writer s s" by (simp add: same_writer_def)
  show ?thesis
  proof (cases c)
    case (Write d n)
    then show ?thesis using wbytes_agrees [OF ok] op by (simp add: f)
  next
    case (Write_string str)
    have "enough (Some (cstr str @ [0])) (length (cstr str) + 1)" by (simp add: enough_def)
    from wbytes_agrees [OF ok this, of g] show ?thesis
      by (simp add: Write_string f saa_wcstring_def Let_def option.map_comp o_def option.map_ident chunk_def)
  next
    case (Write_struct bs)
    then have b: "length bs = elem_len s" using op by simp
    show ?thesis
    proof (cases "elem_len s dvd wptr s")
      case True
      then show ?thesis using put_struct_ok [OF ok b, of g] after_write_agrees [OF _ ok] by (simp add: Write_struct f)
    next
      case False
      then show ?thesis using put_struct_ok [OF ok b, of g] by (simp add: Write_struct f agrees_def silent_def)
    qed
  next
    case (Write_at p d n)
    show ?thesis
    proof (cases "p \<le> datalen s")
      case True
      then obtain t where t: "saa_ok t" "content t = content s" "wptr t = p" "same_reader s t"
        "saa_fwrite g s p d n = saa_wbytes g t d n"
        by (rule seek_write_ok [OF ok])
      have "agrees (elem_len t) (silent (saa_wbytes g t d n)) (spec_write (chunk d n) (content t, wptr t, rptr t))"
        by (rule wbytes_agrees [OF t(1)]) (use op Write_at in simp)
      then show ?thesis using t True by (simp add: Write_at f len same_reader_def)
    next
      case False
      then show ?thesis by (simp add: Write_at f len agrees_def silent_def saa_fwrite_def)
    qed
  next
    case (Write16 v)
    then show ?thesis using value_agrees [OF ok, of 2 "le_bytes 2 (ucast v)" "ucast v" g]
      by (simp add: f saa_write16_def two_bytes [symmetric] le_bytes_def)
  next
    case (Write32 v)
    then show ?thesis using value_agrees [OF ok, of 4 "le_bytes 4 (ucast v)" "ucast v" g]
      by (simp add: f saa_write32_def four_bytes [symmetric] le_bytes_def)
  next
    case (Write64 v)
    then show ?thesis using value_agrees [OF ok, of 8 "le_bytes 8 v" v g]
      by (simp add: f saa_write64_def eight_bytes [symmetric] le_bytes_def)
  next
    case (Write_addr v n)
    then show ?thesis using value_agrees [OF ok, of n "le_bytes 8 v" v g] op take_le_bytes [of n 8 v]
      by (simp add: f saa_writeaddr_def eight_bytes [symmetric] le_bytes_def)
  next
    case Rewind
    then show ?thesis using rewind_ok [OF ok] same_writer_content [of s "saa_rewind s"]
      by (auto simp: f agrees_def represents_def same_writer_def)
  next
    case (Read n)
    then show ?thesis using read_agrees [OF ok self, of n] by (simp add: f)
  next
    case (Read_at p n)
    show ?thesis
    proof (cases "p + n \<le> datalen s")
      case True
      let ?t = "s\<lparr>rpos := p mod blk_len s, rptr := p, rblk := int (p div blk_len s)\<rparr>"
      have "saa_ok ?t" using True by (intro seek_read_ok ok) simp
      moreover have "same_writer s ?t" by (simp add: same_writer_def)
      ultimately have "agrees (elem_len s) (saa_rnbytes ?t n) (spec_read n (content s, wptr s, rptr ?t))"
        by (rule read_agrees)
      then show ?thesis using True by (simp add: Read_at f saa_fread_def seek_ok Let_def)
    next
      case False
      then show ?thesis by (simp add: Read_at f agrees_def saa_fread_def len)
    qed
  next
    case Read_struct
    note g = get_struct_ok [OF ok]
    consider "datalen s < rptr s + elem_len s" | "\<not> datalen s < rptr s + elem_len s" "\<not> elem_len s dvd rptr s"
      | "\<not> datalen s < rptr s + elem_len s" "elem_len s dvd rptr s" by blast
    then show ?thesis
    proof cases
      case 1
      then show ?thesis using g ok by (simp add: Read_struct f agrees_def represents_def len)
    next
      case 2
      then show ?thesis using g by (simp add: Read_struct f agrees_def len)
    next
      case 3
      then obtain t where t: "get_struct s = Some (take (elem_len s) (drop (rptr s) (content s)), t)" "saa_ok t"
        "same_writer s t" "rptr t = rptr s + elem_len s" using g by auto
      then show ?thesis using 3 same_writer_content [OF t(3)]
        by (simp add: Read_struct f agrees_def represents_def len same_writer_def)
    qed
  next
    case Dump
    obtain t where "saa_fpwrite s [] = Some (drop 0 (content (saa_rewind s)), t)" "saa_ok t" "same_writer (saa_rewind s) t"
      "rptr t = datalen s"
      using fpwrite_loop_ok [of "saa_rewind s" "[]"] rewind_ok [OF ok]
      by (auto simp: saa_fpwrite_def same_writer_def)
    moreover have "content (saa_rewind s) = content s" "same_writer s (saa_rewind s)"
      using rewind_ok [OF ok] same_writer_content by blast+
    moreover then have "same_writer s t" using calculation(3) by (blast intro: same_writer_trans)
    moreover then have "content t = content s" by (rule same_writer_content)
    ultimately show ?thesis by (simp add: Dump f agrees_def represents_def len same_writer_def)
  qed
qed

lemma run_agrees:
  "represents s f \<Longrightarrow> list_all (op_ok (elem_len s)) cs \<Longrightarrow> saa_run g s cs = file_run (elem_len s) f cs"
proof (induction cs arbitrary: s f)
  case (Cons c cs)
  have a: "agrees (elem_len s) (saa_exec g s c) (file_exec (elem_len s) f c)"
    using Cons.prems by (intro exec_agrees) simp_all
  show ?case
  proof (cases "file_exec (elem_len s) f c")
    case None
    then show ?thesis using a by (simp add: agrees_def)
  next
    case (Some r)
    then obtain out f' where r: "file_exec (elem_len s) f c = Some (out, f')" by (cases r) auto
    then obtain t where t: "saa_exec g s c = Some (out, t)" "represents t f'" "elem_len t = elem_len s"
      using a by (auto simp: agrees_def)
    then show ?thesis using Cons.IH [OF t(2)] Cons.prems(2) r by simp
  qed
qed simp

lemma init_represents:
  assumes "0 < n"
  shows "represents (saa_init g n) ([], 0, 0)" "elem_len (saa_init g n) = n"
proof -
  let ?bl = "if SAA_BLKLEN \<le> n then n else SAA_BLKLEN - SAA_BLKLEN mod n"
  have "n dvd ?bl" by (simp add: dvd_minus_mod)
  moreover have "0 < ?bl"
  proof (cases "SAA_BLKLEN \<le> n")
    case False
    then have "SAA_BLKLEN mod n < SAA_BLKLEN" using assms by (meson mod_less_divisor not_le order.strict_trans)
    then show ?thesis by simp
  qed (use assms in simp)
  ultimately show "represents (saa_init g n) ([], 0, 0)" "elem_len (saa_init g n) = n"
    using assms by (simp_all add: represents_def saa_init_def Let_def saa_ok_def blocks_ok_def write_ok_def read_ok_def
        content_def fresh_def)
qed

section \<open>Properties\<close>

text \<open>
  C33: the sequential access array implements a byte string with a writing and a reading position.
  Any sequence of its operations (bytes, zeros, strings, structures and values appended or written
  at a position, reads from the reading position or a given one, reads of whole structures,
  rewinding, and the dump to a file) gives, on the blocks, the outputs that it gives on the byte
  string, whatever the size of the elements and the contents of fresh memory; and an assertion of
  the code fails exactly where the string operation is out of range or misaligned. In particular
  all loops end and no access leaves its block.
\<close>
lemma saa_correct:
  assumes "0 < n" and "list_all (op_ok n) ops"
  shows "saa_run g (saa_init g n) ops = file_run n ([], 0, 0) ops"
  using run_agrees [of "saa_init g n" "([], 0, 0)" ops g] init_represents [OF assms(1), of g] assms(2) by simp

lemma saa_correct_witness:
  "saa_run (\<lambda>_. 7) (saa_init (\<lambda>_. 7) 1) [Write (Some [1, 2, 3]) 3, Write_at 1 (Some [9]) 1, Write16 0x0504, Read 4, Rewind, Dump, Read 1]
   = None \<and>
   saa_run (\<lambda>_. 7) (saa_init (\<lambda>_. 7) 4) [Write_struct [1, 2, 3, 4], Write32 5, Read_struct, Read_at 2 4, Dump]
   = Some [[], [], [1, 2, 3, 4], [3, 4, 5, 0], [1, 2, 3, 4, 5, 0, 0, 0]]"
proof -
  have "file_run 1 ([], 0, 0) [Write (Some [1, 2, 3]) 3, Write_at 1 (Some [9]) 1, Write16 0x0504, Read 4, Rewind, Dump, Read 1] = None"
    "file_run 4 ([], 0, 0) [Write_struct [1, 2, 3, 4], Write32 5, Read_struct, Read_at 2 4, Dump]
     = Some [[], [], [1, 2, 3, 4], [3, 4, 5, 0], [1, 2, 3, 4, 5, 0, 0, 0]]"
    by code_simp+
  then show ?thesis
    using saa_correct [of 1 "[Write (Some [1, 2, 3]) 3, Write_at 1 (Some [9]) 1, Write16 0x0504, Read 4, Rewind, Dump, Read 1]" "\<lambda>_. 7"]
      saa_correct [of 4 "[Write_struct [1, 2, 3, 4], Write32 5, Read_struct, Read_at 2 4, Dump]" "\<lambda>_. 7"]
    by (simp add: enough_def)
qed

end
