(* ===== verification/Leb128.thy ===== *)
theory Leb128
  imports Saa
begin

text \<open>
  The LEB128 writers of \<open>nasmlib/saa.c\<close>, which the DWARF output uses, on the array of \<open>Saa\<close>. The
  reference is the decoder of the format. \<open>None\<close> is a write over the end of the buffer \<open>temp\<close>.
\<close>

unbundle bit_operations_syntax

section \<open>LEB128\<close>

text \<open>\<open>temp\<close> has room for 64 bytes; \<open>value\<close> is an \<open>int\<close>, and \<open>>>\<close> keeps its sign.\<close>

function wleb128u_loop :: "int \<Rightarrow> u8 list \<Rightarrow> u8 list option" where
  "wleb128u_loop value temp =
    (let byte = of_int (value AND 127) :: u8;
         value = drop_bit 7 value;
         byte = (if value \<noteq> 0 then byte OR 0x80 else byte)
     in if 64 \<le> length temp then None
        else if value \<noteq> 0 then wleb128u_loop value (temp @ [byte])
        else Some (temp @ [byte]))"
  by pat_completeness auto
termination by (relation "measure (\<lambda>(value, temp). 64 - length temp)") auto

definition saa_wleb128u :: "(nat \<Rightarrow> u8) \<Rightarrow> saa \<Rightarrow> int \<Rightarrow> saa option" where
  "saa_wleb128u g s value =
    Option.bind (wleb128u_loop value []) (\<lambda>temp. saa_wbytes g s (Some temp) (length temp))"

function wleb128s_loop :: "bool \<Rightarrow> int \<Rightarrow> u8 list \<Rightarrow> u8 list option" where
  "wleb128s_loop negative value temp =
    (let byte = of_int (value AND 0x7f) :: u8;
         value = drop_bit 7 value;
         value = (if negative then value OR - push_bit (4 * 8 - 7) 1 else value);
         fin = (value = 0 \<and> \<not> byte AND 0x40 \<noteq> 0 \<or> value = -1 \<and> byte AND 0x40 \<noteq> 0);
         byte = (if fin then byte else byte OR 0x80)
     in if 64 \<le> length temp then None
        else if fin then Some (temp @ [byte])
        else wleb128s_loop negative value (temp @ [byte]))"
  by pat_completeness auto
termination by (relation "measure (\<lambda>(negative, value, temp). 64 - length temp)") auto

definition saa_wleb128s :: "(nat \<Rightarrow> u8) \<Rightarrow> saa \<Rightarrow> int \<Rightarrow> saa option" where
  "saa_wleb128s g s value =
    Option.bind (wleb128s_loop (value < 0) value []) (\<lambda>temp. saa_wbytes g s (Some temp) (length temp))"

declare wleb128u_loop.simps [simp del] wleb128s_loop.simps [simp del]

section \<open>Decoding LEB128\<close>

fun uleb_decode :: "u8 list \<Rightarrow> (int \<times> u8 list) option" where
  "uleb_decode [] = None"
| "uleb_decode (b # bs) =
    (if b < 128 then Some (uint b, bs)
     else map_option (\<lambda>(v, r). (uint b - 128 + 128 * v, r)) (uleb_decode bs))"

fun sleb_decode :: "u8 list \<Rightarrow> (int \<times> u8 list) option" where
  "sleb_decode [] = None"
| "sleb_decode (b # bs) =
    (if b < 64 then Some (uint b, bs)
     else if b < 128 then Some (uint b - 128, bs)
     else map_option (\<lambda>(v, r). (uint b - 128 + 128 * v, r)) (sleb_decode bs))"

lemma leb_byte:
  fixes v :: int
  defines "byte \<equiv> of_int (v AND 127) :: u8"
  shows "uint byte = v mod 128" "uint (byte OR 0x80) = v mod 128 + 128" "byte AND 0x40 \<noteq> 0 \<longleftrightarrow> 64 \<le> v mod 128"
proof -
  define n where "n = nat (v mod 128)"
  have a: "v AND 127 = v mod 128"
    using take_bit_eq_mask [of 7 v] by (simp add: take_bit_eq_mod mask_eq_exp_minus_1)
  have n: "v mod 128 = int n" "n < 128" by (simp_all add: n_def)
  have "list_all (\<lambda>n. uint (of_nat n :: u8) = int n \<and> uint ((of_nat n :: u8) OR 0x80) = int n + 128 \<and>
     ((of_nat n :: u8) AND 0x40 \<noteq> 0 \<longleftrightarrow> 64 \<le> n)) [0..<128]"
    by code_simp
  then have f: "uint (of_nat n :: u8) = int n \<and> uint ((of_nat n :: u8) OR 0x80) = int n + 128 \<and>
     ((of_nat n :: u8) AND 0x40 \<noteq> 0 \<longleftrightarrow> 64 \<le> n)"
    using n(2) unfolding list_all_iff by simp
  have b: "byte = of_nat n" by (simp add: byte_def a n(1))
  show "uint byte = v mod 128" "uint (byte OR 0x80) = v mod 128 + 128" "byte AND 0x40 \<noteq> 0 \<longleftrightarrow> 64 \<le> v mod 128"
    using f unfolding b n(1) by auto
qed

lemma u8_less: "b < 128 \<longleftrightarrow> uint (b :: u8) < 128" "b < 64 \<longleftrightarrow> uint b < 64"
  by (simp_all add: word_less_def)

lemma div_128: "v < 128 * m \<Longrightarrow> v div 128 < m" "- (128 * m) \<le> v \<Longrightarrow> - m \<le> v div 128" "v div 128 < 0 \<longleftrightarrow> v < 0"
  for v m :: int
  using div_mult_mod_eq [of v 128] pos_mod_sign [of 128 v] pos_mod_bound [of 128 v] by linarith+

lemma mod_128: "\<not> v mod 128 < 0" "\<not> 64 + v mod 128 < 0" for v :: int
  using pos_mod_sign [of 128 v] by linarith+

lemma wleb128u_ok:
  "0 \<le> v \<Longrightarrow> v < 128 ^ Suc k \<Longrightarrow> length temp + Suc k \<le> 64 \<Longrightarrow>
   \<exists>bs. wleb128u_loop v temp = Some (temp @ bs) \<and> length bs \<le> Suc k \<and> uleb_decode (bs @ rest) = Some (v, rest)"
proof (induction k arbitrary: v temp)
  case 0
  then have "v div 128 = 0" "v mod 128 = v" by simp_all
  then show ?case using 0 leb_byte(1) [of v]
    by (intro exI [of _ "[of_int (v AND 127)]"]) (simp add: wleb128u_loop.simps [of v temp] drop_bit_eq_div Let_def u8_less)
next
  case (Suc k)
  let ?b = "of_int (v AND 127) :: u8"
  show ?case
  proof (cases "v div 128 = 0")
    case True
    then have "v < 128" using Suc.prems(1) by (auto simp: zdiv_eq_0_iff)
    moreover then have "v mod 128 = v" using Suc.prems(1) by simp
    ultimately show ?thesis using Suc.prems(3) True leb_byte(1) [of v]
      by (intro exI [of _ "[?b]"]) (simp add: wleb128u_loop.simps [of v temp] drop_bit_eq_div Let_def u8_less)
  next
    case False
    have "0 \<le> v div 128" "v div 128 < 128 ^ Suc k"
      using Suc.prems(1,2) div_128(1) [of v "128 ^ Suc k"] by simp_all
    then obtain bs where bs: "wleb128u_loop (v div 128) (temp @ [?b OR 0x80]) = Some ((temp @ [?b OR 0x80]) @ bs)"
      "length bs \<le> Suc k" "uleb_decode (bs @ rest) = Some (v div 128, rest)"
      using Suc.IH [of "v div 128" "temp @ [?b OR 0x80]"] Suc.prems(3) by auto
    have "wleb128u_loop v temp = wleb128u_loop (v div 128) (temp @ [?b OR 0x80])"
      using False Suc.prems(3) by (simp add: wleb128u_loop.simps [of v temp] drop_bit_eq_div Let_def)
    moreover have "uleb_decode ((?b OR 0x80) # bs @ rest) = Some (v, rest)"
      using bs(3) leb_byte(2) [of v] by (simp add: u8_less mod_128)
    ultimately show ?thesis using bs by (intro exI [of _ "(?b OR 0x80) # bs"]) simp
  qed
qed

lemma wleb128u_negative: "v < 0 \<Longrightarrow> wleb128u_loop v temp = None"
proof (induction v temp rule: wleb128u_loop.induct)
  case (1 v temp)
  have "drop_bit 7 v \<noteq> 0" using 1(2) by (simp add: drop_bit_eq_div zdiv_eq_0_iff)
  then show ?case using 1 by (simp add: wleb128u_loop.simps [of v temp] Let_def)
qed

lemma sign_extend_id:
  assumes "- (2 ^ 25) \<le> (x :: int)" "x < 0"
  shows "x OR - push_bit (4 * 8 - 7) 1 = x"
proof -
  have m: "- push_bit (4 * 8 - 7) (1 :: int) = NOT (mask 25)"
    by (simp add: not_eq_complement mask_eq_exp_minus_1 push_bit_eq_mult)
  have "NOT x AND mask 25 = NOT x"
    using assms take_bit_int_eq_self [of "NOT x" 25] by (simp add: take_bit_eq_mask [symmetric] not_eq_complement)
  then have "NOT (NOT x AND mask 25) = x" by simp
  then show ?thesis unfolding m by (simp add: bit.de_Morgan_conj)
qed

lemma sleb_step:
  fixes v :: int
  defines "b \<equiv> of_int (v AND 127) :: u8"
  assumes "- (2 ^ 31) \<le> v" "length temp < 64"
  shows "wleb128s_loop (v < 0) v temp =
    (if -64 \<le> v \<and> v < 64 then Some (temp @ [b])
     else wleb128s_loop (v div 128 < 0) (v div 128) (temp @ [b OR 0x80]))"
proof -
  have ext: "(if v < 0 then (v div 128) OR - push_bit (4 * 8 - 7) 1 else v div 128) = v div 128"
  proof (cases "v < 0")
    case True
    have "v div 128 < 0" using True div_128(3) [of v] by simp
    moreover have "- (2 ^ 25) \<le> v div 128" using assms(2) by simp
    ultimately show ?thesis using True sign_extend_id by simp
  qed simp
  note neg = div_128(3) [of v]
  have fin: "(v div 128 = 0 \<and> \<not> b AND 0x40 \<noteq> 0 \<or> v div 128 = -1 \<and> b AND 0x40 \<noteq> 0) \<longleftrightarrow> -64 \<le> v \<and> v < 64"
    unfolding leb_byte(3) b_def by presburger
  have "drop_bit 7 v = v div 128" by (simp add: drop_bit_eq_div)
  then show ?thesis
    unfolding wleb128s_loop.simps [of "v < 0" v temp] Let_def neg by (simp only: ext b_def [symmetric] fin) (use assms(3) in simp)
qed

lemma sleb_decode_fin:
  assumes "-64 \<le> v" "v < 64"
  shows "sleb_decode (of_int (v AND 127) # rest) = Some (v, rest)"
proof (cases "0 \<le> v")
  case True
  then have "v mod 128 = v" using assms by simp
  then show ?thesis using assms leb_byte(1) [of v] True by (simp add: u8_less)
next
  case False
  then have "v mod 128 = v + 128" using assms by presburger
  then show ?thesis using assms leb_byte(1) [of v] False by (simp add: u8_less)
qed

lemma wleb128s_ok:
  "- (64 * 128 ^ k) \<le> v \<Longrightarrow> v < 64 * 128 ^ k \<Longrightarrow> - (2 ^ 31) \<le> v \<Longrightarrow> length temp + Suc k \<le> 64 \<Longrightarrow>
   \<exists>bs. wleb128s_loop (v < 0) v temp = Some (temp @ bs) \<and> sleb_decode (bs @ rest) = Some (v, rest)"
proof (induction k arbitrary: v temp)
  case 0
  then show ?case using sleb_step [of v temp] sleb_decode_fin [of v rest] by auto
next
  case (Suc k)
  let ?b = "of_int (v AND 127) :: u8"
  show ?case
  proof (cases "-64 \<le> v \<and> v < 64")
    case True
    then show ?thesis using Suc.prems sleb_step [of v temp] sleb_decode_fin [of v rest] by auto
  next
    case False
    have "- (64 * 128 ^ k) \<le> v div 128" "v div 128 < 64 * 128 ^ k" "- (2 ^ 31) \<le> v div 128"
      using Suc.prems(1-3) div_128(1) [of v "64 * 128 ^ k"] div_128(2) [of "64 * 128 ^ k" v] by simp_all
    then obtain bs where bs: "wleb128s_loop (v div 128 < 0) (v div 128) (temp @ [?b OR 0x80]) = Some ((temp @ [?b OR 0x80]) @ bs)"
      "sleb_decode (bs @ rest) = Some (v div 128, rest)"
      using Suc.IH [of "v div 128" "temp @ [?b OR 0x80]"] Suc.prems(4) by auto
    have "sleb_decode ((?b OR 0x80) # bs @ rest) = Some (v, rest)"
      using bs(2) leb_byte(2) [of v] by (simp add: u8_less mod_128)
    moreover have "wleb128s_loop (v < 0) v temp = Some (temp @ (?b OR 0x80) # bs)"
      using sleb_step [of v temp] False Suc.prems(3,4) bs(1) by simp
    ultimately show ?thesis by (intro exI [of _ "(?b OR 0x80) # bs"]) simp
  qed
qed

section \<open>Properties\<close>

text \<open>
  C34: LEB128. Every signed 32-bit value is written by \<open>saa_wleb128s\<close>, and every non-negative one by
  \<open>saa_wleb128u\<close>, as bytes that decode to it and to nothing after it, at the end of the data; but for
  a negative value the loop of \<open>saa_wleb128u\<close>, whose shift keeps the sign, never reaches 0 and runs
  over the end of its buffer of 64 bytes.
\<close>
lemma leb128_correct:
  assumes "saa_ok s" and "wptr s = datalen s" and "- (2 ^ 31) \<le> v" and "v < 2 ^ 31"
  shows "(\<exists>t bs. saa_wleb128s g s v = Some t \<and> content t = content s @ bs \<and> sleb_decode (bs @ rest) = Some (v, rest)) \<and>
    (if 0 \<le> v then \<exists>t bs. saa_wleb128u g s v = Some t \<and> content t = content s @ bs \<and> uleb_decode (bs @ rest) = Some (v, rest)
     else saa_wleb128u g s v = None)"
proof -
  have w: "\<exists>t. saa_wbytes g s (Some bs) (length bs) = Some t \<and> content t = content s @ bs" for bs
  proof -
    have "length (content s) = wptr s" using assms(1,2) by (simp add: saa_ok_def length_content)
    then show ?thesis using wbytes_ok [OF assms(1), of "Some bs" "length bs" g]
      by (auto simp: enough_def chunk_def after_write_def put_bytes_def)
  qed
  obtain bs where "wleb128s_loop (v < 0) v [] = Some bs" "sleb_decode (bs @ rest) = Some (v, rest)"
    using wleb128s_ok [of 4 v "[]" rest] assms(3,4) by auto
  moreover obtain cs where "0 \<le> v \<Longrightarrow> wleb128u_loop v [] = Some cs \<and> uleb_decode (cs @ rest) = Some (v, rest)"
    using wleb128u_ok [of v 4 "[]" rest] assms(4) by auto
  ultimately show ?thesis
    using w [of bs] w [of cs] wleb128u_negative [of v "[]"]
    by (auto simp: saa_wleb128s_def saa_wleb128u_def)
qed

lemma leb128_correct_witness:
  "\<exists>t bs. saa_wleb128s (\<lambda>_. 0) (saa_init (\<lambda>_. 0) 1) (-129) = Some t \<and> content t = content (saa_init (\<lambda>_. 0) 1) @ bs \<and>
     sleb_decode (bs @ [5]) = Some (-129, [5])"
proof -
  have "saa_ok (saa_init (\<lambda>_. 0) 1)" "wptr (saa_init (\<lambda>_. 0) 1) = datalen (saa_init (\<lambda>_. 0) 1)"
    using init_represents [of 1 "\<lambda>_. 0"] by (simp_all add: represents_def saa_init_def Let_def)
  then show ?thesis using leb128_correct [of "saa_init (\<lambda>_. 0) 1" "-129" "\<lambda>_. 0" "[5]"] by simp
qed

end
