(* ===== verification/Bsi.thy ===== *)
theory Bsi
  imports Crc64 "HOL-Library.List_Lexorder"
begin

text \<open>
  The binary searches of \<open>nasmlib/bsi.c\<close> in a sorted table of strings, with and without regard to
  case. What the searches rely on, that the comparison orders the strings by some key, is the
  locale \<open>string_order\<close>, with the lemma on the loop; \<open>strcmp\<close> and \<open>nasm_stricmp\<close> provide it.
\<close>

section \<open>The code\<close>

text \<open>\<open>strcmp\<close> of the C library: only the sign of its result is specified.\<close>

function strcmp :: "u8 list \<Rightarrow> u8 list \<Rightarrow> int" where
  "strcmp s1 s2 =
     (let c1 = cur s1; c2 = cur s2; d = uint c1 - uint c2
      in if d \<noteq> 0 then d else if c1 = 0 then 0 else strcmp (tl s1) (tl s2))"
  by pat_completeness auto
termination
proof (relation "measure (\<lambda>(s1, s2). length s1)", simp)
  fix s1 s2 :: "u8 list" and c1 c2 d
  assume "c1 = cur s1" "c1 \<noteq> 0"
  then show "((tl s1, tl s2), s1, s2) \<in> measure (\<lambda>(s1, s2). length s1)"
    by (cases s1) (auto simp: cur_def)
qed

declare strcmp.simps [simp del]

text \<open>The loop is the same in both functions; \<open>i + j\<close> is never negative where it is halved.\<close>

function bsi_loop :: "(u8 list \<Rightarrow> u8 list \<Rightarrow> int) \<Rightarrow> u8 list \<Rightarrow> u8 list list \<Rightarrow> int \<Rightarrow> int \<Rightarrow> int" where
  "bsi_loop cmp str array i j =
    (if 2 \<le> j - i then
       let k = (i + j) div 2;
           l = cmp str (array ! nat k)
       in if l < 0 then bsi_loop cmp str array i k
          else if 0 < l then bsi_loop cmp str array k j
          else k
     else -1)"
  by pat_completeness auto
termination by (relation "measure (\<lambda>(cmp, str, array, i, j). nat (j - i))") auto

declare bsi_loop.simps [simp del]

definition bsi :: "u8 list \<Rightarrow> u8 list list \<Rightarrow> int \<Rightarrow> int" where
  "bsi str array n = bsi_loop strcmp str array (-1) n"

definition bsii :: "u8 list \<Rightarrow> u8 list list \<Rightarrow> int \<Rightarrow> int" where
  "bsii str array n = bsi_loop nasm_stricmp str array (-1) n"

section \<open>Comparison by a key\<close>

locale string_order =
  fixes cmp :: "u8 list \<Rightarrow> u8 list \<Rightarrow> int"
    and key :: "u8 list \<Rightarrow> u8 list"
  assumes key_less: "cmp s t < 0 \<longleftrightarrow> key s < key t"
    and key_greater: "0 < cmp s t \<longleftrightarrow> key t < key s"
begin

lemma equal: "cmp s t = 0 \<longleftrightarrow> key s = key t"
  using key_less [of s t] key_greater [of s t] by (metis linorder_less_linear order_less_irrefl)

lemma loop_ok:
  assumes "sorted_wrt (\<lambda>a b. cmp a b < 0) array"
  shows "-1 \<le> i \<Longrightarrow> j \<le> int (length array) \<Longrightarrow>
    (\<forall>k < length array. int k \<le> i \<longrightarrow> 0 < cmp str (array ! k)) \<Longrightarrow>
    (\<forall>k < length array. j \<le> int k \<longrightarrow> cmp str (array ! k) < 0) \<Longrightarrow>
    (bsi_loop cmp str array i j = -1 \<and> (\<forall>k < length array. cmp str (array ! k) \<noteq> 0)) \<or>
    (\<exists>k < length array. bsi_loop cmp str array i j = int k \<and> cmp str (array ! k) = 0)"
proof (induction "nat (j - i)" arbitrary: i j rule: less_induct)
  case less
  show ?case
  proof (cases "2 \<le> j - i")
    case False
    have "cmp str (array ! k) \<noteq> 0" if "k < length array" for k
    proof (cases "int k \<le> i")
      case True
      then show ?thesis using less.prems(3) that by force
    next
      case below: False
      then have "j \<le> int k" using False by linarith
      then show ?thesis using less.prems(4) that by force
    qed
    then show ?thesis using False by (simp add: bsi_loop.simps [of cmp str array i j])
  next
    case True
    define k where "k = nat ((i + j) div 2)"
    have k: "(i + j) div 2 = int k" "i < int k" "int k < j" "k < length array"
      using True less.prems(1,2) by (auto simp: k_def)
    have step: "bsi_loop cmp str array i j =
      (if cmp str (array ! k) < 0 then bsi_loop cmp str array i (int k)
       else if 0 < cmp str (array ! k) then bsi_loop cmp str array (int k) j else int k)"
      using True k(1) by (simp add: bsi_loop.simps [of cmp str array i j] Let_def)
    have ord: "key (array ! a) < key (array ! b)" if "a < b" "b < length array" for a b
      using sorted_wrt_nth_less [OF assms that] key_less by blast
    consider (lt) "cmp str (array ! k) < 0" | (gt) "0 < cmp str (array ! k)" | (eq) "cmp str (array ! k) = 0" by linarith
    then show ?thesis
    proof cases
      case lt
      have "cmp str (array ! m) < 0" if "m < length array" "k \<le> m" for m
        using lt ord [of k m] that k(4) unfolding key_less by (cases "m = k") (auto intro: less_trans)
      then show ?thesis using less.hyps [of "int k" i] less.prems k lt step by simp
    next
      case gt
      have "0 < cmp str (array ! m)" if "m < length array" "m \<le> k" for m
        using gt ord [of m k] that k(4) unfolding key_greater by (cases "m = k") (auto intro: less_trans)
      moreover have "bsi_loop cmp str array i j = bsi_loop cmp str array (int k) j" using step gt by simp
      ultimately show ?thesis using less.hyps [of j "int k"] less.prems k by simp
    next
      case eq
      then show ?thesis using step k(4) by auto
    qed
  qed
qed

lemma search_ok:
  assumes "sorted_wrt (\<lambda>a b. cmp a b < 0) array"
  shows "bsi_loop cmp str array (-1) (int (length array)) = int k \<longleftrightarrow> k < length array \<and> cmp str (array ! k) = 0"
    and "bsi_loop cmp str array (-1) (int (length array)) = -1 \<longleftrightarrow> \<not> (\<exists>s \<in> set array. cmp str s = 0)"
proof -
  let ?r = "bsi_loop cmp str array (-1) (int (length array))"
  have r: "(?r = -1 \<and> (\<forall>k < length array. cmp str (array ! k) \<noteq> 0)) \<or>
    (\<exists>k < length array. ?r = int k \<and> cmp str (array ! k) = 0)"
    by (rule loop_ok [OF assms]) auto
  have uniq: "a = b" if "a < length array" "b < length array" "cmp str (array ! a) = 0" "cmp str (array ! b) = 0" for a b
  proof (rule ccontr)
    assume "a \<noteq> b"
    then have "cmp (array ! a) (array ! b) < 0 \<or> cmp (array ! b) (array ! a) < 0"
      using sorted_wrt_nth_less [OF assms, of a b] sorted_wrt_nth_less [OF assms, of b a] that(1,2) by linarith
    then show False using that(3,4) unfolding equal key_less by auto
  qed
  show "?r = int k \<longleftrightarrow> k < length array \<and> cmp str (array ! k) = 0"
  proof
    assume "?r = int k"
    then show "k < length array \<and> cmp str (array ! k) = 0" using r by auto
  next
    assume k: "k < length array \<and> cmp str (array ! k) = 0"
    then obtain m where "m < length array" "?r = int m" "cmp str (array ! m) = 0" using r by blast
    then show "?r = int k" using uniq [of m k] k by simp
  qed
  show "?r = -1 \<longleftrightarrow> \<not> (\<exists>s \<in> set array. cmp str s = 0)"
    using r
  proof
    assume "?r = -1 \<and> (\<forall>k < length array. cmp str (array ! k) \<noteq> 0)"
    then show ?thesis by (auto simp: in_set_conv_nth)
  next
    assume "\<exists>k < length array. ?r = int k \<and> cmp str (array ! k) = 0"
    then obtain m where "m < length array" "?r = int m" "cmp str (array ! m) = 0" by blast
    then show ?thesis using nth_mem [of m array] by auto
  qed
qed

end

section \<open>The two comparisons\<close>

lemma strcmp_order: "(strcmp s t < 0 \<longleftrightarrow> cstr s < cstr t) \<and> (0 < strcmp s t \<longleftrightarrow> cstr t < cstr s)"
proof (induction s t rule: strcmp.induct)
  case (1 s t)
  consider (diff) "cur s \<noteq> cur t" | (stop) "cur s = cur t" "cur s = 0" | (go) "cur s = cur t" "cur s \<noteq> 0" by blast
  then show ?case
  proof cases
    case diff
    then have "strcmp s t = uint (cur s) - uint (cur t)" by (simp add: strcmp.simps [of s t] word_uint_eq_iff)
    moreover have "cstr s < cstr t \<longleftrightarrow> cur s < cur t" if "cur s \<noteq> cur t" for s t
      using that cur_cstr [of s] cur_cstr [of t] by (cases "cur s = 0"; cases "cur t = 0") (auto simp: word_gt_0)
    ultimately show ?thesis using diff by (auto simp: word_less_def)
  next
    case stop
    then show ?thesis using cur_cstr(1) [of s] cur_cstr(1) [of t] by (simp add: strcmp.simps [of s t])
  next
    case go
    then have "strcmp s t = strcmp (tl s) (tl t)" by (simp add: strcmp.simps [of s t])
    then show ?thesis using 1 go cur_cstr(2) [of s] cur_cstr(2) [of t] by simp
  qed
qed

lemma nasm_stricmp_strcmp: "nasm_stricmp s t = strcmp (map nasm_tolower s) (map nasm_tolower t)"
proof (induction s t rule: nasm_stricmp.induct)
  case (1 s t)
  have c: "cur (map nasm_tolower s) = nasm_tolower (cur s)" for s by (cases s) (simp_all add: cur_def)
  show ?case
    using 1 by (simp add: nasm_stricmp.simps [of s t] strcmp.simps [of "map nasm_tolower s"] c Let_def map_tl)
qed

interpretation exact: string_order strcmp cstr
  by unfold_locales (simp_all add: strcmp_order)

interpretation folded: string_order nasm_stricmp "\<lambda>s. map nasm_tolower (cstr s)"
  by unfold_locales (simp_all add: nasm_stricmp_strcmp strcmp_order)

section \<open>Properties\<close>

text \<open>
  C35: binary search. In a table that is sorted strictly by the comparison, \<open>bsi\<close> and \<open>bsii\<close> end and
  return the index \<open>k\<close> exactly when entry \<open>k\<close> compares equal to the string, and -1 exactly when no
  entry does.
\<close>
lemma bsi_correct:
  assumes "sorted_wrt (\<lambda>a b. strcmp a b < 0) as" and "sorted_wrt (\<lambda>a b. nasm_stricmp a b < 0) bs"
  shows "(bsi s as (int (length as)) = int k \<longleftrightarrow> k < length as \<and> strcmp s (as ! k) = 0) \<and>
    (bsi s as (int (length as)) = -1 \<longleftrightarrow> \<not> (\<exists>a \<in> set as. strcmp s a = 0)) \<and>
    (bsii s bs (int (length bs)) = int k \<longleftrightarrow> k < length bs \<and> nasm_stricmp s (bs ! k) = 0) \<and>
    (bsii s bs (int (length bs)) = -1 \<longleftrightarrow> \<not> (\<exists>b \<in> set bs. nasm_stricmp s b = 0))"
  unfolding bsi_def bsii_def
  using exact.search_ok [OF assms(1)] folded.search_ok [OF assms(2)] by blast

lemma bsi_correct_witness:
  "bsi [99] [[97], [98], [99, 97]] 3 = -1 \<and> bsii [66] [[97], [98], [99, 97]] 3 = 1"
proof -
  have s: "sorted_wrt (\<lambda>a b. strcmp a b < 0) [[97], [98], [99, 97]]"
    "sorted_wrt (\<lambda>a b. nasm_stricmp a b < 0) [[97], [98], [99, 97]]" by code_simp+
  have "\<not> (\<exists>a \<in> set [[97], [98], [99, 97]]. strcmp [99] a = 0)" "nasm_stricmp [66] ([[97], [98], [99, 97]] ! 1) = 0"
    by code_simp+
  then show ?thesis using bsi_correct [OF s, of "[99]" 1] bsi_correct [OF s, of "[66]" 1] by simp
qed

end
