(* ===== verification/Dll.thy ===== *)
theory Dll
  imports Prelude
begin

text \<open>
  The doubly linked lists of \<open>nsync/internal/dll.c\<close>, which hold the waiters of locks, condition
  variables and notes. An element is a number, the heap gives the two links and the container of
  each element, and a list is the pointer to its last element, \<open>None\<close> for \<open>NULL\<close>; the links of an
  element are never \<open>NULL\<close> once \<open>nsync_dll_init_\<close> has run on it.
  The abstraction of a list is the list of its elements; the lemmas are stated for rings, the
  circular lists on which the operations work, with the frame for all other rings of the heap.
\<close>

section \<open>The code\<close>

record 'c dll_heap =
  d_next :: "nat \<Rightarrow> nat"
  d_prev :: "nat \<Rightarrow> nat"
  d_container :: "nat \<Rightarrow> 'c"

definition nsync_dll_init :: "'c dll_heap \<Rightarrow> nat \<Rightarrow> 'c \<Rightarrow> 'c dll_heap" where
  "nsync_dll_init h e c =
    h\<lparr>d_next := (d_next h)(e := e), d_prev := (d_prev h)(e := e), d_container := (d_container h)(e := c)\<rparr>"

definition nsync_dll_is_empty :: "nat option \<Rightarrow> bool" where
  "nsync_dll_is_empty l \<longleftrightarrow> l = None"

definition nsync_dll_remove :: "'c dll_heap \<Rightarrow> nat option \<Rightarrow> nat \<Rightarrow> 'c dll_heap \<times> nat option" where
  "nsync_dll_remove h l e =
    (let l = (if l = Some e then
                if d_prev h e = e then None else Some (d_prev h e)
              else l);
         h = h\<lparr>d_prev := (d_prev h)(d_next h e := d_prev h e)\<rparr>;
         h = h\<lparr>d_next := (d_next h)(d_prev h e := d_next h e)\<rparr>;
         h = h\<lparr>d_next := (d_next h)(e := e)\<rparr>;
         h = h\<lparr>d_prev := (d_prev h)(e := e)\<rparr>
     in (h, l))"

definition nsync_dll_splice_after :: "'c dll_heap \<Rightarrow> nat \<Rightarrow> nat \<Rightarrow> 'c dll_heap" where
  "nsync_dll_splice_after h p n =
    (let p_2nd = d_next h p;
         n_last = d_prev h n;
         h = h\<lparr>d_next := (d_next h)(p := n)\<rparr>;
         h = h\<lparr>d_prev := (d_prev h)(n := p)\<rparr>;
         h = h\<lparr>d_next := (d_next h)(n_last := p_2nd)\<rparr>;
         h = h\<lparr>d_prev := (d_prev h)(p_2nd := n_last)\<rparr>
     in h)"

definition nsync_dll_make_first_in_list ::
  "'c dll_heap \<Rightarrow> nat option \<Rightarrow> nat option \<Rightarrow> 'c dll_heap \<times> nat option" where
  "nsync_dll_make_first_in_list h l e =
    (case e of None \<Rightarrow> (h, l)
     | Some e \<Rightarrow>
         (case l of None \<Rightarrow> (h, Some (d_prev h e))
          | Some p \<Rightarrow> (nsync_dll_splice_after h p e, l)))"

definition nsync_dll_make_last_in_list ::
  "'c dll_heap \<Rightarrow> nat option \<Rightarrow> nat option \<Rightarrow> 'c dll_heap \<times> nat option" where
  "nsync_dll_make_last_in_list h l e =
    (case e of None \<Rightarrow> (h, l)
     | Some e' \<Rightarrow> (fst (nsync_dll_make_first_in_list h l (Some (d_next h e'))), e))"

definition nsync_dll_first :: "'c dll_heap \<Rightarrow> nat option \<Rightarrow> nat option" where
  "nsync_dll_first h l = (case l of None \<Rightarrow> None | Some p \<Rightarrow> Some (d_next h p))"

definition nsync_dll_last :: "nat option \<Rightarrow> nat option" where
  "nsync_dll_last l = l"

definition nsync_dll_next :: "'c dll_heap \<Rightarrow> nat option \<Rightarrow> nat \<Rightarrow> nat option" where
  "nsync_dll_next h l e = (if Some e \<noteq> l then Some (d_next h e) else None)"

definition nsync_dll_prev :: "'c dll_heap \<Rightarrow> nat option \<Rightarrow> nat \<Rightarrow> nat option" where
  "nsync_dll_prev h l e = (if e \<noteq> d_next h (the l) then Some (d_prev h e) else None)"

section \<open>Chains and rings\<close>

fun chain :: "'c dll_heap \<Rightarrow> nat list \<Rightarrow> bool" where
  "chain h [] \<longleftrightarrow> True"
| "chain h [a] \<longleftrightarrow> True"
| "chain h (a # b # r) \<longleftrightarrow> d_next h a = b \<and> d_prev h b = a \<and> chain h (b # r)"

definition ring :: "'c dll_heap \<Rightarrow> nat list \<Rightarrow> bool" where
  "ring h xs \<longleftrightarrow> xs \<noteq> [] \<and> distinct xs \<and> chain h (xs @ [hd xs])"

lemma butlast_last_append: "xs \<noteq> [] \<Longrightarrow> butlast xs @ last xs # ys = xs @ ys"
  by (metis append_butlast_last_id append.assoc append_Cons append_Nil)

lemma butlast_not_last: "distinct xs \<Longrightarrow> a \<in> set (butlast xs) \<Longrightarrow> a \<in> set xs \<and> a \<noteq> last xs"
  by (induction xs) (auto split: if_splits)

lemma tl_not_hd: "distinct xs \<Longrightarrow> a \<in> set (tl xs) \<Longrightarrow> a \<in> set xs \<and> a \<noteq> hd xs"
  by (cases xs) auto

lemma chain_append: "chain h (xs @ a # ys) \<longleftrightarrow> chain h (xs @ [a]) \<and> chain h (a # ys)"
  by (induction h xs rule: chain.induct) auto

lemma chain_Cons_ne: "ys \<noteq> [] \<Longrightarrow> chain h (a # ys) \<longleftrightarrow> d_next h a = hd ys \<and> d_prev h (hd ys) = a \<and> chain h ys"
  by (cases ys) auto

lemma chain_snoc: "chain h (xs @ [a, b]) \<longleftrightarrow> chain h (xs @ [a]) \<and> d_next h a = b \<and> d_prev h b = a"
  using chain_append [of h xs a "[b]"] by simp

lemma chain_cong:
  "(\<And>a. a \<in> set (butlast xs) \<Longrightarrow> d_next h' a = d_next h a) \<Longrightarrow>
   (\<And>a. a \<in> set (tl xs) \<Longrightarrow> d_prev h' a = d_prev h a) \<Longrightarrow> chain h' xs = chain h xs"
proof (induction xs)
  case (Cons a xs)
  show ?case
  proof (cases xs)
    case (Cons b r)
    have "chain h' xs = chain h xs"
    proof (rule Cons.IH)
      show "d_next h' c = d_next h c" if "c \<in> set (butlast xs)" for c
        using Cons.prems(1) [of c] that local.Cons by simp
      show "d_prev h' c = d_prev h c" if "c \<in> set (tl xs)" for c
        using Cons.prems(2) [of c] that local.Cons by simp
    qed
    then show ?thesis using Cons.prems(1) [of a] Cons.prems(2) [of b] local.Cons by simp
  qed simp
qed simp

lemma chain_butlast: "chain h (xs @ [a]) \<Longrightarrow> chain h xs"
  by (induction h xs rule: chain.induct) auto

lemma ring_single: "ring h [e] \<longleftrightarrow> d_next h e = e \<and> d_prev h e = e"
  by (auto simp: ring_def)

lemma ring_rotate: "ring h (xs @ ys) \<Longrightarrow> ring h (ys @ xs)"
proof (cases "xs = [] \<or> ys = []")
  case False
  assume r: "ring h (xs @ ys)"
  obtain a xs' b ys' where xy: "xs = a # xs'" "ys = b # ys'" using False by (metis list.exhaust)
  have "chain h ((a # xs') @ b # ys' @ [a])" using r by (simp add: ring_def xy)
  then have "chain h ((a # xs') @ [b])" "chain h ((b # ys') @ [a])"
    using chain_append [of h "a # xs'" b "ys' @ [a]"] by simp_all
  then have "chain h ((b # ys') @ a # xs' @ [b])" using chain_append [of h "b # ys'" a "xs' @ [b]"] by simp
  then show ?thesis using r by (auto simp: ring_def xy)
qed auto

lemma ring_links:
  assumes "ring h xs"
  shows "d_next h (last xs) = hd xs" "d_prev h (hd xs) = last xs"
proof -
  have "chain h (butlast xs @ [last xs, hd xs])" using assms by (simp add: ring_def butlast_last_append)
  then show "d_next h (last xs) = hd xs" "d_prev h (hd xs) = last xs" by (simp_all add: chain_snoc)
qed

lemma ring_closed:
  assumes "ring h xs" "a \<in> set xs"
  shows "d_next h a \<in> set xs" "d_prev h a \<in> set xs"
proof -
  obtain as bs where xs: "xs = as @ a # bs" using assms(2) by (meson split_list)
  have r: "ring h (a # bs @ as)" using ring_rotate [of h as "a # bs"] assms(1) xs by simp
  then have "chain h (a # (bs @ as @ [a]))" by (simp add: ring_def)
  then have "d_next h a = hd (bs @ as @ [a])" by (simp add: chain_Cons_ne)
  moreover have "hd (bs @ as @ [a]) \<in> set (bs @ as @ [a])" by (rule hd_in_set) simp
  ultimately show "d_next h a \<in> set xs" by (auto simp: xs)
  have "d_prev h a = last (a # bs @ as)" using ring_links(2) [OF r] by simp
  moreover have "last (a # bs @ as) \<in> set (a # bs @ as)" by (rule last_in_set) simp
  ultimately show "d_prev h a \<in> set xs" by (auto simp: xs)
qed

text \<open>Changes outside a ring leave it a ring.\<close>

lemma ring_frame:
  assumes "ring h zs" and "\<And>a. a \<in> set zs \<Longrightarrow> d_next h' a = d_next h a \<and> d_prev h' a = d_prev h a"
  shows "ring h' zs"
proof -
  have "chain h' (zs @ [hd zs]) = chain h (zs @ [hd zs])"
    using assms by (intro chain_cong) (cases zs; auto simp: ring_def)+
  then show ?thesis using assms(1) by (simp add: ring_def)
qed

section \<open>Splicing and removing\<close>

lemma splice_frame:
  assumes "ring h xs" "ring h ys" "p \<in> set xs" "n \<in> set ys" "ring h zs" "set zs \<inter> (set xs \<union> set ys) = {}"
  shows "ring (nsync_dll_splice_after h p n) zs"
proof (rule ring_frame [OF assms(5)])
  fix a assume "a \<in> set zs"
  then have "a \<noteq> p" "a \<noteq> n" "a \<noteq> d_next h p" "a \<noteq> d_prev h n"
    using assms(3,4,6) ring_closed [OF assms(1,3)] ring_closed [OF assms(2,4)] by auto
  then show "d_next (nsync_dll_splice_after h p n) a = d_next h a \<and> d_prev (nsync_dll_splice_after h p n) a = d_prev h a"
    by (simp add: nsync_dll_splice_after_def Let_def)
qed

lemma splice_ok:
  assumes p: "ring h (p # ps)" and n: "ring h (n # ns)" and dis: "set (p # ps) \<inter> set (n # ns) = {}"
  shows "ring (nsync_dll_splice_after h p n) (p # n # ns @ ps)"
proof -
  define h' where "h' = nsync_dll_splice_after h p n"
  define q l where "q = d_next h p" and "l = d_prev h n"
  have h': "d_next h' = (d_next h)(p := n, l := q)" "d_prev h' = (d_prev h)(n := p, q := l)"
    by (simp_all add: h'_def nsync_dll_splice_after_def Let_def q_def l_def)
  have cp: "chain h (p # ps @ [p])" and cn: "chain h (n # ns @ [n])"
    using p n by (simp_all add: ring_def)
  have q: "q = hd (ps @ [p])" using cp by (simp add: chain_Cons_ne q_def)
  have l: "l = last (n # ns)" using ring_links(2) [OF n] by (simp add: l_def)
  have qin: "q \<in> set (p # ps)" and lin: "l \<in> set (n # ns)"
    using q l by (cases ps; simp)+ 
  have "chain h (ps @ [p])" using cp by (simp add: chain_Cons_ne)
  moreover have "chain h' (ps @ [p]) = chain h (ps @ [p])"
    using p dis lin q by (intro chain_cong) (cases ps; auto simp: h' ring_def)+
  moreover have "chain h (n # ns)" using cn chain_butlast [of h "n # ns" n] by simp
  moreover have "chain h' (n # ns) = chain h (n # ns)"
  proof (rule chain_cong)
    fix a assume "a \<in> set (butlast (n # ns))"
    then have "a \<noteq> l" "a \<in> set (n # ns)" using butlast_not_last [of "n # ns" a] n unfolding l ring_def by blast+
    then show "d_next h' a = d_next h a" using dis by (auto simp: h')
  next
    fix a assume "a \<in> set (tl (n # ns))"
    then show "d_prev h' a = d_prev h a" using n dis qin by (auto simp: h' ring_def)
  qed
  ultimately have c1: "chain h' (ps @ [p])" and c2: "chain h' (n # ns)" by simp_all
  have pn: "p \<noteq> n" "l \<noteq> p" "q \<noteq> n" using dis lin qin by auto
  have "chain h' (l # ps @ [p])" using c1 pn by (simp add: chain_Cons_ne q [symmetric] h')
  moreover have bl: "butlast (n # ns) @ l # zs = (n # ns) @ zs" for zs
    unfolding l by (rule butlast_last_append) (rule list.distinct)
  have "chain h' (butlast (n # ns) @ [l])" unfolding bl append_Nil2 by (rule c2)
  ultimately have "chain h' ((n # ns) @ ps @ [p])"
    unfolding bl [symmetric] by (rule chain_append [THEN iffD2, OF conjI, rotated])
  moreover have "d_next h' p = n" "d_prev h' n = p" using pn by (simp_all add: h')
  ultimately have "chain h' (p # (n # ns) @ ps @ [p])" by simp
  then show ?thesis using p n dis by (auto simp: ring_def h'_def)
qed

lemma remove_heap:
  assumes "ring h (e # es)"
  shows "ring (fst (nsync_dll_remove h l e)) [e]"
    and "es \<noteq> [] \<Longrightarrow> ring (fst (nsync_dll_remove h l e)) es"
    and "ring h zs \<Longrightarrow> set zs \<inter> set (e # es) = {} \<Longrightarrow> ring (fst (nsync_dll_remove h l e)) zs"
proof -
  define h' where "h' = fst (nsync_dll_remove h l e)"
  define q r where "q = d_next h e" and "r = d_prev h e"
  have c: "chain h (e # es @ [e])" using assms by (simp add: ring_def)
  have q: "q = hd (es @ [e])" using c by (simp add: chain_Cons_ne q_def)
  have r: "r = last (e # es)" using ring_links(2) [OF assms] by (simp add: r_def)
  have "q = e \<longleftrightarrow> r = e" using q r assms by (cases es) (auto simp: ring_def)
  then have h': "d_next h' = (d_next h)(r := q, e := e)" "d_prev h' = (d_prev h)(q := r, e := e)"
    by (auto simp: h'_def nsync_dll_remove_def Let_def q_def r_def fun_eq_iff)
  show "ring h' [e]" by (simp add: ring_single h')
  show "ring h' es" if "es \<noteq> []"
  proof -
    have e: "e \<notin> set es" "distinct es" using assms by (auto simp: ring_def)
    have "q = hd es" "r = last es" using q r that by simp_all
    moreover have "chain h (es @ [e])" using c by (simp add: chain_Cons_ne)
    then have "chain h es" by (rule chain_butlast)
    moreover have "chain h' es = chain h es"
    proof (rule chain_cong)
      fix a assume "a \<in> set (butlast es)"
      then show "d_next h' a = d_next h a" using e butlast_not_last [OF e(2)] \<open>r = last es\<close> by (auto simp: h')
    next
      fix a assume "a \<in> set (tl es)"
      then show "d_prev h' a = d_prev h a" using e tl_not_hd [OF e(2)] \<open>q = hd es\<close> by (auto simp: h')
    qed
    ultimately have "chain h' (butlast es @ [r])" using butlast_last_append [OF that, of "[]"] by simp
    moreover have "r \<noteq> e" "q \<noteq> e" using e that \<open>q = hd es\<close> \<open>r = last es\<close> by auto
    ultimately have "chain h' (butlast es @ [r, q])" by (simp add: chain_snoc h')
    then have "chain h' (es @ [hd es])" using \<open>q = hd es\<close> \<open>r = last es\<close> butlast_last_append [OF that] by simp
    then show ?thesis using e that by (simp add: ring_def)
  qed
  show "ring h' zs" if "ring h zs" "set zs \<inter> set (e # es) = {}"
  proof (rule ring_frame [OF that(1)])
    fix a assume "a \<in> set zs"
    moreover have "q \<in> set (e # es)" "r \<in> set (e # es)"
      using ring_closed [OF assms, of e] by (auto simp: q_def r_def)
    ultimately show "d_next h' a = d_next h a \<and> d_prev h' a = d_prev h a" using that(2) by (auto simp: h')
  qed
qed

section \<open>Lists\<close>

definition dll_rep :: "'c dll_heap \<Rightarrow> nat option \<Rightarrow> nat list \<Rightarrow> bool" where
  "dll_rep h l xs \<longleftrightarrow> (if xs = [] then l = None else l = Some (last xs) \<and> ring h xs)"

lemma dll_rep_frame: "dll_rep h l xs \<Longrightarrow> (ring h xs \<Longrightarrow> ring h' xs) \<Longrightarrow> dll_rep h' l xs"
  by (auto simp: dll_rep_def)

lemma make_first_ok:
  assumes l: "dll_rep h l xs" and e: "ring h (e # es)" and dis: "set xs \<inter> set (e # es) = {}"
    and m: "nsync_dll_make_first_in_list h l (Some e) = (h', l')"
  shows "dll_rep h' l' (e # es @ xs)"
    and "ring h zs \<Longrightarrow> set zs \<inter> (set xs \<union> set (e # es)) = {} \<Longrightarrow> ring h' zs"
proof -
  consider (empty) "xs = []" | (list) p ps where "xs = ps @ [p]" by (cases xs rule: rev_cases)
  then have "dll_rep h' l' (e # es @ xs) \<and> (ring h zs \<longrightarrow> set zs \<inter> (set xs \<union> set (e # es)) = {} \<longrightarrow> ring h' zs)" for zs
  proof cases
    case empty
    then have "l = None" using l by (simp add: dll_rep_def)
    then have "h' = h" "l' = Some (d_prev h e)" using m by (auto simp: nsync_dll_make_first_in_list_def)
    moreover have "d_prev h e = last (e # es)" using ring_links(2) [OF e] by simp
    ultimately show ?thesis using e empty by (simp add: dll_rep_def)
  next
    case list
    then have r: "ring h (p # ps)" and "l = Some p"
      using l ring_rotate [of h ps "[p]"] by (simp_all add: dll_rep_def)
    then have h': "h' = nsync_dll_splice_after h p e" "l' = Some p"
      using m by (simp_all add: nsync_dll_make_first_in_list_def)
    have "ring h' (p # e # es @ ps)" unfolding h' using dis list by (intro splice_ok r e) auto
    then have "ring h' (e # es @ ps @ [p])" using ring_rotate [of h' "[p]" "e # es @ ps"] by simp
    then have "dll_rep h' l' (e # es @ xs)" by (simp add: dll_rep_def h' list)
    moreover have "ring h' zs" if "ring h zs" "set zs \<inter> (set xs \<union> set (e # es)) = {}"
      unfolding h' using that list by (intro splice_frame [OF r e _ _ that(1)]) auto
    ultimately show ?thesis by blast
  qed
  then show "dll_rep h' l' (e # es @ xs)"
    and "ring h zs \<Longrightarrow> set zs \<inter> (set xs \<union> set (e # es)) = {} \<Longrightarrow> ring h' zs" by blast+
qed

lemma make_last_ok:
  assumes l: "dll_rep h l xs" and e: "ring h (e # es)" and dis: "set xs \<inter> set (e # es) = {}"
    and m: "nsync_dll_make_last_in_list h l (Some e) = (h', l')"
  shows "dll_rep h' l' (xs @ es @ [e])"
    and "ring h zs \<Longrightarrow> set zs \<inter> (set xs \<union> set (e # es)) = {} \<Longrightarrow> ring h' zs"
proof -
  have r: "ring h (es @ [e])" using ring_rotate [of h "[e]" es] e by simp
  define n ns where "n = hd (es @ [e])" and "ns = tl (es @ [e])"
  then have nn: "es @ [e] = n # ns" by (cases es) auto
  then have s: "set (n # ns) = set (e # es)" by (metis Un_commute list.set(1) list.set(2) set_append sup_bot_right insert_is_Un)
  have "d_next h e = n" using ring_links(1) [OF r] by (simp add: n_def)
  then obtain l1 where m1: "nsync_dll_make_first_in_list h l (Some n) = (h', l1)" and l': "l' = Some e"
    using m by (cases "nsync_dll_make_first_in_list h l (Some n)") (auto simp: nsync_dll_make_last_in_list_def)
  have "dll_rep h' l1 (n # ns @ xs)"
    by (rule make_first_ok(1) [OF l _ _ m1]) (use r nn s dis in auto)
  then have "ring h' ((es @ [e]) @ xs)" by (simp add: dll_rep_def nn)
  from ring_rotate [OF this] show "dll_rep h' l' (xs @ es @ [e])" by (simp add: dll_rep_def l')
  show "ring h' zs" if "ring h zs" "set zs \<inter> (set xs \<union> set (e # es)) = {}"
    by (rule make_first_ok(2) [OF l _ _ m1 that(1)]) (use r nn s dis that in auto)
qed

lemma remove_ok:
  assumes l: "dll_rep h l (as @ e # bs)" and m: "nsync_dll_remove h l e = (h', l')"
  shows "dll_rep h' l' (as @ bs)" and "ring h' [e]"
    and "ring h zs \<Longrightarrow> set zs \<inter> set (as @ e # bs) = {} \<Longrightarrow> ring h' zs"
proof -
  have r0: "ring h (as @ e # bs)" and l0: "l = Some (last (e # bs))" using l by (simp_all add: dll_rep_def)
  then have r: "ring h (e # bs @ as)" using ring_rotate [of h as "e # bs"] by simp
  have h': "h' = fst (nsync_dll_remove h l e)" using m by simp
  note rm = remove_heap [OF r, where l = l, folded h']
  show "ring h' [e]" by (rule rm(1))
  show "ring h' zs" if "ring h zs" "set zs \<inter> set (as @ e # bs) = {}" using rm(3) that by auto
  have prev: "d_prev h e = last (e # bs @ as)" using ring_links(2) [OF r] by simp
  have l': "l' = (if l = Some e then if d_prev h e = e then None else Some (d_prev h e) else l)"
    using m by (auto simp: nsync_dll_remove_def Let_def)
  show "dll_rep h' l' (as @ bs)"
  proof (cases "bs = []")
    case True
    then have "l' = (if as = [] then None else Some (last as))"
      using l0 prev r unfolding l' by (cases as rule: rev_cases) (auto simp: ring_def)
    then show ?thesis using True rm(2) by (simp add: dll_rep_def)
  next
    case False
    then have "last bs \<noteq> e" using r by (auto simp: ring_def)
    then have "l' = Some (last bs)" using l0 False unfolding l' by simp
    moreover have "ring h' (bs @ as)" using rm(2) False by simp
    then have "ring h' (as @ bs)" by (rule ring_rotate)
    ultimately show ?thesis using False by (simp add: dll_rep_def)
  qed
qed

lemma next_ok:
  assumes "dll_rep h l (as @ e # bs)"
  shows "nsync_dll_next h l e = (case bs of [] \<Rightarrow> None | b # _ \<Rightarrow> Some b)"
proof (cases bs)
  case Nil
  then show ?thesis using assms by (simp add: dll_rep_def nsync_dll_next_def)
next
  case (Cons b cs)
  have "ring h (e # bs @ as)" using assms ring_rotate [of h as "e # bs"] by (simp add: dll_rep_def)
  then have "d_next h e = b" by (simp add: ring_def Cons)
  moreover have "l \<noteq> Some e" using assms Cons by (auto simp: dll_rep_def ring_def)
  ultimately show ?thesis by (simp add: nsync_dll_next_def Cons)
qed

lemma first_ok: "dll_rep h l xs \<Longrightarrow> nsync_dll_first h l = (case xs of [] \<Rightarrow> None | x # _ \<Rightarrow> Some x)"
  using ring_links(1) [of h xs] by (cases xs) (auto simp: dll_rep_def nsync_dll_first_def)

lemma prev_ok:
  assumes "dll_rep h l (as @ e # bs)"
  shows "nsync_dll_prev h l e = (if as = [] then None else Some (last as))"
proof -
  have r: "ring h (e # bs @ as)" using assms ring_rotate [of h as "e # bs"] by (simp add: dll_rep_def)
  have "d_prev h e = last (e # bs @ as)" using ring_links(2) [OF r] by simp
  moreover have "d_next h (the l) = hd (as @ [e])"
    using assms ring_links(1) [of h "as @ e # bs"] by (cases as) (auto simp: dll_rep_def)
  moreover have "distinct (as @ [e])" using r by (auto simp: ring_def)
  ultimately show ?thesis by (cases as) (auto simp: nsync_dll_prev_def)
qed

text \<open>The loops of the callers: from the first element by \<open>next\<close>, from the last by \<open>prev\<close>.\<close>

partial_function (option) dll_forward :: "'c dll_heap \<Rightarrow> nat option \<Rightarrow> nat option \<Rightarrow> nat list option" where
  "dll_forward h l p =
    (case p of None \<Rightarrow> Some []
     | Some e \<Rightarrow> Option.bind (dll_forward h l (nsync_dll_next h l e)) (\<lambda>r. Some (e # r)))"

partial_function (option) dll_backward :: "'c dll_heap \<Rightarrow> nat option \<Rightarrow> nat option \<Rightarrow> nat list option" where
  "dll_backward h l p =
    (case p of None \<Rightarrow> Some []
     | Some e \<Rightarrow> Option.bind (dll_backward h l (nsync_dll_prev h l e)) (\<lambda>r. Some (e # r)))"

lemma forward_ok: "dll_rep h l (as @ bs) \<Longrightarrow>
  dll_forward h l (case bs of [] \<Rightarrow> None | b # _ \<Rightarrow> Some b) = Some bs"
proof (induction bs arbitrary: as)
  case Nil
  then show ?case by (simp add: dll_forward.simps)
next
  case (Cons b bs)
  have "dll_forward h l (case bs of [] \<Rightarrow> None | b # _ \<Rightarrow> Some b) = Some bs"
    by (rule Cons.IH [of "as @ [b]"]) (use Cons.prems in simp)
  then show ?case using next_ok [OF Cons.prems] by (simp add: dll_forward.simps [of h l "Some b"])
qed

lemma backward_ok: "dll_rep h l (as @ bs) \<Longrightarrow>
  dll_backward h l (if as = [] then None else Some (last as)) = Some (rev as)"
proof (induction as arbitrary: bs rule: rev_induct)
  case Nil
  then show ?case by (simp add: dll_backward.simps)
next
  case (snoc a as)
  have "dll_backward h l (if as = [] then None else Some (last as)) = Some (rev as)"
    by (rule snoc.IH [of "a # bs"]) (use snoc.prems in simp)
  moreover have "nsync_dll_prev h l a = (if as = [] then None else Some (last as))"
    using prev_ok [of h l as a bs] snoc.prems by simp
  ultimately show ?case by (simp add: dll_backward.simps [of h l "Some a"])
qed

section \<open>Several lists over one heap\<close>

datatype dll_op = Make_first nat nat | Make_last nat nat | Remove nat nat

fun dll_exec :: "'c dll_heap \<times> nat option list \<Rightarrow> dll_op \<Rightarrow> 'c dll_heap \<times> nat option list" where
  "dll_exec (h, ls) (Make_first k e) =
    (let (h', l) = nsync_dll_make_first_in_list h (ls ! k) (Some e) in (h', ls[k := l]))"
| "dll_exec (h, ls) (Make_last k e) =
    (let (h', l) = nsync_dll_make_last_in_list h (ls ! k) (Some e) in (h', ls[k := l]))"
| "dll_exec (h, ls) (Remove k e) =
    (let (h', l) = nsync_dll_remove h (ls ! k) e in (h', ls[k := l]))"

fun spec_exec :: "nat list \<Rightarrow> nat list list \<Rightarrow> dll_op \<Rightarrow> nat list list option" where
  "spec_exec E A (Make_first k e) =
    (if k < length A \<and> e \<in> set E \<and> e \<notin> set (concat A) then Some (A[k := e # A ! k]) else None)"
| "spec_exec E A (Make_last k e) =
    (if k < length A \<and> e \<in> set E \<and> e \<notin> set (concat A) then Some (A[k := A ! k @ [e]]) else None)"
| "spec_exec E A (Remove k e) =
    (if k < length A \<and> e \<in> set (A ! k) then Some (A[k := remove1 e (A ! k)]) else None)"

fun spec_run :: "nat list \<Rightarrow> nat list list \<Rightarrow> dll_op list \<Rightarrow> nat list list option" where
  "spec_run E A [] = Some A"
| "spec_run E A (c # cs) = Option.bind (spec_exec E A c) (\<lambda>A. spec_run E A cs)"

definition dll_inv :: "nat list \<Rightarrow> 'c dll_heap \<times> nat option list \<Rightarrow> nat list list \<Rightarrow> bool" where
  "dll_inv E c A \<longleftrightarrow> length (snd c) = length A \<and>
    (\<forall>k < length A. dll_rep (fst c) (snd c ! k) (A ! k)) \<and>
    (\<forall>i < length A. \<forall>j < length A. i \<noteq> j \<longrightarrow> set (A ! i) \<inter> set (A ! j) = {}) \<and>
    (\<forall>e \<in> set E. e \<notin> set (concat A) \<longrightarrow> ring (fst c) [e])"

lemma dll_inv_update:
  assumes inv: "dll_inv E (h, ls) A" and k: "k < length A"
    and rep: "dll_rep h' l' ys" and sub: "set ys \<subseteq> insert e (set (A ! k))"
    and e: "\<And>j. j < length A \<Longrightarrow> j \<noteq> k \<Longrightarrow> e \<notin> set (A ! j)"
    and frame: "\<And>zs. ring h zs \<Longrightarrow> set zs \<inter> insert e (set (A ! k)) = {} \<Longrightarrow> ring h' zs"
    and free: "\<And>a. a \<in> insert e (set (A ! k)) \<Longrightarrow> a \<notin> set ys \<Longrightarrow> ring h' [a]"
  shows "dll_inv E (h', ls[k := l']) (A[k := ys])"
proof -
  have dis: "set (A ! j) \<inter> insert e (set (A ! k)) = {}" if "j < length A" "j \<noteq> k" for j
    using inv k that e by (auto simp: dll_inv_def)
  have other: "dll_rep h' (ls ! j) (A ! j)" if "j < length A" "j \<noteq> k" for j
    by (rule dll_rep_frame [of h], use inv that in \<open>simp add: dll_inv_def\<close>, rule frame, assumption, rule dis [OF that])
  have rest: "ring h' [a]" if "a \<in> set E" "a \<notin> set (concat (A[k := ys]))" for a
  proof (cases "a \<in> insert e (set (A ! k))")
    case True
    have "ys \<in> set (A[k := ys])" using k by (simp add: set_update_memI)
    then have "a \<notin> set ys" using that(2) by auto
    with True show ?thesis by (rule free)
  next
    case False
    have "a \<notin> set (concat A)"
    proof
      assume "a \<in> set (concat A)"
      then obtain j where "j < length A" "a \<in> set (A ! j)" by (auto simp: in_set_conv_nth [of _ A])
      moreover then have "j \<noteq> k" using False by auto
      ultimately have "a \<in> set (A[k := ys] ! j)" "A[k := ys] ! j \<in> set (A[k := ys])"
        using nth_mem [of j "A[k := ys]"] by simp_all
      then show False using that(2) by auto
    qed
    then have "ring h [a]" using inv that(1) by (simp add: dll_inv_def)
    then show ?thesis by (rule frame) (use False in auto)
  qed
  show ?thesis
    unfolding dll_inv_def fst_conv snd_conv length_list_update
  proof (intro conjI allI ballI impI)
    show "length ls = length A" using inv by (simp add: dll_inv_def)
    show "dll_rep h' (ls[k := l'] ! j) (A[k := ys] ! j)" if "j < length A" for j
      using rep other that inv by (cases "j = k") (auto simp: dll_inv_def)
    show "set (A[k := ys] ! i) \<inter> set (A[k := ys] ! j) = {}" if ij: "i < length A" "j < length A" "i \<noteq> j" for i j
    proof -
      consider "i = k" "j \<noteq> k" | "i \<noteq> k" "j = k" | "i \<noteq> k" "j \<noteq> k" using ij(3) by blast
      then show "set (A[k := ys] ! i) \<inter> set (A[k := ys] ! j) = {}"
      proof cases
        case 1
        then show ?thesis using dis [of j] ij k sub by auto
      next
        case 2
        then show ?thesis using dis [of i] ij k sub by auto
      next
        case 3
        then show ?thesis using inv ij by (simp add: dll_inv_def)
      qed
    qed
  next
    fix a assume "a \<in> set E" "a \<notin> set (concat (A[k := ys]))"
    then show "ring h' [a]" by (rule rest)
  qed
qed

lemma spec_exec_k:
  assumes "dll_inv E (h, ls) A" "k < length A"
  shows "length ls = length A" "dll_rep h (ls ! k) (A ! k)"
  using assms by (simp_all add: dll_inv_def)

lemma in_concat: "k < length A \<Longrightarrow> e \<in> set (A ! k) \<Longrightarrow> e \<in> set (concat A)"
  using nth_mem [of k A] by fastforce

lemma exec_inv:
  assumes inv: "dll_inv E c A" and s: "spec_exec E A op = Some A'"
  shows "dll_inv E (dll_exec c op) A'"
proof -
  obtain h ls where c: "c = (h, ls)" by force
  note inv' = inv [unfolded c]
  show ?thesis
  proof (cases op)
    case (Make_first k e)
    then have k: "k < length A" and e: "e \<in> set E" "e \<notin> set (concat A)" and A': "A' = A[k := e # A ! k]"
      using s by (auto split: if_splits)
    obtain h' l' where m: "nsync_dll_make_first_in_list h (ls ! k) (Some e) = (h', l')" by force
    have re: "ring h [e]" using inv' e by (simp add: dll_inv_def)
    have dis: "set (A ! k) \<inter> set [e] = {}" using e in_concat [OF k] by auto
    note ok = make_first_ok [OF spec_exec_k(2) [OF inv' k] re dis m]
    have "dll_inv E (h', ls[k := l']) (A[k := e # A ! k])"
      by (rule dll_inv_update [OF inv' k, where e = e])
        (use ok e in_concat in auto)
    then show ?thesis by (simp add: c Make_first m A')
  next
    case (Make_last k e)
    then have k: "k < length A" and e: "e \<in> set E" "e \<notin> set (concat A)" and A': "A' = A[k := A ! k @ [e]]"
      using s by (auto split: if_splits)
    obtain h' l' where m: "nsync_dll_make_last_in_list h (ls ! k) (Some e) = (h', l')" by force
    have re: "ring h [e]" using inv' e by (simp add: dll_inv_def)
    have dis: "set (A ! k) \<inter> set [e] = {}" using e in_concat [OF k] by auto
    note ok = make_last_ok [OF spec_exec_k(2) [OF inv' k] re dis m]
    have "dll_inv E (h', ls[k := l']) (A[k := A ! k @ [e]])"
      by (rule dll_inv_update [OF inv' k, where e = e])
        (use ok e in_concat in auto)
    then show ?thesis by (simp add: c Make_last m A')
  next
    case (Remove k e)
    then have k: "k < length A" and e: "e \<in> set (A ! k)" and A': "A' = A[k := remove1 e (A ! k)]"
      using s by (auto split: if_splits)
    obtain h' l' where m: "nsync_dll_remove h (ls ! k) e = (h', l')" by force
    obtain as bs where split: "A ! k = as @ e # bs" using e by (meson split_list)
    note rep = spec_exec_k(2) [OF inv' k]
    then have d: "distinct (as @ e # bs)" by (auto simp: dll_rep_def ring_def split split: if_splits)
    note ok = remove_ok [OF rep [unfolded split] m]
    have "remove1 e (A ! k) = as @ bs" using d by (simp add: split remove1_append)
    moreover have "dll_inv E (h', ls[k := l']) (A[k := as @ bs])"
    proof (rule dll_inv_update [OF inv' k ok(1), where e = e])
      show "e \<notin> set (A ! j)" if "j < length A" "j \<noteq> k" for j
        using inv' that k e by (auto simp: dll_inv_def)
      show "ring h' zs" if "ring h zs" "set zs \<inter> insert e (set (A ! k)) = {}" for zs
        using ok(3) [OF that(1)] that(2) by (auto simp: split)
      show "ring h' [a]" if "a \<in> insert e (set (A ! k))" "a \<notin> set (as @ bs)" for a
        using ok(2) that by (auto simp: split)
    qed (auto simp: split)
    ultimately show ?thesis by (simp add: c Remove m A')
  qed
qed

lemma run_inv: "dll_inv E c A \<Longrightarrow> spec_run E A ops = Some A' \<Longrightarrow> dll_inv E (foldl dll_exec c ops) A'"
proof (induction ops arbitrary: c A)
  case (Cons op ops)
  then obtain A1 where "spec_exec E A op = Some A1" "spec_run E A1 ops = Some A'"
    by (auto simp: bind_eq_Some_conv)
  then show ?case using Cons.IH [OF exec_inv [OF Cons.prems(1)]] by simp
qed simp

text \<open>The heap after \<open>nsync_dll_init_\<close> on each of the elements.\<close>

fun init_all :: "'c dll_heap \<Rightarrow> (nat \<times> 'c) list \<Rightarrow> 'c dll_heap" where
  "init_all h [] = h"
| "init_all h ((e, c) # es) = init_all (nsync_dll_init h e c) es"

lemma init_all_ok:
  "e \<in> fst ` set es \<or> ring h [e] \<Longrightarrow> ring (init_all h es) [e]"
proof (induction h es rule: init_all.induct)
  case (2 h x c es)
  have "e \<in> fst ` set es \<or> ring (nsync_dll_init h x c) [e]"
    using "2.prems" by (cases "e = x") (auto simp: ring_single nsync_dll_init_def)
  then show ?case using "2.IH" by simp
qed simp

lemma init_inv: "dll_inv (map fst es) (init_all h es, replicate n None) (replicate n [])"
  by (simp add: dll_inv_def dll_rep_def init_all_ok)

section \<open>Properties\<close>

text \<open>
  C36: the operations on pointers implement lists. Starting from any heap in which the elements
  \<open>es\<close> have been initialised, and with any number of empty lists over that heap, every sequence of
  insertions at the front, insertions at the back and removals that respects the preconditions of
  the interface (an inserted element is in no list, a removed one is in the list named) leaves
  each pointer representing the list that the same operations give on HOL lists: it is \<open>NULL\<close>
  exactly when the list is empty, \<open>first\<close> and \<open>last\<close> are its ends, and the loops over \<open>next\<close> and
  \<open>prev\<close> end and visit its elements once each in order.
\<close>
lemma dll_refines_lists:
  assumes run: "spec_run (map fst es) (replicate n []) ops = Some A"
    and exec: "foldl dll_exec (init_all h es, replicate n None) ops = (h', ls)"
    and k: "k < n"
  shows "(nsync_dll_is_empty (ls ! k) \<longleftrightarrow> A ! k = []) \<and>
    nsync_dll_first h' (ls ! k) = (if A ! k = [] then None else Some (hd (A ! k))) \<and>
    nsync_dll_last (ls ! k) = (if A ! k = [] then None else Some (last (A ! k))) \<and>
    dll_forward h' (ls ! k) (nsync_dll_first h' (ls ! k)) = Some (A ! k) \<and>
    dll_backward h' (ls ! k) (nsync_dll_last (ls ! k)) = Some (rev (A ! k)) \<and>
    distinct (A ! k)"
proof -
  have inv: "dll_inv (map fst es) (h', ls) A"
    using run_inv [OF init_inv run] exec by metis
  have "length A' = length B" if "spec_run E B cs = Some A'" for E B cs A'
    using that by (induction cs arbitrary: B) (auto simp: bind_eq_Some_conv split: if_splits elim!: spec_exec.elims)
  then have "length A = n" using run by force
  then have rep: "dll_rep h' (ls ! k) (A ! k)" using inv k by (simp add: dll_inv_def)
  show ?thesis
    using rep first_ok [OF rep] forward_ok [of h' "ls ! k" "[]" "A ! k"] backward_ok [of h' "ls ! k" "A ! k" "[]"]
    by (auto simp: dll_rep_def nsync_dll_is_empty_def nsync_dll_last_def ring_def split: list.splits if_splits)
qed

definition zero_heap :: "unit dll_heap" where
  "zero_heap = \<lparr>d_next = (\<lambda>_. 0), d_prev = (\<lambda>_. 0), d_container = (\<lambda>_. ())\<rparr>"

definition sample_ops :: "dll_op list" where
  "sample_ops = [Make_last 0 5, Make_last 0 6, Make_first 0 7, Make_first 1 8, Remove 0 6, Make_last 1 6, Make_last 0 9]"

lemma dll_refines_lists_witness:
  "let (h', ls) = foldl dll_exec (init_all zero_heap (map (\<lambda>e. (e, ())) [5, 6, 7, 8, 9]), replicate 2 None) sample_ops
   in dll_forward h' (ls ! 0) (nsync_dll_first h' (ls ! 0)) = Some [7, 5, 9] \<and>
      dll_backward h' (ls ! 1) (nsync_dll_last (ls ! 1)) = Some [6, 8]"
proof -
  have run: "spec_run (map fst (map (\<lambda>e. (e, ())) [5, 6, 7, 8, 9])) (replicate 2 []) sample_ops = Some [[7, 5, 9], [8, 6]]"
    by code_simp
  obtain h' ls where e:
    "foldl dll_exec (init_all zero_heap (map (\<lambda>e. (e, ())) [5, 6, 7, 8, 9]), replicate 2 None) sample_ops = (h', ls)"
    by force
  have n: "0 < (2 :: nat)" "1 < (2 :: nat)" by simp_all
  have "dll_forward h' (ls ! 0) (nsync_dll_first h' (ls ! 0)) = Some ([[7, 5, 9], [8, 6]] ! 0)"
    "dll_backward h' (ls ! 1) (nsync_dll_last (ls ! 1)) = Some (rev ([[7, 5, 9], [8, 6]] ! 1))"
    using dll_refines_lists [OF run e n(1)] dll_refines_lists [OF run e n(2)] by blast+
  then show ?thesis unfolding e by simp
qed

text \<open>
  Splicing. For two disjoint circular lists \<open>p, ps\<close> and \<open>n, ns\<close> the four assignments of
  \<open>nsync_dll_splice_after_\<close> give the one circular list \<open>p, n, ns, ps\<close> and touch no other list of
  the heap.
\<close>
lemma splice_correct:
  assumes "ring h (p # ps)" and "ring h (n # ns)" and "set (p # ps) \<inter> set (n # ns) = {}"
    and "ring h zs" and "set zs \<inter> (set (p # ps) \<union> set (n # ns)) = {}"
  shows "ring (nsync_dll_splice_after h p n) (p # n # ns @ ps) \<and> ring (nsync_dll_splice_after h p n) zs"
  using splice_ok [OF assms(1-3)] splice_frame [OF assms(1,2) _ _ assms(4,5)] by simp

definition two_rings :: "unit dll_heap" where
  "two_rings = \<lparr>d_next = (\<lambda>x. x)(1 := 2, 2 := 1, 3 := 4, 4 := 3),
     d_prev = (\<lambda>x. x)(1 := 2, 2 := 1, 3 := 4, 4 := 3), d_container = (\<lambda>_. ())\<rparr>"

lemma splice_correct_witness:
  "ring (nsync_dll_splice_after two_rings 1 3) [1, 3, 4, 2] \<and> ring (nsync_dll_splice_after two_rings 1 3) [5]"
  using splice_correct [of two_rings 1 "[2]" 3 "[4]" "[5]"] by (simp add: ring_def two_rings_def)

end
