(* ===== verification/Once.thy ===== *)
theory Once
  imports Prelude
begin

text \<open>
  One-time initialisation, \<open>nsync/internal/once.c\<close>, for any number of threads that call any of the
  four entry points on one \<open>nsync_once\<close>. Each thread has a program counter that names the next
  atomic action of the code together with the local variable that is live there (\<open>o\<close>, \<open>attempts\<close>);
  \<open>thread_step\<close> is that action, and the step relation interleaves the threads.
  The mutex \<open>once_mu\<close> and the condition variable belong to other files of nsync and are used by their
  contract: the mutex has one owner, a blocked thread has no step, waiting releases the mutex and
  takes it again after a wake-up or the deadline, which may come at any time. The mutex is shared
  with the other \<open>nsync_once\<close> variables that hash to the same entry of \<open>once_sync\<close>; they appear as
  an owner \<open>Other\<close>. The user's function is two steps, its start and its return.
\<close>

section \<open>The code\<close>

datatype once_pc =
    Call
  | Impl
  | Lock_before u32
  | Cas u32
  | Reload
  | Unlock_before
  | Run
  | Running
  | Lock_after
  | Broadcast
  | Store
  | Test u32
  | Wait u32
  | Sleep u32
  | Unlock_after
  | Returned

datatype once_entry = Run_once | Run_once_arg | Run_once_spin | Run_once_arg_spin

datatype owner = Free | Thread nat | Other

record once_sys =
  once_word :: u32
  once_mu :: owner
  pcs :: "nat \<Rightarrow> once_pc"
  entry :: "nat \<Rightarrow> once_entry"
  uses_mu :: "nat \<Rightarrow> bool"
  use_arg :: "nat \<Rightarrow> bool"
  calls :: "(nat \<times> bool) list"
  finishes :: nat

definition goto :: "nat \<Rightarrow> once_pc \<Rightarrow> once_sys \<Rightarrow> once_sys" where
  "goto i p s = s\<lparr>pcs := (pcs s)(i := p)\<rparr>"

definition mu_lock :: "nat \<Rightarrow> once_pc \<Rightarrow> once_sys \<Rightarrow> once_sys option" where
  "mu_lock i p s =
    (if uses_mu s i then
       if once_mu s = Free then Some (goto i p (s\<lparr>once_mu := Thread i\<rparr>)) else None
     else Some (goto i p s))"

definition mu_unlock :: "nat \<Rightarrow> once_pc \<Rightarrow> once_sys \<Rightarrow> once_sys" where
  "mu_unlock i p s = goto i p (if uses_mu s i then s\<lparr>once_mu := Free\<rparr> else s)"

definition nsync_spin_delay :: "u32 \<Rightarrow> u32" where
  "nsync_spin_delay attempts = (if attempts < 7 then attempts + 1 else attempts)"

text \<open>The arguments of \<open>nsync_run_once_impl\<close>: whether \<open>s\<close> is given, and whether \<open>farg\<close> is called.\<close>

definition call_impl :: "nat \<Rightarrow> bool \<Rightarrow> bool \<Rightarrow> once_sys \<Rightarrow> once_sys" where
  "call_impl i sync arg s =
    goto i Impl (s\<lparr>uses_mu := (uses_mu s)(i := sync), use_arg := (use_arg s)(i := arg)\<rparr>)"

definition nsync_run_once :: "nat \<Rightarrow> once_sys \<Rightarrow> once_sys" where
  "nsync_run_once i s =
    (let v = once_word s in if v \<noteq> 2 then call_impl i True False s else goto i Returned s)"

definition nsync_run_once_arg :: "nat \<Rightarrow> once_sys \<Rightarrow> once_sys" where
  "nsync_run_once_arg i s =
    (let v = once_word s in if v \<noteq> 2 then call_impl i True True s else goto i Returned s)"

definition nsync_run_once_spin :: "nat \<Rightarrow> once_sys \<Rightarrow> once_sys" where
  "nsync_run_once_spin i s =
    (let v = once_word s in if v \<noteq> 2 then call_impl i False False s else goto i Returned s)"

definition nsync_run_once_arg_spin :: "nat \<Rightarrow> once_sys \<Rightarrow> once_sys" where
  "nsync_run_once_arg_spin i s =
    (let v = once_word s in if v \<noteq> 2 then call_impl i False True s else goto i Returned s)"

definition entry_step :: "nat \<Rightarrow> once_sys \<Rightarrow> once_sys" where
  "entry_step i s =
    (case entry s i of
       Run_once \<Rightarrow> nsync_run_once i s
     | Run_once_arg \<Rightarrow> nsync_run_once_arg i s
     | Run_once_spin \<Rightarrow> nsync_run_once_spin i s
     | Run_once_arg_spin \<Rightarrow> nsync_run_once_arg_spin i s)"

definition impl_step :: "nat \<Rightarrow> once_sys \<Rightarrow> once_pc \<Rightarrow> once_sys option" where
  "impl_step i s pc =
    (case pc of
       Impl \<Rightarrow> (let v = once_word s in Some (goto i (if v \<noteq> 2 then Lock_before v else Returned) s))
     | Lock_before v \<Rightarrow> mu_lock i (Cas v) s
     | Cas v \<Rightarrow>
         (if v = 0 then
            if once_word s = 0 then Some (goto i Unlock_before (s\<lparr>once_word := 1\<rparr>))
            else Some (goto i Reload s)
          else Some (goto i (Test 0) s))
     | Reload \<Rightarrow> Some (goto i (Cas (once_word s)) s)
     | Unlock_before \<Rightarrow> Some (mu_unlock i Run s)
     | Run \<Rightarrow> Some (goto i Running (s\<lparr>calls := calls s @ [(i, use_arg s i)]\<rparr>))
     | Running \<Rightarrow> Some (goto i Lock_after (s\<lparr>finishes := finishes s + 1\<rparr>))
     | Lock_after \<Rightarrow> mu_lock i Broadcast s
     | Broadcast \<Rightarrow> Some (goto i Store s)
     | Store \<Rightarrow> Some (goto i (Test 0) (s\<lparr>once_word := 2\<rparr>))
     | Test attempts \<Rightarrow> Some (goto i (if once_word s \<noteq> 2 then Wait attempts else Unlock_after) s)
     | Wait attempts \<Rightarrow>
         (if uses_mu s i then
            let attempts = (if attempts < 50 then attempts + 10 else attempts)
            in Some (goto i (Sleep attempts) (s\<lparr>once_mu := Free\<rparr>))
          else Some (goto i (Test (nsync_spin_delay attempts)) s))
     | Sleep attempts \<Rightarrow> mu_lock i (Test attempts) s
     | Unlock_after \<Rightarrow> Some (mu_unlock i Returned s)
     | _ \<Rightarrow> None)"

definition thread_step :: "nat \<Rightarrow> once_sys \<Rightarrow> once_sys option" where
  "thread_step i s =
    (case pcs s i of
       Call \<Rightarrow> Some (entry_step i s)
     | Returned \<Rightarrow> None
     | pc \<Rightarrow> impl_step i s pc)"

text \<open>\<open>m\<close> says which of the four functions each thread calls.\<close>

definition once_init :: "(nat \<Rightarrow> once_entry) \<Rightarrow> once_sys" where
  "once_init m = \<lparr>once_word = 0, once_mu = Free, pcs = (\<lambda>_. Call), entry = m,
     uses_mu = (\<lambda>_. False), use_arg = (\<lambda>_. False), calls = [], finishes = 0\<rparr>"

abbreviation starts :: "once_sys \<Rightarrow> nat" where
  "starts s \<equiv> length (calls s)"

inductive once_step :: "once_sys \<Rightarrow> once_sys \<Rightarrow> bool" where
  thread: "thread_step i s = Some t \<Longrightarrow> once_step s t"
| grab: "once_mu s = Free \<Longrightarrow> once_step s (s\<lparr>once_mu := Other\<rparr>)"
| drop: "once_mu s = Other \<Longrightarrow> once_step s (s\<lparr>once_mu := Free\<rparr>)"

inductive once_reachable :: "(nat \<Rightarrow> once_entry) \<Rightarrow> once_sys \<Rightarrow> bool" for m where
  init: "once_reachable m (once_init m)"
| step: "once_reachable m s \<Longrightarrow> once_step s t \<Longrightarrow> once_reachable m t"

section \<open>The invariant\<close>

text \<open>A thread that won the exchange, and how far the user's function has got at each of its points.\<close>

fun winner :: "once_pc \<Rightarrow> bool" where
  "winner pc \<longleftrightarrow> pc \<in> {Unlock_before, Run, Running, Lock_after, Broadcast, Store}"

definition started :: "once_pc \<Rightarrow> nat" where
  "started pc = (if pc \<in> {Unlock_before, Run} then 0 else 1)"

definition finished :: "once_pc \<Rightarrow> nat" where
  "finished pc = (if pc \<in> {Unlock_before, Run, Running} then 0 else 1)"

text \<open>Where a thread holds the mutex, and where it can be while the word is 0.\<close>

fun holds :: "once_pc \<Rightarrow> bool" where
  "holds (Cas _) = True" | "holds Reload = True" | "holds Unlock_before = True"
| "holds Broadcast = True" | "holds Store = True" | "holds (Test _) = True"
| "holds (Wait _) = True" | "holds Unlock_after = True" | "holds _ = False"

fun early :: "once_pc \<Rightarrow> bool" where
  "early Call = True" | "early Impl = True" | "early (Lock_before v) = (v = 0)" | "early (Cas v) = (v = 0)"
| "early _ = False"

definition phase0 :: "once_sys \<Rightarrow> bool" where
  "phase0 s \<longleftrightarrow> once_word s = 0 \<and> starts s = 0 \<and> finishes s = 0 \<and> (\<forall>i. early (pcs s i))"

definition phase1 :: "once_sys \<Rightarrow> nat \<Rightarrow> bool" where
  "phase1 s r \<longleftrightarrow> once_word s = 1 \<and> winner (pcs s r) \<and>
     starts s = started (pcs s r) \<and> finishes s = finished (pcs s r) \<and>
     (\<forall>i. (i \<noteq> r \<longrightarrow> \<not> winner (pcs s i)) \<and> pcs s i \<noteq> Returned \<and> pcs s i \<noteq> Unlock_after)"

definition phase2 :: "once_sys \<Rightarrow> bool" where
  "phase2 s \<longleftrightarrow> once_word s = 2 \<and> starts s = 1 \<and> finishes s = 1 \<and> (\<forall>i. \<not> winner (pcs s i))"

definition phase_inv :: "once_sys \<Rightarrow> bool" where
  "phase_inv s \<longleftrightarrow> phase0 s \<or> (\<exists>r. phase1 s r) \<or> phase2 s"

definition mutex_inv :: "once_sys \<Rightarrow> bool" where
  "mutex_inv s \<longleftrightarrow> (\<forall>i. once_mu s = Thread i \<longleftrightarrow> uses_mu s i \<and> holds (pcs s i))"

lemmas step_defs = thread_step_def entry_step_def call_impl_def nsync_run_once_def nsync_run_once_arg_def
  nsync_run_once_spin_def nsync_run_once_arg_spin_def impl_step_def mu_lock_def mu_unlock_def goto_def Let_def

lemma step_frame:
  assumes "thread_step i s = Some t"
  shows "j \<noteq> i \<Longrightarrow> pcs t j = pcs s j" and "j \<noteq> i \<Longrightarrow> uses_mu t j = uses_mu s j"
  using assms by (cases "pcs s i"; simp add: step_defs split: if_splits once_entry.splits; fastforce)+

lemma step_mutex:
  assumes "thread_step i s = Some t"
  shows "(once_mu t = once_mu s \<and> (uses_mu t i \<and> holds (pcs t i)) = (uses_mu s i \<and> holds (pcs s i))) \<or>
    (uses_mu t i \<and> once_mu s = Free \<and> once_mu t = Thread i \<and> holds (pcs t i)) \<or>
    (uses_mu s i \<and> holds (pcs s i) \<and> once_mu t = Free \<and> \<not> holds (pcs t i))"
  using assms by (cases "pcs s i"; simp add: step_defs split: if_splits once_entry.splits; fastforce)

lemma mutex_step: "once_step s t \<Longrightarrow> mutex_inv s \<Longrightarrow> mutex_inv t"
proof (induction rule: once_step.induct)
  case (thread i s t)
  show ?case unfolding mutex_inv_def
  proof
    fix j
    show "once_mu t = Thread j \<longleftrightarrow> uses_mu t j \<and> holds (pcs t j)"
      using thread(2) step_mutex [OF thread(1)] step_frame [OF thread(1)]
      unfolding mutex_inv_def by (cases "j = i") (metis owner.distinct owner.inject)+
  qed
qed (auto simp: mutex_inv_def)

lemma step_phase0:
  assumes "thread_step i s = Some t" "phase0 s"
  shows "phase0 t \<or> phase1 t i"
proof -
  have s: "once_word s = 0" "starts s = 0" "finishes s = 0" "early (pcs s j)" for j
    using assms(2) by (simp_all add: phase0_def)
  have "(once_word t = 0 \<and> early (pcs t i) \<or> once_word t = 1 \<and> pcs t i = Unlock_before) \<and> starts t = 0 \<and> finishes t = 0"
    using assms(1) s(1-3) s(4) [of i] by (cases "pcs s i"; simp add: step_defs split: if_splits once_entry.splits; fastforce)
  moreover have "early (pcs t j)" if "j \<noteq> i" for j using s(4) step_frame(1) [OF assms(1) that] by simp
  moreover have "\<not> winner p \<and> p \<noteq> Returned \<and> p \<noteq> Unlock_after" if "early p" for p
    using that by (cases p) auto
  moreover have "winner Unlock_before" "started Unlock_before = 0" "finished Unlock_before = 0"
    by (simp_all add: started_def finished_def)
  ultimately show ?thesis
    unfolding phase0_def phase1_def by (metis once_pc.simps)
qed

lemma step_phase2:
  assumes "thread_step i s = Some t" "phase2 s"
  shows "phase2 t"
proof -
  have s: "once_word s = 2" "starts s = 1" "finishes s = 1" "\<not> winner (pcs s j)" for j
    using assms(2) unfolding phase2_def by metis+
  have "once_word t = 2 \<and> starts t = 1 \<and> finishes t = 1 \<and> \<not> winner (pcs t i)"
    using assms(1) s(1-3) s(4) [of i] by (cases "pcs s i"; simp add: step_defs split: if_splits once_entry.splits; fastforce)
  then show ?thesis using s(4) step_frame(1) [OF assms(1)] unfolding phase2_def by metis
qed

lemma step_phase1:
  assumes "thread_step i s = Some t" "phase1 s r"
  shows "phase1 t r \<or> phase2 t"
proof -
  have s: "once_word s = 1" "winner (pcs s r)" "starts s = started (pcs s r)" "finishes s = finished (pcs s r)"
    using assms(2) unfolding phase1_def by metis+
  have o: "j \<noteq> r \<Longrightarrow> \<not> winner (pcs s j)" "pcs s j \<noteq> Returned" "pcs s j \<noteq> Unlock_after" for j
    using assms(2) unfolding phase1_def by metis+
  show ?thesis
  proof (cases "i = r")
    case True
    have "(once_word t = 1 \<and> winner (pcs t i) \<and> starts t = started (pcs t i) \<and> finishes t = finished (pcs t i) \<and>
        pcs t i \<noteq> Returned \<and> pcs t i \<noteq> Unlock_after) \<or>
      (once_word t = 2 \<and> starts t = 1 \<and> finishes t = 1 \<and> \<not> winner (pcs t i))"
      using assms(1) s unfolding True
      by (cases "pcs s r"; simp add: step_defs started_def finished_def split: if_splits once_entry.splits; fastforce)
    then show ?thesis using o step_frame(1) [OF assms(1)] True unfolding phase1_def phase2_def by metis
  next
    case False
    have "once_word t = 1 \<and> starts t = starts s \<and> finishes t = finishes s \<and> \<not> winner (pcs t i) \<and>
        pcs t i \<noteq> Returned \<and> pcs t i \<noteq> Unlock_after"
      using assms(1) s(1) o(1) [OF False] o(2,3) [of i]
      by (cases "pcs s i"; simp add: step_defs split: if_splits once_entry.splits; fastforce)
    then show ?thesis using s o step_frame(1) [OF assms(1)] False unfolding phase1_def by metis
  qed
qed

lemma phase_step: "once_step s t \<Longrightarrow> phase_inv s \<Longrightarrow> phase_inv t"
proof (induction rule: once_step.induct)
  case (thread i s t)
  then show ?case
    unfolding phase_inv_def using step_phase0 step_phase1 step_phase2 by metis
qed (auto simp: phase_inv_def phase0_def phase1_def phase2_def)

definition once_inv :: "once_sys \<Rightarrow> bool" where
  "once_inv s \<longleftrightarrow> mutex_inv s \<and> phase_inv s"

lemma once_inv_step: "once_inv s \<Longrightarrow> once_step s t \<Longrightarrow> once_inv t"
  by (simp add: once_inv_def mutex_step phase_step)

lemma reachable_inv: "once_reachable m s \<Longrightarrow> once_inv s"
proof (induction rule: once_reachable.induct)
  case init
  show ?case by (auto simp: once_inv_def mutex_inv_def phase_inv_def phase0_def once_init_def)
next
  case (step s t)
  then show ?case by (blast intro: once_inv_step)
qed

lemma phase1_unique: "phase1 s r \<Longrightarrow> once_word s = 1 \<and> winner (pcs s r)" by (simp add: phase1_def)

lemma inv_word: "once_inv s \<Longrightarrow> once_word s = 0 \<and> phase0 s \<or> once_word s = 1 \<and> (\<exists>r. phase1 s r) \<or> once_word s = 2 \<and> phase2 s"
  unfolding once_inv_def phase_inv_def using phase0_def phase1_def phase2_def by metis

section \<open>Every call can return\<close>

lemma blocked:
  assumes "thread_step i s = None" "pcs s i \<noteq> Returned"
  shows "once_mu s \<noteq> Free" and "\<not> holds (pcs s i)"
  using assms by (cases "pcs s i"; simp add: step_defs split: if_splits)+

text \<open>
  The distance of thread \<open>i\<close> from its goal under a ranking of the program points: its own rank and
  the rank of the owner it has to wait for.
\<close>

definition distance :: "(once_pc \<Rightarrow> nat) \<Rightarrow> nat \<Rightarrow> once_sys \<Rightarrow> nat" where
  "distance R i s = R (pcs s i) +
     (case once_mu s of Free \<Rightarrow> 0 | Other \<Rightarrow> 1 | Thread j \<Rightarrow> if j = i then 0 else Suc (R (pcs s j)))"

lemma drive:
  assumes inv: "mutex_inv s" and i: "pcs s i \<noteq> Returned"
    and self: "\<And>t. thread_step i s = Some t \<Longrightarrow> Q t \<or> R (pcs t i) < R (pcs s i)"
    and owner: "\<And>j t. j \<noteq> i \<Longrightarrow> once_mu s = Thread j \<Longrightarrow> thread_step j s = Some t \<Longrightarrow>
       Q t \<or> once_mu t = Free \<or> R (pcs t j) < R (pcs s j)"
  shows "\<exists>t. once_step s t \<and> (Q t \<or> distance R i t < distance R i s)"
proof (cases "thread_step i s")
  case (Some t)
  have "distance R i t < distance R i s" if "R (pcs t i) < R (pcs s i)"
  proof (cases "once_mu t = once_mu s")
    case True
    then show ?thesis
      using that step_frame(1) [OF Some] unfolding distance_def True by (cases "once_mu s") auto
  next
    case False
    then have "once_mu s = Free \<and> once_mu t = Thread i \<or> once_mu s = Thread i \<and> once_mu t = Free"
      using step_mutex [OF Some] inv unfolding mutex_inv_def by blast
    then show ?thesis using that unfolding distance_def by auto
  qed
  then show ?thesis using once_step.thread [OF Some] self [OF Some] by blast
next
  case None
  note b = blocked [OF None i]
  show ?thesis
  proof (cases "once_mu s")
    case Free
    then show ?thesis using b by simp
  next
    case Other
    then have "distance R i (s\<lparr>once_mu := Free\<rparr>) < distance R i s" by (simp add: distance_def)
    then show ?thesis using once_step.drop [OF Other] by blast
  next
    case (Thread j)
    then have h: "uses_mu s j \<and> holds (pcs s j)" using inv unfolding mutex_inv_def by blast
    then have ji: "j \<noteq> i" using b by auto
    obtain t where t: "thread_step j s = Some t"
      using blocked(2) [of j s] h by (cases "thread_step j s"; cases "pcs s j") auto
    have "pcs t i = pcs s i" using step_frame(1) [OF t] ji by simp
    moreover have "once_mu t = Free \<or> once_mu t = Thread j"
      using step_mutex [OF t] Thread by auto
    ultimately have "distance R i t < distance R i s"
      if "once_mu t = Free \<or> R (pcs t j) < R (pcs s j)"
      using that ji Thread by (auto simp: distance_def)
    then show ?thesis using once_step.thread [OF t] owner [OF ji Thread t] by blast
  qed
qed

lemma reach_goal:
  assumes keep: "\<And>s t. I s \<Longrightarrow> once_step s t \<Longrightarrow> Q t \<or> I t"
    and progress: "\<And>s. I s \<Longrightarrow> \<exists>t. once_step s t \<and> (Q t \<or> (d t :: nat) < d s)"
    and start: "I s"
  shows "\<exists>t. once_step\<^sup>*\<^sup>* s t \<and> Q t"
  using start
proof (induction "d s" arbitrary: s rule: less_induct)
  case less
  obtain t where t: "once_step s t" "Q t \<or> d t < d s" using progress [OF less.prems] by blast
  show ?case
  proof (cases "Q t")
    case True
    then show ?thesis using t by blast
  next
    case False
    then have "I t" "d t < d s" using keep [OF less.prems t(1)] t(2) by blast+
    then obtain u where "once_step\<^sup>*\<^sup>* t u" "Q u" using less.hyps by blast
    then show ?thesis using t(1) by (meson converse_rtranclp_into_rtranclp)
  qed
qed

fun rank0 :: "once_pc \<Rightarrow> nat" where
  "rank0 Call = 4" | "rank0 Impl = 3" | "rank0 (Lock_before _) = 2" | "rank0 (Cas _) = 1" | "rank0 _ = 0"

fun rank1 :: "once_pc \<Rightarrow> nat" where
  "rank1 Unlock_before = 6" | "rank1 Run = 5" | "rank1 Running = 4" | "rank1 Lock_after = 3"
| "rank1 Broadcast = 2" | "rank1 Store = 1"
| "rank1 (Cas v) = (if v = 0 then 5 else 3)" | "rank1 Reload = 4" | "rank1 (Test _) = 2" | "rank1 (Wait _) = 1"
| "rank1 _ = 0"

fun rank2 :: "once_pc \<Rightarrow> nat" where
  "rank2 Call = 10" | "rank2 Impl = 9" | "rank2 (Lock_before _) = 8"
| "rank2 (Cas v) = (if v = 0 then 7 else 5)" | "rank2 Reload = 6"
| "rank2 (Wait _) = 4" | "rank2 (Sleep _) = 3" | "rank2 (Test _) = 2" | "rank2 Unlock_after = 1" | "rank2 _ = 0"

lemma rank0_step:
  assumes "thread_step i s = Some t" "phase0 s"
  shows "once_word t = 1 \<or> rank0 (pcs t i) < rank0 (pcs s i)"
proof -
  have "once_word s = 0" "early (pcs s i)" using assms(2) by (simp_all add: phase0_def)
  then show ?thesis using assms(1) by (cases "pcs s i"; simp add: step_defs split: if_splits once_entry.splits; fastforce)
qed

lemma rank1_step:
  assumes "thread_step i s = Some t" "phase1 s r" "i = r \<or> uses_mu s i \<and> holds (pcs s i)"
  shows "once_word t = 2 \<or> once_mu t = Free \<and> i \<noteq> r \<or> rank1 (pcs t i) < rank1 (pcs s i)"
proof -
  have "once_word s = 1" "i = r \<longrightarrow> winner (pcs s i)" "i \<noteq> r \<longrightarrow> \<not> winner (pcs s i)" "pcs s i \<noteq> Unlock_after"
    using assms(2) unfolding phase1_def by metis+
  then show ?thesis using assms(1,3) by (cases "i = r"; cases "pcs s i"; simp add: step_defs split: if_splits once_entry.splits; fastforce)
qed

lemma rank2_step:
  assumes "thread_step i s = Some t" "phase2 s"
  shows "rank2 (pcs t i) < rank2 (pcs s i)"
proof -
  have "once_word s = 2" "\<not> winner (pcs s i)" using assms(2) unfolding phase2_def by metis+
  then show ?thesis using assms(1) by (cases "pcs s i"; simp add: step_defs split: if_splits once_entry.splits; fastforce)
qed

lemma inv_steps: "once_step\<^sup>*\<^sup>* s t \<Longrightarrow> once_inv s \<Longrightarrow> once_inv t"
  by (induction rule: rtranclp_induct) (auto intro: once_inv_step)

lemma leave0:
  assumes "once_inv s" "phase0 s"
  shows "\<exists>t. once_step\<^sup>*\<^sup>* s t \<and> once_word t = 1"
proof (rule reach_goal [where I = "\<lambda>s. once_inv s \<and> phase0 s" and d = "distance rank0 0"])
  fix s t assume s: "once_inv s \<and> phase0 s"
  show "once_word t = 1 \<or> once_inv t \<and> phase0 t" if "once_step s t"
    using that s
  proof cases
    case (thread i)
    then show ?thesis
      using step_phase0 [OF thread] s once_inv_step [OF _ that] phase1_unique by blast
  qed (use once_inv_step [OF _ that] s in \<open>auto simp: phase0_def\<close>)
  have "pcs s 0 \<noteq> Returned" using s by (metis phase0_def early.simps(16))
  then show "\<exists>t. once_step s t \<and> (once_word t = 1 \<or> distance rank0 0 t < distance rank0 0 s)"
    using s rank0_step by (intro drive) (auto simp: once_inv_def)
qed (use assms in simp)

lemma leave1:
  assumes "once_inv s" "phase1 s r"
  shows "\<exists>t. once_step\<^sup>*\<^sup>* s t \<and> once_word t = 2"
proof (rule reach_goal [where I = "\<lambda>s. once_inv s \<and> phase1 s r" and d = "distance rank1 r"])
  fix s t assume s: "once_inv s \<and> phase1 s r"
  show "once_word t = 2 \<or> once_inv t \<and> phase1 t r" if "once_step s t"
    using that
  proof cases
    case (thread i)
    then show ?thesis
      using step_phase1 [OF thread] s once_inv_step [OF _ that] phase2_def by blast
  qed (use once_inv_step [OF _ that] s in \<open>auto simp: phase1_def\<close>)
  show "\<exists>t. once_step s t \<and> (once_word t = 2 \<or> distance rank1 r t < distance rank1 r s)"
  proof (rule drive)
    show "mutex_inv s" "pcs s r \<noteq> Returned" using s by (auto simp: once_inv_def phase1_def)
    show "once_word t = 2 \<or> rank1 (pcs t r) < rank1 (pcs s r)" if "thread_step r s = Some t" for t
      using rank1_step [OF that] s by blast
    show "once_word t = 2 \<or> once_mu t = Free \<or> rank1 (pcs t j) < rank1 (pcs s j)"
      if "j \<noteq> r" "once_mu s = Thread j" "thread_step j s = Some t" for j t
      using rank1_step [OF that(3)] s that(2) unfolding once_inv_def mutex_inv_def by blast
  qed
qed (use assms in simp)

lemma leave2:
  assumes "once_inv s" "phase2 s"
  shows "\<exists>t. once_step\<^sup>*\<^sup>* s t \<and> pcs t i = Returned"
proof (cases "pcs s i = Returned")
  case False
  show ?thesis
  proof (rule reach_goal [where I = "\<lambda>s. once_inv s \<and> phase2 s \<and> pcs s i \<noteq> Returned" and d = "distance rank2 i"])
    fix s t assume s: "once_inv s \<and> phase2 s \<and> pcs s i \<noteq> Returned"
    show "pcs t i = Returned \<or> once_inv t \<and> phase2 t \<and> pcs t i \<noteq> Returned" if "once_step s t"
      using that
    proof cases
      case (thread j)
      then show ?thesis using step_phase2 [OF thread] s once_inv_step [OF _ that] by blast
    qed (use once_inv_step [OF _ that] s in \<open>auto simp: phase2_def\<close>)
    show "\<exists>t. once_step s t \<and> (pcs t i = Returned \<or> distance rank2 i t < distance rank2 i s)"
      using s rank2_step by (intro drive) (auto simp: once_inv_def)
  qed (use assms False in simp)
qed blast

lemma can_return:
  assumes inv: "once_inv s"
  shows "\<exists>t. once_step\<^sup>*\<^sup>* s t \<and> pcs t i = Returned"
proof -
  have two: ?thesis if u: "once_step\<^sup>*\<^sup>* s u" "once_word u = 2" for u
  proof -
    note i = inv_steps [OF u(1) inv]
    then have "phase2 u" using inv_word [OF i] u(2) by auto
    then obtain t where "once_step\<^sup>*\<^sup>* u t" "pcs t i = Returned" using leave2 [OF i] by blast
    then show ?thesis using u(1) rtranclp_trans by metis
  qed
  have one: ?thesis if u: "once_step\<^sup>*\<^sup>* s u" "once_word u = 1" for u
  proof -
    note i = inv_steps [OF u(1) inv]
    then obtain r where "phase1 u r" using inv_word [OF i] u(2) by auto
    then obtain t where "once_step\<^sup>*\<^sup>* u t" "once_word t = 2" using leave1 [OF i] by blast
    then show ?thesis using two rtranclp_trans [OF u(1)] by blast
  qed
  from inv_word [OF inv] consider "phase0 s" | "once_word s = 1" | "once_word s = 2" by blast
  then show ?thesis
  proof cases
    case 1
    then show ?thesis using leave0 [OF inv] one by blast
  qed (use one two in blast)+
qed

lemma safe:
  assumes "once_reachable m s"
  shows "starts s \<le> 1 \<and> finishes s \<le> starts s \<and> (pcs s i = Returned \<longrightarrow> starts s = 1 \<and> finishes s = 1)"
proof -
  consider "phase0 s" | r where "phase1 s r" | "phase2 s" using inv_word [OF reachable_inv [OF assms]] by blast
  then show ?thesis
  proof cases
    case 1
    then have "early (pcs s i)" "starts s = 0" "finishes s = 0" by (simp_all add: phase0_def)
    then show ?thesis by auto
  next
    case 2
    then have "pcs s i \<noteq> Returned" "starts s = started (pcs s r)" "finishes s = finished (pcs s r)" by (simp_all add: phase1_def)
    then show ?thesis by (simp add: started_def finished_def)
  next
    case 3
    then show ?thesis by (simp add: phase2_def)
  qed
qed

section \<open>Properties\<close>

text \<open>A run by a schedule, for the witnesses: a blocked thread is skipped.\<close>

fun schedule :: "nat list \<Rightarrow> once_sys \<Rightarrow> once_sys" where
  "schedule [] s = s"
| "schedule (i # is) s = schedule is (case thread_step i s of None \<Rightarrow> s | Some t \<Rightarrow> t)"

lemma schedule_reachable: "once_reachable m s \<Longrightarrow> once_reachable m (schedule is s)"
proof (induction "is" arbitrary: s)
  case (Cons i "is")
  then have "once_reachable m (case thread_step i s of None \<Rightarrow> s | Some t \<Rightarrow> t)"
    using once_reachable.step [OF _ once_step.thread] by (cases "thread_step i s") auto
  then show ?case using Cons.IH by simp
qed simp

text \<open>Two threads with the mutex, two that spin.\<close>

definition four_entries :: "nat \<Rightarrow> once_entry" where
  "four_entries i = (if i = 0 then Run_once else if i = 1 then Run_once_arg
     else if i = 2 then Run_once_spin else Run_once_arg_spin)"

definition four_threads :: once_sys where "four_threads = once_init four_entries"

lemma four_reachable: "once_reachable four_entries (schedule is four_threads)"
  unfolding four_threads_def by (rule schedule_reachable) (rule once_reachable.init)

definition race :: "nat list" where
  "race = [0, 1, 2, 0, 1, 2, 0, 1, 0, 2, 2, 0, 1, 1, 1, 0, 2, 1, 0, 1, 1]"

text \<open>
  C37: safety. Whatever the interleaving of any number of threads, the user's function is started
  at most once, and a call that has returned returned after the function had run to its end,
  exactly once.
\<close>
lemma once_safe:
  assumes "once_reachable m s"
  shows "starts s \<le> 1 \<and> finishes s \<le> starts s \<and> (pcs s i = Returned \<longrightarrow> starts s = 1 \<and> finishes s = 1)"
  by (rule safe [OF assms])

lemma once_safe_witness:
  "pcs (schedule (race @ replicate 8 0) four_threads) 0 = Returned \<and>
   finishes (schedule (race @ replicate 8 0) four_threads) = 1"
proof -
  have "pcs (schedule (race @ replicate 8 0) four_threads) 0 = Returned" by code_simp
  then show ?thesis using once_safe [OF four_reachable, of "race @ replicate 8 0" 0] by simp
qed

text \<open>
  C38: liveness. From every reachable state every call can still return, so no interleaving leads
  to a deadlock or to a state in which a thread waits for ever: provided the user's function
  returns and the other users of the shared mutex release it, some continuation takes the thread
  to its return, and the function has then run.
\<close>
lemma once_live:
  assumes "once_reachable m s"
  shows "\<exists>t. once_step\<^sup>*\<^sup>* s t \<and> pcs t i = Returned \<and> finishes t = 1"
proof -
  obtain t where t: "once_step\<^sup>*\<^sup>* s t" "pcs t i = Returned" using can_return [OF reachable_inv [OF assms]] by blast
  have "once_reachable m t" using t(1) assms by (induction rule: rtranclp_induct) (auto intro: once_reachable.step)
  then show ?thesis using safe [of m t i] t by blast
qed

lemma once_live_witness:
  "\<exists>t. once_step\<^sup>*\<^sup>* (schedule race four_threads) t \<and> pcs t 2 = Returned \<and> finishes t = 1"
  by (rule once_live [OF four_reachable])

text \<open>
  C39: mutual exclusion and lock discipline. The mutex belongs to a thread exactly while that thread
  is at a point of the code between a lock and the matching unlock, so the code never unlocks a
  mutex it does not hold, never locks one it holds, and at most one thread is between them.
\<close>
lemma once_mutex:
  assumes "once_reachable m s"
  shows "(once_mu s = Thread i \<longleftrightarrow> uses_mu s i \<and> holds (pcs s i)) \<and>
    \<not> (i \<noteq> j \<and> uses_mu s i \<and> uses_mu s j \<and> holds (pcs s i) \<and> holds (pcs s j))"
proof -
  have "mutex_inv s" using reachable_inv [OF assms] by (simp add: once_inv_def)
  then show ?thesis unfolding mutex_inv_def by (metis owner.inject)
qed

lemma once_mutex_witness:
  "once_mu (schedule [0, 1, 0, 1, 0, 1] four_threads) = Thread 0 \<and>
   \<not> holds (pcs (schedule [0, 1, 0, 1, 0, 1] four_threads) 1)"
proof -
  have "uses_mu (schedule [0, 1, 0, 1, 0, 1] four_threads) 0" "uses_mu (schedule [0, 1, 0, 1, 0, 1] four_threads) 1"
    "holds (pcs (schedule [0, 1, 0, 1, 0, 1] four_threads) 0)" by code_simp+
  then show ?thesis using once_mutex [OF four_reachable, of "[0, 1, 0, 1, 0, 1]" 0 1] by simp
qed

text \<open>
  C40: termination. Once the word is 2 every loop of the code ends: each step that a thread takes
  lowers \<open>rank2\<close> of its program point, which is at most 10, and leaves the word at 2, so a call
  returns within ten of its own steps.
\<close>
lemma once_terminates:
  assumes "once_reachable m s" and "once_word s = 2" and "thread_step i s = Some t"
  shows "rank2 (pcs t i) < rank2 (pcs s i) \<and> rank2 (pcs s i) \<le> 10 \<and> once_word t = 2"
proof -
  have p: "phase2 s" using inv_word [OF reachable_inv [OF assms(1)]] assms(2) by auto
  have "rank2 pc \<le> 10" for pc by (cases pc) auto
  then show ?thesis using rank2_step [OF assms(3) p] step_phase2 [OF assms(3) p] by (simp add: phase2_def)
qed

lemma once_terminates_witness:
  "rank2 (pcs (schedule [3] (schedule (race @ replicate 8 0) four_threads)) 3) < 10"
proof -
  let ?s = "schedule (race @ replicate 8 0) four_threads"
  have w: "once_word ?s = 2" by code_simp
  have "rank2 (pcs ?s 3) = 10 \<and> thread_step 3 ?s \<noteq> None" by code_simp
  then obtain t where t: "thread_step 3 ?s = Some t" "rank2 (pcs ?s 3) = 10" by blast
  show ?thesis using once_terminates [OF four_reachable w t(1)] t by simp
qed


end
