(* ===== verification/Spec2Isabelle.thy ===== *)
theory Spec2Isabelle
  imports Tr_Flush Adler32 Crc32 Srcfile Rbtree Raa Md5 Readnum Leb128 Bsi Dll Once
begin

text \<open>
  A verification development for the C parts of the TensorFlow makefile repository.

  The repository gathers TensorFlow with the libraries it is built from. Its C code is in the
  vendored libraries; the development models the parts of zlib (\<open>src/zlib_archive\<close>), of the
  assembler nasm (\<open>src/nasm\<close>) and of the synchronisation library nsync (\<open>src/nsync\<close>) whose results
  other parts rely on, on a little-endian LP64 platform.

  \<^item> DEFLATE block coding, \<open>trees.c\<close> with \<open>trees.h\<close> and the declarations of \<open>deflate.h\<close>. \<open>Tr_Bits\<close>: the
    bit buffer (\<open>send_bits\<close>, \<open>bi_flush\<close>, \<open>bi_windup\<close>, \<open>bi_reverse\<close>); the bytes of \<open>pending_buf\<close> below \<open>pending\<close>
    are a list, and \<open>d_buf\<close> and \<open>l_buf\<close> lie in the same memory as \<open>deflate.c\<close> lays it out: \<open>put_byte\<close> also changes
    the entry it falls on. \<open>Tr_Codes\<close>: \<open>gen_codes\<close>. \<open>Tr_Tables\<close>: the constant tables and \<open>tr_static_init\<close>. \<open>Tr_State\<close>:
    the fields of \<open>deflate_state\<close> that \<open>trees.c\<close> uses as a record, \<open>_tr_init\<close>, \<open>_tr_tally\<close> and its inline
    versions, \<open>detect_data_type\<close>. \<open>Tr_Scan\<close>: \<open>scan_tree\<close> and \<open>send_tree\<close>. \<open>Tr_Blocks\<close>: the senders of block bodies
    and of stored and alignment blocks, with the assertion of \<open>compress_block\<close> on the overlay: the blocks are
    decoded when it holds, it holds when few of the tokens are matches, and \<open>overlay_overrun\<close> shows it violated
    by distant matches sent with the static trees. \<open>Tr_Build\<close>, \<open>Tr_Huffman\<close>, \<open>Tr_Bitlen\<close>, \<open>Tr_Tree\<close>: the heap, \<open>build_tree\<close> and
    \<open>gen_bitlen\<close>. \<open>Tr_Flush\<close>: \<open>build_bl_tree\<close>, \<open>_tr_flush_block\<close>, and \<open>flush_pending\<close> of \<open>deflate.c\<close> with
    its repetition over the output buffers of the application, with the theorem on streams of blocks that
    spans all of them. The specifications are \<open>Canonical\<close> (canonical prefix codes) and \<open>Inflate_Spec\<close> (a decoder of
    blocks), both written after RFC 1951 and without reference to the program; the main theorems are
    round trips through this decoder.
  \<^item> Checksums of zlib. \<open>Adler32\<close> (\<open>adler32.c\<close>) and \<open>Crc32\<close> (\<open>crc32.c\<close>, \<open>crc32.h\<close>), against running sums modulo
    65521 and against the bit-serial shift register of \<open>Shift_Register\<close>; \<open>Checksum\<close> holds the interface
    of a checksum of a stream that both provide.
  \<^item> nasm. \<open>Crc64\<close> (\<open>crc64.c\<close>, folding of \<open>string.c\<close>), \<open>Ilog2\<close> (\<open>ilog2.c\<close>), \<open>Hashtbl\<close> (\<open>hashtbl.c\<close>, with the
    find-or-add clients of \<open>preproc.c\<close>), \<open>Srcfile\<close> (\<open>srcfile.c\<close>, a client of the hash table), \<open>Rbtree\<close>
    (\<open>rbtree.c\<close>), \<open>Raa\<close> (\<open>raa.c\<close>), \<open>Md5\<close> (\<open>md5c.c\<close>, against RFC 1321 written out), \<open>Readnum\<close> (\<open>readnum.c\<close>,
    \<open>rdstrnum.c\<close>, against the value of the digits), \<open>Saa\<close> and \<open>Leb128\<close> (\<open>saa.c\<close>: blocks refine a byte string
    with two positions; the LEB128 writers against the decoder of the format), \<open>Bsi\<close> (\<open>bsi.c\<close>).
  \<^item> nsync. \<open>Dll\<close> (\<open>dll.c\<close>): pointers on a heap of links refine lists of elements. \<open>Once\<close> (\<open>once.c\<close>): the threads
    that call the four entry points as a step relation, with safety, liveness, the discipline of
    the mutex and the bound on the steps after completion.

  \<open>Prelude\<close> holds the word types and the lemmas on words and lists that the others share. Interfaces are
  locales: \<open>bit_writer\<close> (what the senders rely on), \<open>prefix_code\<close> (what the decoder relies on), and
  those of the checksums, the hash table and its clients; each is interpreted on the model.

  Loops are recursive functions or folds. Those of \<open>trees.c\<close> that are not structural have measures:
  \<open>down_loop\<close> descends in the heap, \<open>force_two\<close> and \<open>build_loop\<close> count the nodes of the heap, \<open>overflow_loop\<close>
  counts the overflow, and \<open>drain\<close> the bytes and bits that are pending. C integers are words of their width where they can wrap (16-bit frequencies,
  codes and counts, the 32-bit arguments), and integers where the code keeps them small. Sizes and indices
  that the code keeps in \<open>int\<close>, \<open>unsigned\<close> or \<open>size_t\<close> (\<open>avail_out\<close>, the bounds of \<open>bsi\<close>, the length of a number in \<open>readnum\<close>, the
  positions of an \<open>saa\<close>) are unbounded: they differ only for objects of 2^30 elements or more. The shift
  of \<open>readstrnum\<close>, undefined in C for strings above 8 bytes, wraps; the buffer of \<open>MD5Init\<close> is zero, on which no
  result depends.

  Not modelled: allocation failure (nasm ends the program), assertions (but for those that theorems state) and tracing of debug builds,
  the assembler-language and compiler-specific variants of \<open>ilog2.c\<close>, and the printing of tables. Of the rest
  of the repository, the rest of \<open>deflate.c\<close>, the inflate state machine, the nasm assembler proper, the locks,
  condition variables and notes of nsync, jemalloc, giflib and libjpeg are not modelled; the remaining directories are C++ or headers.
\<close>

end
